(* ===== verification/Prelude.thy ===== *)
theory Prelude
  imports Main "HOL-Library.Word"
begin

text \<open>
  Shared vocabulary of the despotify model: machine integers, the faults a C
  statement can end in, big-endian encodings as the wire uses them, C arrays
  whose cells may still be indeterminate, and the generic facts about lists and
  words that several components need.
\<close>

unbundle bit_operations_syntax

section \<open>Machine types\<close>

type_synonym byte = "8 word"
type_synonym u16 = "16 word"
type_synonym u32 = "32 word"
type_synonym u64 = "64 word"

text \<open>
  What can happen instead of a result.  \<open>Assert_Failed\<close> is a failing \<open>assert\<close>,
  \<open>Out_Of_Bounds\<close> an access outside an array or past a terminating NUL,
  \<open>Null_Deref\<close> a dereferenced null pointer, \<open>Uninit\<close> a value that is used
  although nothing was ever stored there, \<open>Process_Exit\<close> a call of \<open>exit\<close>,
  \<open>Blocked\<close> a call that never returns because nothing arrives any more, and
  \<open>Undefined\<close> an operation whose result the C standard leaves undefined.
\<close>

datatype fault =
    Assert_Failed
  | Out_Of_Bounds
  | Null_Deref
  | Uninit
  | Process_Exit int
  | Blocked
  | Undefined

type_synonym 'a result = "fault + 'a"

fun rbind :: "'a result \<Rightarrow> ('a \<Rightarrow> 'b result) \<Rightarrow> 'b result" where
  "rbind (Inl e) f = Inl e"
| "rbind (Inr x) f = f x"

lemma rbind_Inr_iff: "rbind r f = Inr y \<longleftrightarrow> (\<exists>x. r = Inr x \<and> f x = Inr y)"
  by (cases r) auto

lemma rbind_assoc: "rbind (rbind r f) g = rbind r (\<lambda>x. rbind (f x) g)"
  by (cases r) simp_all

lemma rbind_cong [fundef_cong]:
  "r = r' \<Longrightarrow> (\<And>x. r' = Inr x \<Longrightarrow> f x = g x) \<Longrightarrow> rbind r f = rbind r' g"
  by (cases r') auto

named_theorems wire "encodings of integers as bytes and back"
named_theorems frame "fields an operation leaves alone"

section \<open>Lists\<close>

lemma take_length_append [simp]: "take (length xs) (xs @ ys) = xs"
  by simp

lemma list_all2_same_length_map: "length xs = n \<Longrightarrow> map (\<lambda>i. xs ! i) [0..<n] = xs"
  by (metis map_nth)

lemma filter_update_keeps:
  "(\<And>x. P x \<Longrightarrow> k (f x) = k x) \<Longrightarrow>
   map k (map (\<lambda>x. if P x then f x else x) xs) = map k xs"
  by (induction xs) auto

text \<open>The greatest element of a list of integers, with a floor.\<close>

fun max_from :: "int \<Rightarrow> int list \<Rightarrow> int" where
  "max_from m [] = m"
| "max_from m (x # xs) = max_from (max m x) xs"

lemma max_from_ge: "m \<le> max_from m xs"
proof (induction xs arbitrary: m)
  case (Cons x xs)
  have "max m x \<le> max_from (max m x) xs" by (rule Cons.IH)
  then show ?case by simp
qed simp

lemma max_from_upper: "x \<in> set xs \<Longrightarrow> x \<le> max_from m xs"
proof (induction xs arbitrary: m)
  case (Cons y xs)
  show ?case
  proof (cases "x = y")
    case True
    have "max m y \<le> max_from (max m y) xs" by (rule max_from_ge)
    with True show ?thesis by simp
  next
    case False
    with Cons show ?thesis by simp
  qed
qed simp

section \<open>Big-endian integers\<close>

definition put_u16 :: "u16 \<Rightarrow> byte list" where
  "put_u16 w = [ucast (drop_bit 8 w AND 0xff), ucast (w AND 0xff)]"

definition get_u16 :: "byte \<Rightarrow> byte \<Rightarrow> u16" where
  "get_u16 hi lo = push_bit 8 (ucast hi) OR ucast lo"

definition put_u32 :: "u32 \<Rightarrow> byte list" where
  "put_u32 w =
     [ucast (drop_bit 24 w AND 0xff), ucast (drop_bit 16 w AND 0xff),
      ucast (drop_bit 8 w AND 0xff), ucast (w AND 0xff)]"

definition get_u32 :: "byte \<Rightarrow> byte \<Rightarrow> byte \<Rightarrow> byte \<Rightarrow> u32" where
  "get_u32 b3 b2 b1 b0 =
     push_bit 24 (ucast b3) OR push_bit 16 (ucast b2) OR push_bit 8 (ucast b1) OR ucast b0"

lemma and_ff: "(w :: 'a::len word) AND 0xff = take_bit 8 w"
  by (simp add: take_bit_eq_mask mask_eq_exp_minus_1 ac_simps)

lemma ucast_and_ff: "(ucast ((w :: 'a::len word) AND 0xff) :: byte) = ucast w"
  unfolding and_ff by (rule bit_word_eqI) (auto simp: bit_simps)

lemma byte_no_high_bit: "\<not> bit (b :: byte) (8 + n)"
  using bit_imp_le_length [of b "8 + n"] by auto

lemma length_put_u16 [simp]: "length (put_u16 w) = 2"
  by (simp add: put_u16_def)

lemma length_put_u32 [simp]: "length (put_u32 w) = 4"
  by (simp add: put_u32_def)

lemma get_put_u16 [wire]: "put_u16 w = [a, b] \<Longrightarrow> get_u16 a b = w"
  unfolding put_u16_def get_u16_def ucast_and_ff
  by (rule bit_word_eqI) (auto simp: bit_simps)

lemma put_get_u16 [wire]: "put_u16 (get_u16 a b) = [a, b]"
  unfolding put_u16_def get_u16_def ucast_and_ff
  by (auto intro!: bit_word_eqI simp: bit_simps byte_no_high_bit)

lemma get_put_u32 [wire]: "put_u32 w = [a, b, c, d] \<Longrightarrow> get_u32 a b c d = w"
proof -
  assume "put_u32 w = [a, b, c, d]"
  then have e: "a = ucast (drop_bit 24 w)" "b = ucast (drop_bit 16 w)"
    "c = ucast (drop_bit 8 w)" "d = ucast w"
    by (simp_all add: put_u32_def ucast_and_ff)
  show ?thesis
    unfolding e get_u32_def
  proof (rule bit_word_eqI)
    fix n assume n: "n < LENGTH(32)"
    consider "n < 8" | "8 \<le> n" "n < 16" | "16 \<le> n" "n < 24" | "24 \<le> n" by linarith
    then show "bit (push_bit 24 (ucast (ucast (drop_bit 24 w) :: byte)) OR
        push_bit 16 (ucast (ucast (drop_bit 16 w) :: byte)) OR
        push_bit 8 (ucast (ucast (drop_bit 8 w) :: byte)) OR
        ucast (ucast w :: byte) :: u32) n = bit w n"
      by cases (use n in \<open>auto simp: bit_simps\<close>)
  qed
qed
lemma get_u16_put [simp]: "get_u16 (put_u16 w ! 0) (put_u16 w ! 1) = w"
  by (rule get_put_u16) (simp add: put_u16_def)

lemma get_u32_put [simp]:
  "get_u32 (put_u32 w ! 0) (put_u32 w ! 1) (put_u32 w ! 2) (put_u32 w ! 3) = w"
  by (rule get_put_u32) (simp add: put_u32_def)

lemma put_u32_inject: "put_u32 v = put_u32 w \<Longrightarrow> v = w"
  using get_u32_put [of v] get_u32_put [of w] by simp

lemma unat_word_of_nat_u16: "n < 65536 \<Longrightarrow> unat (word_of_nat n :: u16) = n"
  by (simp add: unat_of_nat)

lemma unat_u16_less: "unat (x :: u16) < 65536"
  using unsigned_less [of x] by simp

lemma unat_u8_less: "unat (b :: byte) < 256"
  using unsigned_less [where 'a = nat, of b] by simp

section \<open>Reading from a byte array\<close>

text \<open>\<open>fetch a i\<close> is the C expression \<open>a[i]\<close>; outside the array it is a fault.\<close>

definition fetch :: "'a list \<Rightarrow> nat \<Rightarrow> 'a result" where
  "fetch a i = (if i < length a then Inr (a ! i) else Inl Out_Of_Bounds)"

lemma fetch_in [simp]: "i < length a \<Longrightarrow> fetch a i = Inr (a ! i)"
  by (simp add: fetch_def)

lemma fetch_out [simp]: "length a \<le> i \<Longrightarrow> fetch a i = Inl Out_Of_Bounds"
  by (simp add: fetch_def)

text \<open>\<open>ntohs\<close> of the two bytes at offset \<open>i\<close>, and \<open>ntohl\<close> of the four.\<close>

definition fetch_u16 :: "byte list \<Rightarrow> nat \<Rightarrow> u16 result" where
  "fetch_u16 a i = rbind (fetch a i) (\<lambda>hi. rbind (fetch a (i + 1)) (\<lambda>lo. Inr (get_u16 hi lo)))"

definition fetch_u32 :: "byte list \<Rightarrow> nat \<Rightarrow> u32 result" where
  "fetch_u32 a i =
     rbind (fetch a i) (\<lambda>b3. rbind (fetch a (i + 1)) (\<lambda>b2.
     rbind (fetch a (i + 2)) (\<lambda>b1. rbind (fetch a (i + 3)) (\<lambda>b0.
       Inr (get_u32 b3 b2 b1 b0)))))"

lemma fetch_u16_in: "i + 1 < length a \<Longrightarrow> fetch_u16 a i = Inr (get_u16 (a ! i) (a ! (i + 1)))"
  by (simp add: fetch_u16_def)

lemma fetch_u16_put [wire]: "fetch_u16 (put_u16 w @ xs) 0 = Inr w"
  using get_u16_put [of w] by (simp add: fetch_u16_in nth_append)

lemma fetch_u16_put_at [wire]: "length ys = n \<Longrightarrow> fetch_u16 (ys @ put_u16 w @ xs) n = Inr w"
  using get_u16_put [of w] by (auto simp: fetch_u16_in nth_append)

text \<open>
  \<open>memcpy (a + i, d, length d)\<close> into an array that has room for it.
\<close>

definition store_at :: "'a list \<Rightarrow> nat \<Rightarrow> 'a list \<Rightarrow> 'a list" where
  "store_at a i d = take i a @ d @ drop (i + length d) a"

lemma length_store_at [simp]: "i + length d \<le> length a \<Longrightarrow> length (store_at a i d) = length a"
  by (simp add: store_at_def)

lemma take_store_at: "i + length d \<le> length a \<Longrightarrow> take (i + length d) (store_at a i d) = take i a @ d"
  by (simp add: store_at_def)

lemma store_at_Nil [simp]: "store_at a i [] = a"
  by (simp add: store_at_def)

lemma store_at_Cons [simp]:
  "i < length a \<Longrightarrow> store_at a i (x # d) = store_at (a[i := x]) (Suc i) d"
  by (simp add: store_at_def take_Suc_conv_app_nth)

text \<open>The \<open>n\<close> bytes from \<open>a + i\<close> on, as \<open>memcpy\<close> reads them.\<close>

definition slice :: "'a list \<Rightarrow> nat \<Rightarrow> nat \<Rightarrow> 'a list result" where
  "slice a i n = (if i + n \<le> length a then Inr (take n (drop i a)) else Inl Out_Of_Bounds)"

lemma slice_all [simp]: "length a = n \<Longrightarrow> slice a 0 n = Inr a"
  by (simp add: slice_def)

lemma slice_Inr: "slice a i n = Inr x \<longleftrightarrow> i + n \<le> length a \<and> x = take n (drop i a)"
  by (auto simp: slice_def)

section \<open>C strings\<close>

text \<open>\<open>printf\<close>'s \<open>%d\<close> for a number that is not negative.\<close>

fun dec :: "nat \<Rightarrow> string" where
  "dec n = (if n < 10 then [char_of (48 + n)] else dec (n div 10) @ [char_of (48 + n mod 10)])"

declare dec.simps [simp del]

text \<open>
  A C string is the list of its characters before the terminating NUL.  Copied
  into a field of \<open>n\<close> bytes by \<open>DSFYstrncpy\<close> (\<open>strncpy\<close> of \<open>n - 1\<close>
  bytes, then a NUL in the last cell) it is cut to \<open>n - 1\<close> characters.
\<close>

definition DSFYstrncpy :: "string \<Rightarrow> nat \<Rightarrow> string" where
  "DSFYstrncpy data n = take (n - 1) data"

lemma DSFYstrncpy_fits: "length (DSFYstrncpy s n) \<le> n - 1"
  by (simp add: DSFYstrncpy_def)

lemma DSFYstrncpy_id: "length s < n \<Longrightarrow> DSFYstrncpy s n = s"
  by (simp add: DSFYstrncpy_def)

definition bytes_of :: "string \<Rightarrow> byte list" where
  "bytes_of s = map of_char s"

lemma length_bytes_of [simp]: "length (bytes_of s) = length s"
  by (simp add: bytes_of_def)

text \<open>
  \<open>strncmp a b n = 0\<close>: equal in the first \<open>n\<close> characters, where the comparison
  stops at a NUL.
\<close>

definition strncmp_eq :: "string \<Rightarrow> string \<Rightarrow> nat \<Rightarrow> bool" where
  "strncmp_eq a b n \<longleftrightarrow> take n a = take n b"

end
