(* ===== verification/Buf.thy ===== *)
theory Buf
  imports Prelude
begin

text \<open>
  \<^verbatim>\<open>src/src/lib/buf.c\<close>: the growable byte buffer every message and every
  response is collected in.  A cell of the allocated block that was never
  written is \<open>None\<close>, so that reading one can be told from reading a zero.

  The counters of the struct are C \<open>int\<close>s, natural numbers here; \<open>buf_overflows\<close> says when
  an append leaves their range, which the doubling first does from \<open>2 ^ 30\<close> bytes on.  A
  message is at most a packet long and stays far below.  The two buffers whose size the
  server decides, the response and the unpacked text, are appended to with
  \<open>buf_append_checked\<close> and \<open>buf_extend_checked\<close>, which are \<open>Undefined\<close> there.
\<close>

record buf =
  buf_ptr :: "byte option list"
  buf_len :: nat
  buf_size :: nat

definition START_SIZE :: nat where
  "START_SIZE = 512"

section \<open>Operations\<close>

text \<open>
  The doubling loop of \<open>buf_extend\<close>.  A block of size 0 would never grow; no
  buffer has one (\<open>buf_inv\<close>), and the guard only makes the recursion total.
\<close>

function grow :: "nat \<Rightarrow> nat \<Rightarrow> nat" where
  "grow sz need = (if sz < need \<and> 0 < sz then grow (sz * 2) need else sz)"
  by pat_completeness auto
termination
  by (relation "measure (\<lambda>(sz, need). need - sz)") auto

declare grow.simps [simp del]

definition buf_extend :: "buf \<Rightarrow> nat \<Rightarrow> buf" where
  "buf_extend b n =
     (if buf_size b < buf_len b + n then
        let sz = grow (buf_size b) (buf_len b + n)
        in b\<lparr>buf_size := sz, buf_ptr := buf_ptr b @ replicate (sz - length (buf_ptr b)) None\<rparr>
      else b)"

text \<open>
  Whether \<open>buf_extend (b, n)\<close> overflows one of the \<open>int\<close>s: the sum, or the size, which
  grows with every doubling.
\<close>

definition buf_overflows :: "buf \<Rightarrow> nat \<Rightarrow> bool" where
  "buf_overflows b n \<longleftrightarrow> 2 ^ 31 \<le> buf_len b + n \<or>
     buf_size b < buf_len b + n \<and> 2 ^ 31 \<le> grow (buf_size b) (buf_len b + n)"

definition buf_extend_checked :: "buf \<Rightarrow> nat \<Rightarrow> buf result" where
  "buf_extend_checked b n = (if buf_overflows b n then Inl Undefined else Inr (buf_extend b n))"

definition buf_new :: buf where
  "buf_new = \<lparr>buf_ptr = replicate START_SIZE None, buf_len = 0, buf_size = START_SIZE\<rparr>"

definition buf_append_data :: "buf \<Rightarrow> byte list \<Rightarrow> buf" where
  "buf_append_data b data =
     (let b = buf_extend b (length data)
      in b\<lparr>buf_ptr := store_at (buf_ptr b) (buf_len b) (map Some data),
           buf_len := buf_len b + length data\<rparr>)"

definition buf_append_checked :: "buf \<Rightarrow> byte list \<Rightarrow> buf result" where
  "buf_append_checked b data =
     (if buf_overflows b (length data) then Inl Undefined else Inr (buf_append_data b data))"

definition buf_append_u8 :: "buf \<Rightarrow> byte \<Rightarrow> buf" where
  "buf_append_u8 b data =
     (let b = buf_extend b 1
      in b\<lparr>buf_ptr := (buf_ptr b)[buf_len b := Some data], buf_len := buf_len b + 1\<rparr>)"

definition buf_append_u8_checked :: "buf \<Rightarrow> byte \<Rightarrow> buf result" where
  "buf_append_u8_checked b data =
     (if buf_overflows b 1 then Inl Undefined else Inr (buf_append_u8 b data))"

definition buf_append_u16 :: "buf \<Rightarrow> u16 \<Rightarrow> buf" where
  "buf_append_u16 b data =
     (let b = buf_extend b 2
      in b\<lparr>buf_ptr := (buf_ptr b)
             [buf_len b := Some (ucast (drop_bit 8 data AND 0xff)),
              buf_len b + 1 := Some (ucast (data AND 0xff))],
           buf_len := buf_len b + 2\<rparr>)"

text \<open>\<open>data\<close> is an \<open>unsigned long\<close>: of its 64 bits the low 32 are stored.\<close>

definition buf_append_u32 :: "buf \<Rightarrow> u64 \<Rightarrow> buf" where
  "buf_append_u32 b data =
     (let b = buf_extend b 4
      in b\<lparr>buf_ptr := (buf_ptr b)
             [buf_len b := Some (ucast (drop_bit 24 data AND 0xff)),
              buf_len b + 1 := Some (ucast (drop_bit 16 data AND 0xff)),
              buf_len b + 2 := Some (ucast (drop_bit 8 data AND 0xff)),
              buf_len b + 3 := Some (ucast (data AND 0xff))],
           buf_len := buf_len b + 4\<rparr>)"

section \<open>Contents and invariant\<close>

definition buf_inv :: "buf \<Rightarrow> bool" where
  "buf_inv b \<longleftrightarrow>
     START_SIZE \<le> buf_size b \<and> length (buf_ptr b) = buf_size b \<and> buf_len b \<le> buf_size b \<and>
     None \<notin> set (take (buf_len b) (buf_ptr b))"

definition buf_bytes :: "buf \<Rightarrow> byte list" where
  "buf_bytes b = map the (take (buf_len b) (buf_ptr b))"

lemma grow_ge: "0 < sz \<Longrightarrow> need \<le> grow sz need \<and> sz \<le> grow sz need"
proof (induction sz need rule: grow.induct)
  case (1 sz need)
  show ?case
  proof (cases "sz < need")
    case True
    with 1 have "need \<le> grow (sz * 2) need \<and> sz * 2 \<le> grow (sz * 2) need" by simp
    then show ?thesis using True "1.prems" by (subst (1 2) grow.simps) auto
  next
    case False
    then show ?thesis by (subst (1 2) grow.simps) auto
  qed
qed

text \<open>Doubling overshoots by less than a factor of two.\<close>

lemma grow_lt: "0 < sz \<Longrightarrow> sz < need \<Longrightarrow> grow sz need < 2 * need"
proof (induction sz need rule: grow.induct)
  case (1 sz need)
  show ?case
  proof (cases "sz * 2 < need")
    case True
    with 1 have "grow (sz * 2) need < 2 * need" by simp
    with 1 show ?thesis by (subst grow.simps) auto
  next
    case False
    then have "grow (sz * 2) need = sz * 2" by (subst grow.simps) auto
    with 1 show ?thesis by (subst grow.simps) auto
  qed
qed

lemma grow_twice: "0 < sz \<Longrightarrow> grow sz (sz * 2) = sz * 2"
  by (subst grow.simps, subst grow.simps) simp

lemma buf_inv_new [simp]: "buf_inv buf_new"
  by (simp add: buf_inv_def buf_new_def)

lemma buf_len_new [simp]: "buf_len buf_new = 0"
  by (simp add: buf_new_def)

lemma buf_bytes_new [simp]: "buf_bytes buf_new = []"
  by (simp add: buf_bytes_def buf_new_def)

lemma length_buf_bytes: "buf_inv b \<Longrightarrow> length (buf_bytes b) = buf_len b"
  by (simp add: buf_inv_def buf_bytes_def)

lemma buf_extend_inv [simp]: "buf_inv b \<Longrightarrow> buf_inv (buf_extend b n)"
  using grow_ge [of "buf_size b" "buf_len b + n"]
  by (auto simp: buf_inv_def buf_extend_def Let_def START_SIZE_def)

lemma buf_extend_room: "buf_inv b \<Longrightarrow> buf_len b + n \<le> length (buf_ptr (buf_extend b n))"
  using grow_ge [of "buf_size b" "buf_len b + n"]
  by (auto simp: buf_inv_def buf_extend_def Let_def START_SIZE_def)

lemma buf_extend_bytes [simp]: "buf_inv b \<Longrightarrow> buf_bytes (buf_extend b n) = buf_bytes b"
  by (auto simp: buf_inv_def buf_bytes_def buf_extend_def Let_def)

lemma buf_extend_len [simp]: "buf_len (buf_extend b n) = buf_len b"
  by (simp add: buf_extend_def Let_def)

lemma buf_append_data_inv [simp]: "buf_inv b \<Longrightarrow> buf_inv (buf_append_data b d)"
  using buf_extend_inv [of b "length d"] buf_extend_room [of b "length d"]
  by (auto simp: buf_inv_def buf_append_data_def Let_def take_store_at [of _ "map Some d", simplified])

lemma buf_append_data_bytes [simp]:
  assumes "buf_inv b"
  shows "buf_bytes (buf_append_data b d) = buf_bytes b @ d"
proof -
  have "map the (take (buf_len b) (buf_ptr (buf_extend b (length d)))) = buf_bytes b"
    using buf_extend_bytes [OF assms, of "length d"] by (simp add: buf_bytes_def)
  moreover have "map (the \<circ> Some) d = d" by (induction d) auto
  ultimately show ?thesis
    using buf_extend_room [OF assms, of "length d"]
    by (simp add: buf_bytes_def buf_append_data_def Let_def take_store_at [of _ "map Some d", simplified])
qed

text \<open>The fixed-width appends are \<open>buf_append_data\<close> of the encoding.\<close>

lemma buf_append_u8_data: "buf_inv b \<Longrightarrow> buf_append_u8 b w = buf_append_data b [w]"
  using buf_extend_room [of b 1]
  by (simp add: buf_append_u8_def buf_append_data_def Let_def)

lemma buf_append_u16_data: "buf_inv b \<Longrightarrow> buf_append_u16 b w = buf_append_data b (put_u16 w)"
  using buf_extend_room [of b 2]
  by (simp add: buf_append_u16_def buf_append_data_def put_u16_def Let_def eval_nat_numeral)

lemma put_u32_of_u64:
  "put_u32 (ucast (w :: u64)) =
     [ucast (drop_bit 24 w AND 0xff), ucast (drop_bit 16 w AND 0xff),
      ucast (drop_bit 8 w AND 0xff), ucast (w AND 0xff)]"
  unfolding put_u32_def ucast_and_ff
  by (auto intro!: bit_word_eqI simp: bit_simps)

lemma buf_append_u32_data:
  "buf_inv b \<Longrightarrow> buf_append_u32 b w = buf_append_data b (put_u32 (ucast w))"
  using buf_extend_room [of b 4]
  by (simp add: buf_append_u32_def buf_append_data_def put_u32_of_u64 Let_def eval_nat_numeral)

lemma buf_append_inv [simp]:
  "buf_inv b \<Longrightarrow> buf_inv (buf_append_u8 b x)"
  "buf_inv b \<Longrightarrow> buf_inv (buf_append_u16 b y)"
  "buf_inv b \<Longrightarrow> buf_inv (buf_append_u32 b z)"
  by (simp_all add: buf_append_u8_data buf_append_u16_data buf_append_u32_data)

lemma buf_append_bytes [simp]:
  "buf_inv b \<Longrightarrow> buf_bytes (buf_append_u8 b x) = buf_bytes b @ [x]"
  "buf_inv b \<Longrightarrow> buf_bytes (buf_append_u16 b y) = buf_bytes b @ put_u16 y"
  "buf_inv b \<Longrightarrow> buf_bytes (buf_append_u32 b z) = buf_bytes b @ put_u32 (ucast z)"
  by (simp_all add: buf_append_u8_data buf_append_u16_data buf_append_u32_data)

text \<open>Up to \<open>2 ^ 30\<close> bytes no counter overflows.\<close>

lemma buf_in_range: "buf_inv b \<Longrightarrow> buf_len b + n \<le> 2 ^ 30 \<Longrightarrow> \<not> buf_overflows b n"
  using grow_lt [of "buf_size b" "buf_len b + n"] by (auto simp: buf_overflows_def buf_inv_def START_SIZE_def)

lemma buf_append_in_range:
  "buf_inv b \<Longrightarrow> buf_len b + length d \<le> 2 ^ 30 \<Longrightarrow> buf_append_checked b d = Inr (buf_append_data b d)"
  by (simp add: buf_append_checked_def buf_in_range)

lemma buf_append_u8_in_range:
  "buf_inv b \<Longrightarrow> buf_len b < 2 ^ 30 \<Longrightarrow> buf_append_u8_checked b x = Inr (buf_append_u8 b x)"
  by (simp add: buf_append_u8_checked_def buf_in_range)

section \<open>The interface the senders and the response callbacks use\<close>

text \<open>
  A sink takes runs of bytes and keeps them in order.  What the channel
  callbacks rely on is only this contract; \<open>buf\<close> provides it below.
\<close>

locale byte_sink =
  fixes empty_sink :: "'s"
    and put :: "'s \<Rightarrow> byte list \<Rightarrow> 's"
    and contents :: "'s \<Rightarrow> byte list"
    and ok :: "'s \<Rightarrow> bool"
  assumes ok_empty: "ok empty_sink"
    and ok_put: "ok s \<Longrightarrow> ok (put s d)"
    and contents_empty: "contents empty_sink = []"
    and contents_put: "ok s \<Longrightarrow> contents (put s d) = contents s @ d"
begin

lemma put_run:
  "ok s \<Longrightarrow> ok (foldl put s ds) \<and> contents (foldl put s ds) = contents s @ concat ds"
  by (induction ds arbitrary: s) (auto simp: ok_put contents_put)

lemma put_chunks_irrelevant:
  assumes "ok s" and "concat ds = concat es"
  shows "contents (foldl put s ds) = contents (foldl put s es)"
  using put_run [OF assms(1), of ds] put_run [OF assms(1), of es] assms(2) by simp

lemma put_from_empty: "contents (foldl put empty_sink ds) = concat ds"
  using put_run [OF ok_empty] by (simp add: contents_empty)

end

interpretation bufs: byte_sink buf_new buf_append_data buf_bytes buf_inv
  by unfold_locales auto

section \<open>Properties\<close>

text \<open>A run of appends, and the bytes each one stands for.\<close>

datatype buf_op = U8 byte | U16 u16 | U32 u64 | Data "byte list"

fun append_op :: "buf \<Rightarrow> buf_op \<Rightarrow> buf" where
  "append_op b (U8 x) = buf_append_u8 b x"
| "append_op b (U16 x) = buf_append_u16 b x"
| "append_op b (U32 x) = buf_append_u32 b x"
| "append_op b (Data d) = buf_append_data b d"

fun op_bytes :: "buf_op \<Rightarrow> byte list" where
  "op_bytes (U8 x) = [x]"
| "op_bytes (U16 x) = put_u16 x"
| "op_bytes (U32 x) = put_u32 (ucast x)"
| "op_bytes (Data d) = d"

lemma append_op_step: "buf_inv b \<Longrightarrow> append_op b x = buf_append_data b (op_bytes x)"
  by (cases x) (simp_all add: buf_append_u8_data buf_append_u16_data buf_append_u32_data)

definition roomy :: "buf \<Rightarrow> bool" where
  "roomy b \<longleftrightarrow> buf_size b = START_SIZE \<or> buf_size b < 2 * buf_len b"

lemma buf_append_data_roomy:
  assumes "buf_inv b" "roomy b"
  shows "roomy (buf_append_data b d)"
  using assms grow_lt [of "buf_size b" "buf_len b + length d"]
  by (auto simp: roomy_def buf_append_data_def buf_extend_def Let_def buf_inv_def START_SIZE_def)

text \<open>
  After any run of appends to a new buffer its contents are the encodings in
  order, every byte below the length has been written, the length fits the
  block, and the block is less than twice as large as needed once it has grown.
\<close>

lemma buf_appends:
  "buf_bytes (foldl append_op buf_new xs) = concat (map op_bytes xs) \<and>
   buf_inv (foldl append_op buf_new xs) \<and>
   buf_len (foldl append_op buf_new xs) = length (concat (map op_bytes xs)) \<and>
   (buf_size (foldl append_op buf_new xs) = START_SIZE \<or>
    buf_size (foldl append_op buf_new xs) < 2 * buf_len (foldl append_op buf_new xs))"
proof -
  have "buf_inv b \<Longrightarrow> roomy b \<Longrightarrow>
      buf_bytes (foldl append_op b xs) = buf_bytes b @ concat (map op_bytes xs) \<and>
      buf_inv (foldl append_op b xs) \<and> roomy (foldl append_op b xs)" for b
  proof (induction xs arbitrary: b)
    case (Cons x xs)
    from Cons.IH [of "buf_append_data b (op_bytes x)"] Cons.prems
    show ?case by (simp add: append_op_step buf_append_data_roomy)
  qed simp
  moreover have "roomy buf_new" by (simp add: roomy_def buf_new_def)
  ultimately have "buf_bytes (foldl append_op buf_new xs) = concat (map op_bytes xs)"
    "buf_inv (foldl append_op buf_new xs)" "roomy (foldl append_op buf_new xs)"
    by simp_all
  then show ?thesis
    using length_buf_bytes [of "foldl append_op buf_new xs"] by (simp add: roomy_def)
qed

end
