(* ===== verification/Util.thy ===== *)
theory Util
  imports Prelude
begin

text \<open>
  \<^verbatim>\<open>src/src/lib/util.c\<close>: hexadecimal ids in both directions, and the loops that
  move a whole block through a socket whatever the sizes in which the kernel
  hands it over.
\<close>

section \<open>Hexadecimal\<close>

definition hex_digits :: string where
  "hex_digits = ''0123456789abcdef''"

definition hex_char :: "nat \<Rightarrow> char" where
  "hex_char d = hex_digits ! d"

definition hex_val :: "char \<Rightarrow> nat option" where
  "hex_val c =
     (let n = of_char c :: nat in
      if 48 \<le> n \<and> n \<le> 57 then Some (n - 48)
      else if 97 \<le> n \<and> n \<le> 102 then Some (n - 87)
      else if 65 \<le> n \<and> n \<le> 70 then Some (n - 55)
      else None)"

text \<open>C's \<open>isspace\<close> in the "C" locale: blank, tab, newline, VT, FF and CR.\<close>

definition isspace :: "char \<Rightarrow> bool" where
  "isspace c \<longleftrightarrow> (let n = of_char c :: nat in n = 32 \<or> 9 \<le> n \<and> n \<le> 13)"

text \<open>
  \<open>sscanf (s, "%02x", &value)\<close>: white space is skipped, then a field of at
  most two characters in the format of \<open>strtoul\<close> base 16 is converted: an
  optional sign, an optional \<open>0x\<close>, hexadecimal digits.  \<open>None\<close> is a return
  value other than 1.  A field that ends in a bare \<open>0x\<close> does not match.
\<close>

definition scan_field :: "string \<Rightarrow> nat option" where
  "scan_field f =
     (case f of
        [] \<Rightarrow> None
      | [c] \<Rightarrow> hex_val c
      | c # d # _ \<Rightarrow>
          if c = CHR ''+'' then hex_val d
          else if c = CHR ''-'' then map_option (\<lambda>v. (2 ^ 32 - v) mod 2 ^ 32) (hex_val d)
          else (case hex_val c of
                  None \<Rightarrow> None
                | Some h \<Rightarrow>
                    (case hex_val d of
                       Some l \<Rightarrow> Some (16 * h + l)
                     | None \<Rightarrow> if c = CHR ''0'' \<and> d \<in> {CHR ''x'', CHR ''X''} then None else Some h)))"

definition sscanf_02x :: "string \<Rightarrow> nat option" where
  "sscanf_02x s = scan_field (take 2 (dropWhile isspace s))"

text \<open>
  \<open>hex_ascii_to_bytes (ascii, bytes, len)\<close>.  The result is the bytes stored so
  far and whether the function got to its end (otherwise it returned \<open>NULL\<close>).
  A start of \<open>ascii + 2 * i\<close> behind the terminating NUL is out of bounds.
\<close>

fun hex_ascii_to_bytes_loop :: "string \<Rightarrow> nat \<Rightarrow> nat \<Rightarrow> byte list \<Rightarrow> (byte list \<times> bool) result" where
  "hex_ascii_to_bytes_loop ascii i 0 bytes = Inr (bytes, True)"
| "hex_ascii_to_bytes_loop ascii i (Suc n) bytes =
     (if length ascii < 2 * i then Inl Out_Of_Bounds
      else case sscanf_02x (drop (2 * i) ascii) of
        None \<Rightarrow> Inr (bytes, False)
      | Some v \<Rightarrow> hex_ascii_to_bytes_loop ascii (i + 1) n (bytes @ [word_of_nat v AND 0xff]))"

definition hex_ascii_to_bytes :: "string \<Rightarrow> nat \<Rightarrow> (byte list \<times> bool) result" where
  "hex_ascii_to_bytes ascii len = hex_ascii_to_bytes_loop ascii 0 len []"

text \<open>
  No caller looks at the returned pointer: each goes on with the array.  When
  the conversion stopped early the rest of the array was never written, and
  reading it is \<open>Uninit\<close>.
\<close>

definition hex_id :: "string \<Rightarrow> nat \<Rightarrow> byte list result" where
  "hex_id ascii len =
     rbind (hex_ascii_to_bytes ascii len) (\<lambda>(bytes, done). if done then Inr bytes else Inl Uninit)"

text \<open>\<open>sprintf (ascii + 2 * i, "%02x", bytes[i])\<close> for each byte.\<close>

definition hex_of_byte :: "byte \<Rightarrow> string" where
  "hex_of_byte b = [hex_char (unat b div 16), hex_char (unat b mod 16)]"

definition hex_bytes_to_ascii :: "byte list \<Rightarrow> nat \<Rightarrow> string" where
  "hex_bytes_to_ascii bytes len = concat (map hex_of_byte (take len bytes))"

lemma hex_val_char: "d < 16 \<Longrightarrow> hex_val (hex_char d) = Some d"
proof -
  have "\<forall>d \<in> {0..<16}. hex_val (hex_char d) = Some d"
    by (simp add: hex_val_def hex_char_def hex_digits_def atLeastLessThan_nat_numeral Let_def)
  then show "d < 16 \<Longrightarrow> hex_val (hex_char d) = Some d" by simp
qed

lemma hex_char_plain:
  assumes "d < 16"
  shows "\<not> isspace (hex_char d)" "hex_char d \<noteq> CHR ''+''" "hex_char d \<noteq> CHR ''-''"
proof -
  have "\<forall>d \<in> {0..<16}. \<not> isspace (hex_char d) \<and> hex_char d \<noteq> CHR ''+'' \<and> hex_char d \<noteq> CHR ''-''"
    by (simp add: isspace_def hex_char_def hex_digits_def atLeastLessThan_nat_numeral Let_def)
  with assms show "\<not> isspace (hex_char d)" "hex_char d \<noteq> CHR ''+''" "hex_char d \<noteq> CHR ''-''"
    by simp_all
qed

lemma length_hex_bytes_to_ascii [simp]:
  "n \<le> length bs \<Longrightarrow> length (hex_bytes_to_ascii bs n) = 2 * n"
proof -
  have "length (concat (map hex_of_byte xs)) = 2 * length xs" for xs
    by (induction xs) (auto simp: hex_of_byte_def)
  then show "n \<le> length bs \<Longrightarrow> length (hex_bytes_to_ascii bs n) = 2 * n"
    by (simp add: hex_bytes_to_ascii_def)
qed

lemma sscanf_hex_of_byte: "sscanf_02x (hex_of_byte b @ s) = Some (unat b)"
proof -
  have b: "unat b < 256" using unsigned_less [of b] by simp
  then have h: "unat b div 16 < 16" by (simp add: less_mult_imp_div_less)
  have l: "unat b mod 16 < 16" by simp
  show ?thesis
    using hex_char_plain [OF h] hex_val_char [OF h] hex_val_char [OF l]
    by (simp add: sscanf_02x_def scan_field_def hex_of_byte_def)
qed

lemma hex_loop_roundtrip:
  "length pre = 2 * i \<Longrightarrow>
   hex_ascii_to_bytes_loop (pre @ concat (map hex_of_byte bs) @ post) i (length bs) acc =
     Inr (acc @ bs, True)"
proof (induction bs arbitrary: pre i acc)
  case (Cons b bs)
  let ?s = "concat (map hex_of_byte bs) @ post"
  have s: "drop (2 * i) (pre @ concat (map hex_of_byte (b # bs)) @ post) = hex_of_byte b @ ?s"
    using Cons.prems by simp
  have "length (pre @ hex_of_byte b) = 2 * (i + 1)"
    using Cons.prems by (simp add: hex_of_byte_def)
  from Cons.IH [OF this, of "acc @ [b]"]
  have "hex_ascii_to_bytes_loop (pre @ hex_of_byte b @ ?s) (i + 1) (length bs) (acc @ [b]) =
        Inr (acc @ b # bs, True)"
    by simp
  moreover have "(word_of_nat (unat b) AND 0xff :: byte) = b"
    unfolding and_ff by (simp add: take_bit_word_eq_self)
  ultimately show ?case
    using Cons.prems s by (simp add: sscanf_hex_of_byte)
qed simp

lemma hex_roundtrip:
  "length bs = n \<Longrightarrow> hex_ascii_to_bytes (hex_bytes_to_ascii bs n) n = Inr (bs, True)"
  using hex_loop_roundtrip [of "[]" 0 bs "[]" "[]"]
  by (simp add: hex_ascii_to_bytes_def hex_bytes_to_ascii_def)

section \<open>Sockets\<close>

text \<open>
  What successive calls of \<open>recv\<close> meet: a run of bytes that has arrived (one
  call may take a part of it), the orderly end of the connection, an error, or
  \<open>Eintr\<close>, a call that returns nothing while \<open>errno\<close> is \<open>EINTR\<close>: one that a signal
  interrupts, and, as nobody resets \<open>errno\<close>, also the end of the connection when the
  failure before it was an interrupted call.  At \<open>Eof\<close> and \<open>Net_Error\<close> \<open>errno\<close> is something
  else.  When the script is used up, \<open>recv\<close> blocks for ever.
\<close>

datatype net_event = Chunk "byte list" | Eof | Net_Error | Eintr

type_synonym rx = "net_event list"

text \<open>
  \<open>block_read (fd, buf, nbyte)\<close>: the return value (the count, or the 0 or -1 of
  the failed call), the bytes stored in \<open>buf\<close>, and what is left to receive.
  \<open>None\<close> is a call that never returns.
\<close>

fun block_read_loop :: "rx \<Rightarrow> nat \<Rightarrow> byte list \<Rightarrow> (int \<times> byte list \<times> rx) option" where
  "block_read_loop es nbyte acc =
     (if length acc < nbyte then
        (case es of
           [] \<Rightarrow> None
         | Eof # es' \<Rightarrow> Some (0, acc, es)
         | Net_Error # es' \<Rightarrow> Some (-1, acc, es')
         | Eintr # es' \<Rightarrow> block_read_loop es' nbyte acc
         | Chunk d # es' \<Rightarrow>
             if length d \<le> nbyte - length acc then
               block_read_loop es' nbyte (acc @ d)
             else Some (int nbyte, acc @ take (nbyte - length acc) d,
                        Chunk (drop (nbyte - length acc) d) # es'))
      else Some (int (length acc), acc, es))"

declare block_read_loop.simps [simp del]

definition block_read :: "rx \<Rightarrow> nat \<Rightarrow> (int \<times> byte list \<times> rx) result" where
  "block_read es nbyte =
     (case block_read_loop es nbyte [] of None \<Rightarrow> Inl Blocked | Some r \<Rightarrow> Inr r)"

text \<open>
  The bytes an undisturbed script delivers; signals do not matter, a failure
  ends the run.
\<close>

fun pending :: "rx \<Rightarrow> byte list" where
  "pending [] = []"
| "pending (Chunk d # es) = d @ pending es"
| "pending (Eintr # es) = pending es"
| "pending (Eof # es) = []"
| "pending (Net_Error # es) = []"

lemma block_read_loop_enough:
  "\<lbrakk>nbyte \<le> length acc + length (pending es); length acc \<le> nbyte\<rbrakk> \<Longrightarrow>
   \<exists>es'. block_read_loop es nbyte acc =
           Some (int nbyte, acc @ take (nbyte - length acc) (pending es), es') \<and>
         pending es' = drop (nbyte - length acc) (pending es)"
proof (induction es nbyte acc rule: block_read_loop.induct)
  case (1 es nbyte acc)
  show ?case
  proof (cases "length acc < nbyte")
    case False
    with "1.prems" show ?thesis by (subst block_read_loop.simps) auto
  next
    case more: True
    show ?thesis
    proof (cases es)
      case Nil
      with more "1.prems" show ?thesis by simp
    next
      case (Cons e es')
      show ?thesis
      proof (cases e)
        case (Chunk d)
        show ?thesis
        proof (cases "length d \<le> nbyte - length acc")
          case True
          with Cons Chunk more "1.prems" "1.IH"(1) show ?thesis
            by (subst block_read_loop.simps) auto
        next
          case False
          with Cons Chunk more show ?thesis
            by (subst block_read_loop.simps) auto
        qed
      next
        case Eintr
        with Cons more "1.prems" "1.IH"(2) show ?thesis
          by (subst block_read_loop.simps) auto
      qed (use Cons more "1.prems" in auto)
    qed
  qed
qed

lemma block_read_enough:
  assumes "n \<le> length (pending es)"
  shows "\<exists>es'. block_read es n = Inr (int n, take n (pending es), es') \<and>
               pending es' = drop n (pending es)"
  using block_read_loop_enough [of n "[]" es] assms by (auto simp: block_read_def)

text \<open>
  \<open>send\<close> in the same style: a call takes some of the bytes offered to it, fails,
  or fails with \<open>errno\<close> at \<open>EINTR\<close>.
\<close>

datatype send_event = Taken nat | Send_Error | Send_Eintr

type_synonym tx = "send_event list"

fun block_write_loop :: "tx \<Rightarrow> byte list \<Rightarrow> byte list \<Rightarrow> (int \<times> byte list \<times> tx) option" where
  "block_write_loop es buf sent =
     (if buf = [] then Some (int (length sent), sent, es)
      else case es of
        [] \<Rightarrow> None
      | Send_Error # es' \<Rightarrow> Some (-1, sent, es')
      | Send_Eintr # es' \<Rightarrow> block_write_loop es' buf sent
      | Taken n # es' \<Rightarrow>
          if n = 0 then Some (0, sent, es')
          else block_write_loop es' (drop n buf) (sent @ take n buf))"

declare block_write_loop.simps [simp del]

definition block_write :: "tx \<Rightarrow> byte list \<Rightarrow> (int \<times> byte list \<times> tx) result" where
  "block_write es buf =
     (case block_write_loop es buf [] of None \<Rightarrow> Inl Blocked | Some r \<Rightarrow> Inr r)"

lemma block_write_loop_result:
  "block_write_loop es buf sent = Some (r, out, es') \<Longrightarrow>
   (\<exists>k. out = sent @ take k buf) \<and> (0 < r \<or> buf = [] \<longrightarrow> out = sent @ buf \<and> r = int (length out))"
proof (induction es buf sent rule: block_write_loop.induct)
  case (1 es buf sent)
  show ?case
  proof (cases "buf = []")
    case True
    with "1.prems" show ?thesis by (subst (asm) block_write_loop.simps) auto
  next
    case ne: False
    show ?thesis
    proof (cases es)
      case Nil
      with ne "1.prems" show ?thesis by (subst (asm) block_write_loop.simps) auto
    next
      case (Cons e es'')
      show ?thesis
      proof (cases e)
        case (Taken n)
        show ?thesis
        proof (cases "n = 0")
          case True
          with ne Cons Taken "1.prems" show ?thesis
            by (subst (asm) block_write_loop.simps) (auto intro: exI [of _ 0])
        next
          case False
          with ne Cons Taken "1.prems"
          have step: "block_write_loop es'' (drop n buf) (sent @ take n buf) = Some (r, out, es')"
            by (subst (asm) block_write_loop.simps) auto
          have ih: "(\<exists>k. out = (sent @ take n buf) @ take k (drop n buf)) \<and>
              (0 < r \<or> drop n buf = [] \<longrightarrow>
                 out = (sent @ take n buf) @ drop n buf \<and> r = int (length out))"
            by (rule "1.IH"(1) [OF ne Cons Taken False step])
          then obtain k where "out = (sent @ take n buf) @ take k (drop n buf)" by blast
          then have "out = sent @ take (n + k) buf" by (simp add: take_add)
          moreover from ih have "0 < r \<longrightarrow> out = sent @ buf \<and> r = int (length out)" by auto
          ultimately show ?thesis using ne by blast
        qed
      next
        case Send_Error
        with ne Cons "1.prems" show ?thesis
          by (subst (asm) block_write_loop.simps) (auto intro: exI [of _ 0])
      next
        case Send_Eintr
        with ne Cons "1.prems" "1.IH"(2) show ?thesis
          by (subst (asm) block_write_loop.simps) auto
      qed
    qed
  qed
qed

text \<open>
  A positive result means the whole block went out, and whatever the result
  the bytes on the wire are a prefix of it.
\<close>

lemma block_write_result:
  assumes "block_write es buf = Inr (r, out, es')"
  shows "0 < r \<longrightarrow> out = buf \<and> r = int (length buf)" and "\<exists>k. out = take k buf"
  using block_write_loop_result [of es buf "[]" r out es'] assms
  by (auto simp: block_write_def split: option.splits)

text \<open>A single \<open>send\<close>, as the login uses it: what it returns and what went out.\<close>

fun sock_send :: "tx \<Rightarrow> byte list \<Rightarrow> (int \<times> byte list \<times> tx) result" where
  "sock_send [] buf = Inl Blocked"
| "sock_send (Taken n # es) buf = Inr (int (length (take n buf)), take n buf, es)"
| "sock_send (Send_Error # es) buf = Inr (-1, [], es)"
| "sock_send (Send_Eintr # es) buf = Inr (-1, [], es)"

lemma sock_send_result:
  assumes "sock_send es buf = Inr (r, out, es')"
  shows "\<exists>k. out = take k buf" and "0 < r \<and> r = int (length buf) \<longrightarrow> out = buf"
  using assms by (cases es; auto split: send_event.splits elim!: sock_send.elims)+

section \<open>Properties\<close>

text \<open>
  Printing an id in hexadecimal and reading it back gives the id, for any number of bytes.
\<close>

lemma hex_id_roundtrip:
  "hex_id (hex_bytes_to_ascii bs (length bs)) (length bs) = Inr bs"
  by (simp add: hex_id_def hex_roundtrip)

text \<open>
  However the kernel cuts up the stream and whatever signals interrupt it, a
  read of \<open>n\<close> bytes that are going to arrive returns \<open>n\<close> with exactly those
  bytes, and the next read continues behind them.
\<close>

lemma block_read_complete:
  assumes "n \<le> length (pending es)"
  shows "\<exists>es'. block_read es n = Inr (int n, take n (pending es), es') \<and>
    pending es' = drop n (pending es)"
  by (rule block_read_enough [OF assms])

lemma block_read_complete_witness:
  "\<exists>es'. block_read [Chunk [1], Eintr, Chunk [], Chunk [2, 3, 4]] 3 = Inr (3, [1, 2, 3], es') \<and> pending es' = [4]"
  using block_read_complete [of 3 "[Chunk [1], Eintr, Chunk [], Chunk [2, 3, 4]]"] by simp

text \<open>
  A write that returns a positive count has sent the whole block; in every
  other case what went out is a prefix of it.
\<close>

lemma block_write_all_or_prefix:
  assumes "block_write es buf = Inr (r, out, es')"
  shows "(0 < r \<longrightarrow> out = buf \<and> r = int (length buf)) \<and> (\<exists>k. out = take k buf)"
  using block_write_result [OF assms] by blast

lemma block_write_all_or_prefix_witness:
  "\<exists>out es'. block_write [Taken 2, Send_Eintr, Send_Error] [1, 2, 3] = Inr (-1, out, es') \<and> (\<exists>k. out = take k [1, 2, 3])"
proof -
  have w: "block_write [Taken 2, Send_Eintr, Send_Error] [1, 2, 3] = Inr (-1, [1, 2], [])"
    by (simp add: block_write_def block_write_loop.simps)
  from block_write_all_or_prefix [OF w] w show ?thesis by blast
qed

end
