(* ===== verification/Shannon.thy ===== *)
theory Shannon
  imports Prelude
begin

text \<open>
  \<^verbatim>\<open>src/src/lib/shn.c\<close>, \<^verbatim>\<open>src/src/lib/shn.h\<close>: the Shannon stream cipher and MAC
  that protects every packet after the key exchange.  The register file is a
  list of \<open>N\<close> words.  \<open>nbuf\<close>, the number of key stream bits still unused in the
  current word, is one of 0, 8, 16 and 24 between calls (\<open>shn_ok\<close>).

  The point of the theory is that the cipher does not see how a message is cut
  into calls: the word-at-a-time code with its two partial-word loops is the
  byte-at-a-time automaton \<open>enc_byte\<close>, up to the value of a MAC buffer that is
  overwritten before it is read again.
\<close>

section \<open>The cipher\<close>

definition N :: nat where "N = 16"

definition FOLD :: nat where "FOLD = N"

definition INITKONST :: u32 where "INITKONST = 0x6996c53a"

definition KEYP :: nat where "KEYP = 13"

record shn_ctx =
  R :: "u32 list"
  CRC :: "u32 list"
  initR :: "u32 list"
  konst :: u32
  sbuf :: u32
  mbuf :: u32
  nbuf :: nat

definition ROTL :: "u32 \<Rightarrow> nat \<Rightarrow> u32" where
  "ROTL w x = push_bit x w OR drop_bit (32 - x) w"

definition Byte :: "u32 \<Rightarrow> nat \<Rightarrow> byte" where
  "Byte x i = ucast (drop_bit (8 * i) x AND 0xff)"

definition BYTE2WORD :: "byte \<Rightarrow> byte \<Rightarrow> byte \<Rightarrow> byte \<Rightarrow> u32" where
  "BYTE2WORD b0 b1 b2 b3 =
     push_bit 24 (ucast b3 AND 0xff) OR push_bit 16 (ucast b2 AND 0xff) OR
     push_bit 8 (ucast b1 AND 0xff) OR (ucast b0 AND 0xff)"

definition WORD2BYTE :: "u32 \<Rightarrow> byte list" where
  "WORD2BYTE w = [Byte w 0, Byte w 1, Byte w 2, Byte w 3]"

definition sbox1 :: "u32 \<Rightarrow> u32" where
  "sbox1 w =
     (let w = w XOR (ROTL w 5 OR ROTL w 7);
          w = w XOR (ROTL w 19 OR ROTL w 22)
      in w)"

definition sbox2 :: "u32 \<Rightarrow> u32" where
  "sbox2 w =
     (let w = w XOR (ROTL w 7 OR ROTL w 22);
          w = w XOR (ROTL w 5 OR ROTL w 19)
      in w)"

text \<open>The shift loop drops cell 0 and leaves the new word in cell \<open>N - 1\<close>.\<close>

definition shift_in :: "u32 list \<Rightarrow> u32 \<Rightarrow> u32 list" where
  "shift_in r t = map (\<lambda>i. r ! i) [1..<N] @ [t]"

definition cycle :: "shn_ctx \<Rightarrow> shn_ctx" where
  "cycle c =
     (let t = R c ! 12 XOR R c ! 13 XOR konst c;
          t = sbox1 t XOR ROTL (R c ! 0) 1;
          r = shift_in (R c) t;
          t = sbox2 (r ! 2 XOR r ! 15);
          r = r[0 := r ! 0 XOR t]
      in c\<lparr>R := r, sbuf := t XOR r ! 8 XOR r ! 12\<rparr>)"

definition crcfunc :: "shn_ctx \<Rightarrow> u32 \<Rightarrow> shn_ctx" where
  "crcfunc c i =
     (let t = CRC c ! 0 XOR CRC c ! 2 XOR CRC c ! 15 XOR i
      in c\<lparr>CRC := shift_in (CRC c) t\<rparr>)"

text \<open>\<open>ADDKEY (k)\<close>, also the last line of \<open>macfunc\<close>.\<close>

definition ADDKEY :: "shn_ctx \<Rightarrow> u32 \<Rightarrow> shn_ctx" where
  "ADDKEY c k = c\<lparr>R := (R c)[KEYP := R c ! KEYP XOR k]\<rparr>"

definition macfunc :: "shn_ctx \<Rightarrow> u32 \<Rightarrow> shn_ctx" where
  "macfunc c i = ADDKEY (crcfunc c i) i"

section \<open>Keying\<close>

fun fibonacci :: "nat \<Rightarrow> u32 list \<Rightarrow> u32 list" where
  "fibonacci 0 r = r"
| "fibonacci (Suc n) r = fibonacci n (r @ [r ! (length r - 1) + r ! (length r - 2)])"

definition shn_initstate :: "shn_ctx \<Rightarrow> shn_ctx" where
  "shn_initstate c = c\<lparr>R := fibonacci (N - 2) [1, 1], konst := INITKONST\<rparr>"

definition shn_savestate :: "shn_ctx \<Rightarrow> shn_ctx" where
  "shn_savestate c = c\<lparr>initR := R c\<rparr>"

definition shn_reloadstate :: "shn_ctx \<Rightarrow> shn_ctx" where
  "shn_reloadstate c = c\<lparr>R := initR c\<rparr>"

definition shn_genkonst :: "shn_ctx \<Rightarrow> shn_ctx" where
  "shn_genkonst c = c\<lparr>konst := R c ! 0\<rparr>"

definition shn_diffuse :: "shn_ctx \<Rightarrow> shn_ctx" where
  "shn_diffuse c = (cycle ^^ FOLD) c"

text \<open>The key bytes, a word at a time; a rest of one to three is zero padded.\<close>

fun load_words :: "shn_ctx \<Rightarrow> byte list \<Rightarrow> shn_ctx" where
  "load_words c (b0 # b1 # b2 # b3 # key) =
     load_words (cycle (ADDKEY c (BYTE2WORD b0 b1 b2 b3))) key"
| "load_words c [b0, b1, b2] = cycle (ADDKEY c (BYTE2WORD b0 b1 b2 0))"
| "load_words c [b0, b1] = cycle (ADDKEY c (BYTE2WORD b0 b1 0 0))"
| "load_words c [b0] = cycle (ADDKEY c (BYTE2WORD b0 0 0 0))"
| "load_words c [] = c"

definition xor_lists :: "u32 list \<Rightarrow> u32 list \<Rightarrow> u32 list" where
  "xor_lists xs ys = map2 (XOR) xs ys"

definition shn_loadkey :: "shn_ctx \<Rightarrow> byte list \<Rightarrow> shn_ctx" where
  "shn_loadkey c key =
     (let c = load_words c key;
          c = cycle (ADDKEY c (word_of_nat (length key)));
          c = c\<lparr>CRC := R c\<rparr>;
          c = shn_diffuse c
      in c\<lparr>R := xor_lists (R c) (CRC c)\<rparr>)"

definition shn_key :: "shn_ctx \<Rightarrow> byte list \<Rightarrow> shn_ctx" where
  "shn_key c key =
     (shn_savestate (shn_genkonst (shn_loadkey (shn_initstate c) key)))\<lparr>nbuf := 0\<rparr>"

definition shn_nonce :: "shn_ctx \<Rightarrow> byte list \<Rightarrow> shn_ctx" where
  "shn_nonce c nonce =
     (shn_genkonst (shn_loadkey ((shn_reloadstate c)\<lparr>konst := INITKONST\<rparr>) nonce))\<lparr>nbuf := 0\<rparr>"

section \<open>Stream, encryption, decryption, MAC\<close>

definition keystream_byte :: "shn_ctx \<Rightarrow> byte" where
  "keystream_byte c = ucast (drop_bit (32 - nbuf c) (sbuf c) AND 0xff)"

definition mac_byte :: "shn_ctx \<Rightarrow> byte \<Rightarrow> shn_ctx" where
  "mac_byte c b = c\<lparr>mbuf := mbuf c XOR push_bit (32 - nbuf c) (ucast b), nbuf := nbuf c - 8\<rparr>"

text \<open>\<open>shn_stream\<close>: here the unused key stream is shifted down in \<open>sbuf\<close> itself.\<close>

fun stream_bytes :: "shn_ctx \<Rightarrow> byte list \<Rightarrow> shn_ctx \<times> byte list \<times> byte list" where
  "stream_bytes c [] = (c, [], [])"
| "stream_bytes c (b # buf) =
     (if nbuf c \<noteq> 0 then
        let d = b XOR ucast (sbuf c AND 0xff);
            (c', out, rest) = stream_bytes (c\<lparr>sbuf := drop_bit 8 (sbuf c), nbuf := nbuf c - 8\<rparr>) buf
        in (c', d # out, rest)
      else (c, [], b # buf))"

fun stream_words :: "shn_ctx \<Rightarrow> byte list \<Rightarrow> shn_ctx \<times> byte list \<times> byte list" where
  "stream_words c (b0 # b1 # b2 # b3 # buf) =
     (let c = cycle c;
          (c', out, rest) = stream_words c buf
      in (c', [b0 XOR Byte (sbuf c) 0, b1 XOR Byte (sbuf c) 1,
               b2 XOR Byte (sbuf c) 2, b3 XOR Byte (sbuf c) 3] @ out, rest))"
| "stream_words c buf = (c, [], buf)"

definition shn_stream :: "shn_ctx \<Rightarrow> byte list \<Rightarrow> shn_ctx \<times> byte list" where
  "shn_stream c buf =
     (let (c1, out1, buf1) = stream_bytes c buf;
          (c2, out2, buf2) = stream_words c1 buf1
      in if buf2 \<noteq> [] then
           let (c3, out3, buf3) = stream_bytes ((cycle c2)\<lparr>nbuf := 32\<rparr>) buf2
           in (c3, out1 @ out2 @ out3)
         else (c2, out1 @ out2))"

text \<open>
  The partial-word loops of \<open>shn_encrypt\<close>, \<open>shn_decrypt\<close> and \<open>shn_maconly\<close>:
  new context, bytes produced, bytes left.
\<close>

fun enc_bytes :: "shn_ctx \<Rightarrow> byte list \<Rightarrow> shn_ctx \<times> byte list \<times> byte list" where
  "enc_bytes c [] = (c, [], [])"
| "enc_bytes c (b # buf) =
     (if nbuf c \<noteq> 0 then
        let (c', out, rest) = enc_bytes (mac_byte c b) buf
        in (c', (b XOR keystream_byte c) # out, rest)
      else (c, [], b # buf))"

fun enc_words :: "shn_ctx \<Rightarrow> byte list \<Rightarrow> shn_ctx \<times> byte list \<times> byte list" where
  "enc_words c (b0 # b1 # b2 # b3 # buf) =
     (let c = cycle c;
          t = BYTE2WORD b0 b1 b2 b3;
          (c', out, rest) = enc_words (macfunc c t) buf
      in (c', WORD2BYTE (t XOR sbuf c) @ out, rest))"
| "enc_words c buf = (c, [], buf)"

definition shn_encrypt :: "shn_ctx \<Rightarrow> byte list \<Rightarrow> shn_ctx \<times> byte list" where
  "shn_encrypt c buf =
     (let (c1, out1, buf1) = enc_bytes c buf in
      if nbuf c \<noteq> 0 \<and> nbuf c1 \<noteq> 0 then (c1, out1)
      else
        let c1 = (if nbuf c \<noteq> 0 then macfunc c1 (mbuf c1) else c1);
            (c2, out2, buf2) = enc_words c1 buf1
        in if buf2 \<noteq> [] then
             let (c3, out3, buf3) = enc_bytes ((cycle c2)\<lparr>mbuf := 0, nbuf := 32\<rparr>) buf2
             in (c3, out1 @ out2 @ out3)
           else (c2, out1 @ out2))"

fun dec_bytes :: "shn_ctx \<Rightarrow> byte list \<Rightarrow> shn_ctx \<times> byte list \<times> byte list" where
  "dec_bytes c [] = (c, [], [])"
| "dec_bytes c (b # buf) =
     (if nbuf c \<noteq> 0 then
        let p = b XOR keystream_byte c;
            (c', out, rest) = dec_bytes (mac_byte c p) buf
        in (c', p # out, rest)
      else (c, [], b # buf))"

fun dec_words :: "shn_ctx \<Rightarrow> byte list \<Rightarrow> shn_ctx \<times> byte list \<times> byte list" where
  "dec_words c (b0 # b1 # b2 # b3 # buf) =
     (let c = cycle c;
          t = BYTE2WORD b0 b1 b2 b3 XOR sbuf c;
          (c', out, rest) = dec_words (macfunc c t) buf
      in (c', WORD2BYTE t @ out, rest))"
| "dec_words c buf = (c, [], buf)"

definition shn_decrypt :: "shn_ctx \<Rightarrow> byte list \<Rightarrow> shn_ctx \<times> byte list" where
  "shn_decrypt c buf =
     (let (c1, out1, buf1) = dec_bytes c buf in
      if nbuf c \<noteq> 0 \<and> nbuf c1 \<noteq> 0 then (c1, out1)
      else
        let c1 = (if nbuf c \<noteq> 0 then macfunc c1 (mbuf c1) else c1);
            (c2, out2, buf2) = dec_words c1 buf1
        in if buf2 \<noteq> [] then
             let (c3, out3, buf3) = dec_bytes ((cycle c2)\<lparr>mbuf := 0, nbuf := 32\<rparr>) buf2
             in (c3, out1 @ out2 @ out3)
           else (c2, out1 @ out2))"

fun mac_bytes :: "shn_ctx \<Rightarrow> byte list \<Rightarrow> shn_ctx \<times> byte list" where
  "mac_bytes c [] = (c, [])"
| "mac_bytes c (b # buf) = (if nbuf c \<noteq> 0 then mac_bytes (mac_byte c b) buf else (c, b # buf))"

fun mac_words :: "shn_ctx \<Rightarrow> byte list \<Rightarrow> shn_ctx \<times> byte list" where
  "mac_words c (b0 # b1 # b2 # b3 # buf) = mac_words (macfunc (cycle c) (BYTE2WORD b0 b1 b2 b3)) buf"
| "mac_words c buf = (c, buf)"

definition shn_maconly :: "shn_ctx \<Rightarrow> byte list \<Rightarrow> shn_ctx" where
  "shn_maconly c buf =
     (let (c1, buf1) = mac_bytes c buf in
      if nbuf c \<noteq> 0 \<and> nbuf c1 \<noteq> 0 then c1
      else
        let c1 = (if nbuf c \<noteq> 0 then macfunc c1 (mbuf c1) else c1);
            (c2, buf2) = mac_words c1 buf1
        in if buf2 \<noteq> [] then fst (mac_bytes ((cycle c2)\<lparr>mbuf := 0, nbuf := 32\<rparr>) buf2)
           else c2)"

text \<open>The output loop of \<open>shn_finish\<close>.\<close>

function finish_out :: "shn_ctx \<Rightarrow> nat \<Rightarrow> shn_ctx \<times> byte list" where
  "finish_out c nbytes =
     (if nbytes = 0 then (c, [])
      else let c = cycle c in
        if 4 \<le> nbytes then
          let (c', out) = finish_out c (nbytes - 4) in (c', WORD2BYTE (sbuf c) @ out)
        else (c, map (Byte (sbuf c)) [0..<nbytes]))"
  by pat_completeness auto
termination
  by (relation "measure snd") auto

declare finish_out.simps [simp del]

definition shn_finish :: "shn_ctx \<Rightarrow> nat \<Rightarrow> shn_ctx \<times> byte list" where
  "shn_finish c nbytes =
     (let c = (if nbuf c \<noteq> 0 then macfunc c (mbuf c) else c);
          c = cycle c;
          c = ADDKEY c (INITKONST XOR push_bit 3 (word_of_nat (nbuf c)));
          c = c\<lparr>nbuf := 0\<rparr>;
          c = c\<lparr>R := xor_lists (R c) (CRC c)\<rparr>;
          c = shn_diffuse c
      in finish_out c nbytes)"

section \<open>Decryption undoes encryption\<close>

lemma length_4_cases:
  obtains (word) b0 b1 b2 b3 rest where "xs = b0 # b1 # b2 # b3 # rest"
    | (short) "length xs < 4"
  by (metis (no_types, opaque_lifting) Suc_less_eq length_Cons list.exhaust list.size(3)
      numeral_eq_Suc pred_numeral_simps(2) pred_numeral_simps(3) semiring_norm(26)
      semiring_norm(27) zero_less_Suc)

lemma words_short:
  "length buf < 4 \<Longrightarrow> enc_words c buf = (c, [], buf)"
  "length buf < 4 \<Longrightarrow> dec_words c buf = (c, [], buf)"
proof -
  have c: "buf = [] \<or> (\<exists>x. buf = [x]) \<or> (\<exists>x y. buf = [x, y]) \<or> (\<exists>x y z. buf = [x, y, z])"
    if "length buf < 4"
    using that by (auto simp: numeral_eq_Suc less_Suc_eq length_Suc_conv)
  show "length buf < 4 \<Longrightarrow> enc_words c buf = (c, [], buf)"
    using c by auto
  show "length buf < 4 \<Longrightarrow> dec_words c buf = (c, [], buf)"
    using c by auto
qed

lemma ucast_word_byte: "(ucast (ucast b AND 0xff :: u32) :: byte) = b"
  by (simp add: ucast_and_ff unsigned_ucast_eq take_bit_word_eq_self)

lemma BYTE2WORD_Byte: "BYTE2WORD (Byte w 0) (Byte w 1) (Byte w 2) (Byte w 3) = w"
proof (rule bit_word_eqI)
  fix n assume n: "n < LENGTH(32)"
  consider "n < 8" | "8 \<le> n" "n < 16" | "16 \<le> n" "n < 24" | "24 \<le> n" by linarith
  then show "bit (BYTE2WORD (Byte w 0) (Byte w 1) (Byte w 2) (Byte w 3)) n = bit w n"
    unfolding BYTE2WORD_def Byte_def ucast_and_ff and_ff
    by cases (use n in \<open>auto simp: bit_simps\<close>)
qed

lemma Byte_BYTE2WORD:
  "Byte (BYTE2WORD b0 b1 b2 b3) 0 = b0" "Byte (BYTE2WORD b0 b1 b2 b3) 1 = b1"
  "Byte (BYTE2WORD b0 b1 b2 b3) 2 = b2" "Byte (BYTE2WORD b0 b1 b2 b3) 3 = b3"
  unfolding BYTE2WORD_def Byte_def ucast_and_ff and_ff
  by (auto intro!: bit_word_eqI simp: bit_simps dest: bit_imp_le_length)

lemmas word_bytes = BYTE2WORD_Byte [simplified] Byte_BYTE2WORD [simplified]

lemma keystream_cancel: "(b XOR k) XOR k = (b :: 'a::len word)"
  by (simp add: xor.assoc)

text \<open>
  What one pass of the partial-word loop guarantees: it consumes a prefix,
  stops early only at a word boundary, and the other direction consumes the
  produced bytes in exactly the same way.
\<close>

lemma enc_bytes_split:
  "enc_bytes c buf = (c', out, rest) \<Longrightarrow>
   \<exists>taken. buf = taken @ rest \<and> length out = length taken \<and> (rest = [] \<or> nbuf c' = 0) \<and>
     (\<forall>r. r = [] \<or> nbuf c' = 0 \<longrightarrow> dec_bytes c (out @ r) = (c', taken, r))"
proof (induction c buf arbitrary: c' out rest rule: enc_bytes.induct)
  case (1 c)
  have "dec_bytes c r = (c, [], r)" if "r = [] \<or> nbuf c = 0" for r
    using that by (cases r) auto
  with 1 show ?case by auto
next
  case (2 c b buf)
  show ?case
  proof (cases "nbuf c = 0")
    case True
    have "dec_bytes c r = (c, [], r)" for r
      using True by (cases r) auto
    with 2(2) True show ?thesis by auto
  next
    case False
    let ?p = "b XOR keystream_byte c" and ?m = "mac_byte c b"
    obtain out' where out: "out = ?p # out'"
      and rec: "enc_bytes ?m buf = (c', out', rest)"
      using False 2(2) by (auto simp: Let_def split: prod.splits)
    obtain taken where t: "buf = taken @ rest" "length out' = length taken"
      "rest = [] \<or> nbuf c' = 0"
      "\<forall>r. r = [] \<or> nbuf c' = 0 \<longrightarrow> dec_bytes ?m (out' @ r) = (c', taken, r)"
      using 2(1) [OF False rec] by blast
    then show ?thesis
      using out False by (intro exI [of _ "b # taken"]) (auto simp: keystream_cancel)
  qed
qed

lemma dec_bytes_split:
  "dec_bytes c buf = (c', out, rest) \<Longrightarrow>
   \<exists>taken. buf = taken @ rest \<and> length out = length taken \<and> (rest = [] \<or> nbuf c' = 0) \<and>
     (\<forall>r. r = [] \<or> nbuf c' = 0 \<longrightarrow> enc_bytes c (out @ r) = (c', taken, r))"
proof (induction c buf arbitrary: c' out rest rule: dec_bytes.induct)
  case (1 c)
  have "enc_bytes c r = (c, [], r)" if "r = [] \<or> nbuf c = 0" for r
    using that by (cases r) auto
  with 1 show ?case by auto
next
  case (2 c b buf)
  show ?case
  proof (cases "nbuf c = 0")
    case True
    have "enc_bytes c r = (c, [], r)" for r
      using True by (cases r) auto
    with 2(2) True show ?thesis by auto
  next
    case False
    let ?p = "b XOR keystream_byte c" and ?m = "mac_byte c (b XOR keystream_byte c)"
    obtain out' where out: "out = ?p # out'"
      and rec: "dec_bytes ?m buf = (c', out', rest)"
      using False 2(2) by (auto simp: Let_def split: prod.splits)
    obtain taken where t: "buf = taken @ rest" "length out' = length taken"
      "rest = [] \<or> nbuf c' = 0"
      "\<forall>r. r = [] \<or> nbuf c' = 0 \<longrightarrow> enc_bytes ?m (out' @ r) = (c', taken, r)"
      using 2(1) [OF False refl rec] by blast
    then show ?thesis
      using out False by (intro exI [of _ "b # taken"]) (auto simp: keystream_cancel)
  qed
qed

lemma enc_words_split:
  "enc_words c buf = (c', out, rest) \<Longrightarrow>
   \<exists>taken. buf = taken @ rest \<and> length out = length taken \<and> length rest < 4 \<and>
     (\<forall>r. length r < 4 \<longrightarrow> dec_words c (out @ r) = (c', taken, r))"
proof (induction c buf arbitrary: c' out rest rule: enc_words.induct)
  case (1 c b0 b1 b2 b3 buf)
  let ?c = "cycle c" and ?t = "BYTE2WORD b0 b1 b2 b3"
  obtain out' where out: "out = WORD2BYTE (?t XOR sbuf ?c) @ out'"
    and rec: "enc_words (macfunc ?c ?t) buf = (c', out', rest)"
    using 1(2) by (auto simp: Let_def split: prod.splits)
  obtain taken where t: "buf = taken @ rest" "length out' = length taken" "length rest < 4"
    "\<forall>r. length r < 4 \<longrightarrow> dec_words (macfunc ?c ?t) (out' @ r) = (c', taken, r)"
    using 1(1) [OF refl refl rec] by blast
  then show ?case
    using out
    by (intro exI [of _ "b0 # b1 # b2 # b3 # taken"])
       (auto simp: WORD2BYTE_def Let_def word_bytes keystream_cancel)
qed (auto simp: words_short)

lemma dec_words_split:
  "dec_words c buf = (c', out, rest) \<Longrightarrow>
   \<exists>taken. buf = taken @ rest \<and> length out = length taken \<and> length rest < 4 \<and>
     (\<forall>r. length r < 4 \<longrightarrow> enc_words c (out @ r) = (c', taken, r))"
proof (induction c buf arbitrary: c' out rest rule: dec_words.induct)
  case (1 c b0 b1 b2 b3 buf)
  let ?c = "cycle c" and ?t = "BYTE2WORD b0 b1 b2 b3 XOR sbuf (cycle c)"
  obtain out' where out: "out = WORD2BYTE ?t @ out'"
    and rec: "dec_words (macfunc ?c ?t) buf = (c', out', rest)"
    using 1(2) by (auto simp: Let_def split: prod.splits)
  obtain taken where t: "buf = taken @ rest" "length out' = length taken" "length rest < 4"
    "\<forall>r. length r < 4 \<longrightarrow> enc_words (macfunc ?c ?t) (out' @ r) = (c', taken, r)"
    using 1(1) [OF refl refl rec] by blast
  then show ?case
    using out
    by (intro exI [of _ "b0 # b1 # b2 # b3 # taken"])
       (auto simp: WORD2BYTE_def Let_def word_bytes keystream_cancel)
qed (auto simp: words_short)

text \<open>
  The tail of a call: fewer than four bytes, a fresh key stream word.  All of
  them are consumed.
\<close>

lemma bytes_tail:
  "8 * length buf \<le> nbuf c \<Longrightarrow> \<exists>c' out. enc_bytes c buf = (c', out, []) \<and> nbuf c' = nbuf c - 8 * length buf"
  "8 * length buf \<le> nbuf c \<Longrightarrow> \<exists>c' out. dec_bytes c buf = (c', out, []) \<and> nbuf c' = nbuf c - 8 * length buf"
proof (induction buf arbitrary: c)
  case (Cons b buf)
  {
    case 1
    then have "8 * length buf \<le> nbuf (mac_byte c b)" by (simp add: mac_byte_def)
    from Cons.IH(1) [OF this] show ?case
      using 1 by (auto simp: mac_byte_def)
  next
    case 2
    let ?p = "b XOR keystream_byte c"
    have "8 * length buf \<le> nbuf (mac_byte c ?p)" using 2 by (simp add: mac_byte_def)
    from Cons.IH(2) [OF this] show ?case
      using 2 by (auto simp: mac_byte_def Let_def)
  }
qed simp_all

text \<open>
  Encryption and decryption are the same composition of a byte pass and a word
  pass.  If each pass of one direction is undone by the pass of the other, the
  whole call is: proved once, used in both directions.
\<close>

locale cipher_pass =
  fixes eb db ew dw :: "shn_ctx \<Rightarrow> byte list \<Rightarrow> shn_ctx \<times> byte list \<times> byte list"
    and e d :: "shn_ctx \<Rightarrow> byte list \<Rightarrow> shn_ctx \<times> byte list"
  assumes bytes_split: "eb c buf = (c', out, rest) \<Longrightarrow>
      \<exists>taken. buf = taken @ rest \<and> length out = length taken \<and> (rest = [] \<or> nbuf c' = 0) \<and>
        (\<forall>r. r = [] \<or> nbuf c' = 0 \<longrightarrow> db c (out @ r) = (c', taken, r))"
    and words_split: "ew c buf = (c', out, rest) \<Longrightarrow>
      \<exists>taken. buf = taken @ rest \<and> length out = length taken \<and> length rest < 4 \<and>
        (\<forall>r. length r < 4 \<longrightarrow> dw c (out @ r) = (c', taken, r))"
    and tail: "8 * length buf \<le> nbuf c \<Longrightarrow> \<exists>c' out. eb c buf = (c', out, [])"
    and start: "nbuf c = 0 \<Longrightarrow> eb c buf = (c, [], buf)"
    and e_def: "e c buf =
       (let (c1, out1, buf1) = eb c buf in
        if nbuf c \<noteq> 0 \<and> nbuf c1 \<noteq> 0 then (c1, out1)
        else
          let c1 = (if nbuf c \<noteq> 0 then macfunc c1 (mbuf c1) else c1);
              (c2, out2, buf2) = ew c1 buf1
          in if buf2 \<noteq> [] then
               let (c3, out3, buf3) = eb ((cycle c2)\<lparr>mbuf := 0, nbuf := 32\<rparr>) buf2
               in (c3, out1 @ out2 @ out3)
             else (c2, out1 @ out2))"
    and d_def: "d c buf =
       (let (c1, out1, buf1) = db c buf in
        if nbuf c \<noteq> 0 \<and> nbuf c1 \<noteq> 0 then (c1, out1)
        else
          let c1 = (if nbuf c \<noteq> 0 then macfunc c1 (mbuf c1) else c1);
              (c2, out2, buf2) = dw c1 buf1
          in if buf2 \<noteq> [] then
               let (c3, out3, buf3) = db ((cycle c2)\<lparr>mbuf := 0, nbuf := 32\<rparr>) buf2
               in (c3, out1 @ out2 @ out3)
             else (c2, out1 @ out2))"
begin

lemma undo: "d c (snd (e c buf)) = (fst (e c buf), buf)"
proof -
  obtain c1 out1 buf1 where e1: "eb c buf = (c1, out1, buf1)" by (metis prod_cases3)
  obtain taken1 where t1: "buf = taken1 @ buf1" "length out1 = length taken1"
    "buf1 = [] \<or> nbuf c1 = 0"
    "\<And>r. r = [] \<or> nbuf c1 = 0 \<Longrightarrow> db c (out1 @ r) = (c1, taken1, r)"
    using bytes_split [OF e1] by blast
  show ?thesis
  proof (cases "nbuf c \<noteq> 0 \<and> nbuf c1 \<noteq> 0")
    case True
    then show ?thesis
      using e1 t1(1,3) t1(4) [of "[]"] by (simp add: e_def d_def)
  next
    case False
    have z: "nbuf c1 = 0"
      using False e1 start [of c buf] by auto
    let ?c1 = "if nbuf c \<noteq> 0 then macfunc c1 (mbuf c1) else c1"
    obtain c2 out2 buf2 where e2: "ew ?c1 buf1 = (c2, out2, buf2)" by (metis prod_cases3)
    obtain taken2 where t2: "buf1 = taken2 @ buf2" "length buf2 < 4"
      "\<And>r. length r < 4 \<Longrightarrow> dw ?c1 (out2 @ r) = (c2, taken2, r)"
      using words_split [OF e2] by blast
    let ?c2 = "(cycle c2)\<lparr>mbuf := 0, nbuf := 32\<rparr>"
    obtain c3 out3 where e3: "eb ?c2 buf2 = (c3, out3, [])"
      using tail [of buf2 ?c2] t2(2) by auto
    have t3: "length out3 = length buf2" "db ?c2 out3 = (c3, buf2, [])"
      using bytes_split [OF e3] by auto
    have "db c (out1 @ out2 @ out3) = (c1, taken1, out2 @ out3)"
      "dw ?c1 (out2 @ out3) = (c2, taken2, out3)"
      "db c (out1 @ out2) = (c1, taken1, out2)"
      "dw ?c1 out2 = (c2, taken2, [])"
      using t1(4) z t2(3) [of out3] t2(2,3) t2(3) [of "[]"] t3(1) by simp_all
    then show ?thesis
      using False e1 e2 e3 t1(1) t2(1) t3
      by (cases "buf2 = []") (auto simp: e_def d_def Let_def)
  qed
qed

lemma length_out: "length (snd (e c buf)) = length buf"
proof -
  obtain c1 out1 buf1 where e1: "eb c buf = (c1, out1, buf1)" by (metis prod_cases3)
  note t1 = bytes_split [OF e1]
  let ?c1 = "if nbuf c \<noteq> 0 then macfunc c1 (mbuf c1) else c1"
  obtain c2 out2 buf2 where e2: "ew ?c1 buf1 = (c2, out2, buf2)" by (metis prod_cases3)
  note t2 = words_split [OF e2]
  let ?c2 = "(cycle c2)\<lparr>mbuf := 0, nbuf := 32\<rparr>"
  have "8 * length buf2 \<le> nbuf ?c2" using t2 by auto
  from tail [OF this] obtain c3 out3 where e3: "eb ?c2 buf2 = (c3, out3, [])" by blast
  show ?thesis
    using t1 t2 bytes_split [OF e3] e1 e2 e3 by (auto simp: e_def Let_def)
qed

end

lemma bytes_start:
  "nbuf c = 0 \<Longrightarrow> enc_bytes c buf = (c, [], buf)"
  "nbuf c = 0 \<Longrightarrow> dec_bytes c buf = (c, [], buf)"
  by (cases buf; simp)+

interpretation enc: cipher_pass enc_bytes dec_bytes enc_words dec_words shn_encrypt shn_decrypt
proof unfold_locales
  show "\<exists>c' out. enc_bytes c buf = (c', out, [])" if "8 * length buf \<le> nbuf c" for c buf
    using bytes_tail(1) [OF that] by blast
qed (simp_all only: enc_bytes_split enc_words_split bytes_start shn_encrypt_def shn_decrypt_def)

interpretation dec: cipher_pass dec_bytes enc_bytes dec_words enc_words shn_decrypt shn_encrypt
proof unfold_locales
  show "\<exists>c' out. dec_bytes c buf = (c', out, [])" if "8 * length buf \<le> nbuf c" for c buf
    using bytes_tail(2) [OF that] by blast
qed (simp_all only: dec_bytes_split dec_words_split bytes_start shn_encrypt_def shn_decrypt_def)

section \<open>The cipher does not see call boundaries\<close>

definition shn_ok :: "shn_ctx \<Rightarrow> bool" where
  "shn_ok c \<longleftrightarrow> nbuf c \<in> {0, 8, 16, 24}"

text \<open>\<open>mbuf\<close> is dead at a word boundary: the next byte clears it first.\<close>

definition canon :: "shn_ctx \<Rightarrow> shn_ctx" where
  "canon c = (if nbuf c = 0 then c\<lparr>mbuf := 0\<rparr> else c)"

text \<open>One byte at a time, the specification of the whole cipher.\<close>

definition begin_word :: "shn_ctx \<Rightarrow> shn_ctx" where
  "begin_word c = (if nbuf c = 0 then (cycle c)\<lparr>mbuf := 0, nbuf := 32\<rparr> else c)"

definition end_word :: "shn_ctx \<Rightarrow> shn_ctx" where
  "end_word c = (if nbuf c = 0 then macfunc c (mbuf c) else c)"

fun enc_run :: "shn_ctx \<Rightarrow> byte list \<Rightarrow> shn_ctx \<times> byte list" where
  "enc_run c [] = (c, [])"
| "enc_run c (b # bs) =
     (let c = begin_word c;
          (c', out) = enc_run (end_word (mac_byte c b)) bs
      in (c', (b XOR keystream_byte c) # out))"

lemma enc_run_append:
  "enc_run c (xs @ ys) =
     (let (c1, o1) = enc_run c xs; (c2, o2) = enc_run c1 ys in (c2, o1 @ o2))"
  by (induction xs arbitrary: c) (auto simp: Let_def split: prod.splits)

lemma nbuf_simps [simp]:
  "nbuf (cycle c) = nbuf c" "nbuf (macfunc c i) = nbuf c" "nbuf (ADDKEY c i) = nbuf c"
  "mbuf (cycle c) = mbuf c" "mbuf (macfunc c i) = mbuf c" "mbuf (ADDKEY c i) = mbuf c"
  "sbuf (macfunc c i) = sbuf c" "sbuf (ADDKEY c i) = sbuf c"
  "initR (cycle c) = initR c" "initR (macfunc c i) = initR c" "initR (ADDKEY c i) = initR c"
  by (simp_all add: cycle_def macfunc_def crcfunc_def ADDKEY_def Let_def)

lemma begin_word_canon: "begin_word (canon c) = begin_word c"
  by (simp add: begin_word_def canon_def cycle_def Let_def)

lemma enc_run_canon:
  "snd (enc_run (canon c) bs) = snd (enc_run c bs) \<and>
   canon (fst (enc_run (canon c) bs)) = canon (fst (enc_run c bs))"
proof (cases bs)
  case Nil
  then show ?thesis by (simp add: canon_def)
next
  case (Cons b bs')
  then show ?thesis by (simp add: begin_word_canon)
qed

lemma mac_word_acc:
  "((push_bit 0 (ucast b0) XOR push_bit 8 (ucast b1)) XOR push_bit 16 (ucast b2)) XOR
     push_bit 24 (ucast b3) = BYTE2WORD b0 b1 b2 b3" (is "?l = ?r")
proof (rule bit_word_eqI)
  fix n assume n: "n < LENGTH(32)"
  have hi: "\<not> bit (b :: byte) m" if "8 \<le> m" for b m
    using bit_imp_le_length [of b m] that by auto
  consider "n < 8" | "8 \<le> n" "n < 16" | "16 \<le> n" "n < 24" | "24 \<le> n" by linarith
  then show "bit ?l n = bit ?r n"
    unfolding BYTE2WORD_def and_ff
    by cases (use n hi in \<open>auto simp: bit_simps\<close>)
qed

lemma Byte_xor: "Byte (v XOR w) k = Byte v k XOR Byte w k"
  unfolding Byte_def ucast_and_ff by (rule bit_word_eqI) (auto simp: bit_simps)

text \<open>Four steps of the automaton from a word boundary are one word of the code.\<close>

lemma enc_run_word:
  fixes b0 b1 b2 b3 :: byte
  assumes "nbuf c = 0"
  defines "t \<equiv> BYTE2WORD b0 b1 b2 b3" and "c1 \<equiv> cycle c"
  shows "enc_run c [b0, b1, b2, b3] = ((macfunc c1 t)\<lparr>mbuf := t\<rparr>, WORD2BYTE (t XOR sbuf c1))"
proof -
  let ?d = "\<lambda>v k. c1\<lparr>mbuf := v, nbuf := k\<rparr>"
  have beg: "begin_word c = ?d 0 32" using assms(1) by (simp add: begin_word_def c1_def)
  have mid: "begin_word (?d v k) = ?d v k" "end_word (?d v k) = ?d v k" if "k \<noteq> 0" for v k
    using that by (simp_all add: begin_word_def end_word_def)
  have mac: "mac_byte (?d v k) b = ?d (v XOR push_bit (32 - k) (ucast b)) (k - 8)" for v k b
    by (simp add: mac_byte_def)
  have ks: "keystream_byte (?d v 32) = Byte (sbuf c1) 0" "keystream_byte (?d v 24) = Byte (sbuf c1) 1"
    "keystream_byte (?d v 16) = Byte (sbuf c1) 2" "keystream_byte (?d v 8) = Byte (sbuf c1) 3" for v
    by (simp_all add: keystream_byte_def Byte_def)
  have fin: "end_word (?d t 0) = (macfunc c1 t)\<lparr>mbuf := t\<rparr>"
    using assms(1)
    by (simp add: end_word_def c1_def macfunc_def crcfunc_def ADDKEY_def cycle_def Let_def)
  have acc: "((0 XOR push_bit 0 (ucast b0) XOR push_bit 8 (ucast b1)) XOR push_bit 16 (ucast b2)) XOR
     push_bit 24 (ucast b3) = t"
    using mac_word_acc [of b0 b1 b2 b3] by (simp add: t_def)
  have "enc_run c [b0, b1, b2, b3] =
      (end_word (?d t 0), [b0 XOR Byte (sbuf c1) 0, b1 XOR Byte (sbuf c1) 1,
                           b2 XOR Byte (sbuf c1) 2, b3 XOR Byte (sbuf c1) 3])"
    using acc by (simp add: beg mac mid ks [simplified])
  moreover have "WORD2BYTE (t XOR sbuf c1) =
      [b0 XOR Byte (sbuf c1) 0, b1 XOR Byte (sbuf c1) 1, b2 XOR Byte (sbuf c1) 2, b3 XOR Byte (sbuf c1) 3]"
    by (simp only: WORD2BYTE_def Byte_xor t_def Byte_BYTE2WORD)
  ultimately show ?thesis by (simp add: fin)
qed

text \<open>The partial-word loop runs the automaton to the end of the data or of the word.\<close>

lemma enc_bytes_run:
  "nbuf c \<in> {8, 16, 24, 32} \<Longrightarrow> enc_bytes c buf = (c', out, rest) \<Longrightarrow>
   \<exists>taken. buf = taken @ rest \<and> enc_run c taken = (end_word c', out) \<and>
     (rest = [] \<or> nbuf c' = 0) \<and> nbuf c' \<in> {0, 8, 16, 24, 32}"
proof (induction buf arbitrary: c out)
  case Nil
  then show ?case by (auto simp: end_word_def)
next
  case (Cons b buf)
  let ?m = "mac_byte c b"
  have nz: "nbuf c \<noteq> 0" and beg: "begin_word c = c" using Cons.prems(1) by (auto simp: begin_word_def)
  obtain out' where out: "out = (b XOR keystream_byte c) # out'"
    and rec: "enc_bytes ?m buf = (c', out', rest)"
    using nz Cons.prems(2) by (auto split: prod.splits)
  show ?case
  proof (cases "nbuf ?m = 0")
    case True
    with rec have "c' = ?m" "out' = []" "rest = buf" by (auto simp: bytes_start)
    with True out beg show ?thesis by (intro exI [of _ "[b]"]) simp
  next
    case False
    then have "nbuf ?m \<in> {8, 16, 24, 32}" using Cons.prems(1) by (auto simp: mac_byte_def)
    from Cons.IH [OF this rec] obtain taken where
      "buf = taken @ rest" "enc_run ?m taken = (end_word c', out')"
      "rest = [] \<or> nbuf c' = 0" "nbuf c' \<in> {0, 8, 16, 24, 32}" by blast
    moreover have "end_word ?m = ?m" using False by (simp add: end_word_def)
    ultimately show ?thesis using out beg by (intro exI [of _ "b # taken"]) simp
  qed
qed

lemma enc_bytes_nbuf: "enc_bytes c buf = (c', out, rest) \<Longrightarrow> nbuf c' \<le> nbuf c"
proof (induction buf arbitrary: c out)
  case (Cons b buf)
  then show ?case
    by (fastforce simp: mac_byte_def split: if_splits prod.splits)
qed simp

lemma enc_run_same:
  assumes "canon c = canon d"
  shows "snd (enc_run c bs) = snd (enc_run d bs)"
    and "canon (fst (enc_run c bs)) = canon (fst (enc_run d bs))"
  using enc_run_canon [of c bs] enc_run_canon [of d bs] assms by auto

lemma nbuf_canon [simp]: "nbuf (canon c) = nbuf c"
  by (simp add: canon_def)

lemma canon_nbuf: "canon c = canon d \<Longrightarrow> nbuf c = nbuf d"
  by (metis nbuf_canon)

lemma enc_words_run:
  "nbuf c = 0 \<Longrightarrow> enc_words c buf = (c', out, rest) \<Longrightarrow>
   \<exists>taken. buf = taken @ rest \<and> length rest < 4 \<and> nbuf c' = 0 \<and>
     snd (enc_run c taken) = out \<and> canon (fst (enc_run c taken)) = canon c'"
proof (induction c buf arbitrary: out rule: enc_words.induct)
  case (1 c b0 b1 b2 b3 buf)
  let ?c = "cycle c" and ?t = "BYTE2WORD b0 b1 b2 b3"
  let ?m = "macfunc ?c ?t"
  obtain out' where out: "out = WORD2BYTE (?t XOR sbuf ?c) @ out'"
    and rec: "enc_words ?m buf = (c', out', rest)"
    using "1.prems"(2) by (auto simp: Let_def split: prod.splits)
  have "nbuf ?m = 0" using "1.prems"(1) by simp
  from "1.IH" [OF refl refl this rec] obtain taken where t:
    "buf = taken @ rest" "length rest < 4" "nbuf c' = 0"
    "snd (enc_run ?m taken) = out'" "canon (fst (enc_run ?m taken)) = canon c'" by blast
  have w: "enc_run c [b0, b1, b2, b3] = (?m\<lparr>mbuf := ?t\<rparr>, WORD2BYTE (?t XOR sbuf ?c))"
    by (rule enc_run_word [OF "1.prems"(1)])
  have same: "canon (?m\<lparr>mbuf := ?t\<rparr>) = canon ?m" using "1.prems"(1) by (simp add: canon_def)
  have "snd (enc_run c ([b0, b1, b2, b3] @ taken)) = out"
    "canon (fst (enc_run c ([b0, b1, b2, b3] @ taken))) = canon c'"
    unfolding enc_run_append w using enc_run_same [OF same, of taken] t(4,5) out
    by (simp_all add: split_def Let_def del: append_Cons)
  with t show ?case by (intro exI [of _ "[b0, b1, b2, b3] @ taken"]) auto
qed auto

lemma canon_idem [simp]: "canon (canon c) = canon c"
  by (simp add: canon_def)

text \<open>The whole call is the automaton.\<close>

lemma shn_encrypt_run:
  assumes "shn_ok c"
  shows "snd (shn_encrypt c buf) = snd (enc_run c buf) \<and>
    canon (fst (shn_encrypt c buf)) = canon (fst (enc_run c buf)) \<and>
    shn_ok (fst (shn_encrypt c buf))"
proof -
  obtain c1 out1 buf1 where e1: "enc_bytes c buf = (c1, out1, buf1)" by (metis prod_cases3)
  show ?thesis
  proof (cases "nbuf c = 0 \<or> nbuf c1 = 0")
    case False
    then obtain taken where "buf = taken @ buf1" "enc_run c taken = (end_word c1, out1)"
      "buf1 = []" "nbuf c1 \<in> {8, 16, 24, 32}"
      using enc_bytes_run [OF _ e1] assms by (auto simp: shn_ok_def)
    moreover have "nbuf c1 \<noteq> 32"
      using assms e1 enc_bytes_nbuf [OF e1] by (auto simp: shn_ok_def)
    ultimately show ?thesis
      using False e1 by (auto simp: shn_encrypt_def end_word_def shn_ok_def)
  next
    case True
    let ?c1 = "if nbuf c \<noteq> 0 then macfunc c1 (mbuf c1) else c1"
    obtain taken1 where t1: "buf = taken1 @ buf1" "enc_run c taken1 = (?c1, out1)" "nbuf ?c1 = 0"
    proof (cases "nbuf c = 0")
      case True
      with e1 that [of "[]"] show ?thesis by (simp add: bytes_start)
    next
      case False
      then have "nbuf c \<in> {8, 16, 24, 32}" using assms by (auto simp: shn_ok_def)
      from enc_bytes_run [OF this e1] show ?thesis
        using that False True by (auto simp: end_word_def)
    qed
    obtain c2 out2 buf2 where e2: "enc_words ?c1 buf1 = (c2, out2, buf2)" by (metis prod_cases3)
    obtain taken2 where t2: "buf1 = taken2 @ buf2" "length buf2 < 4" "nbuf c2 = 0"
      "snd (enc_run ?c1 taken2) = out2" "canon (fst (enc_run ?c1 taken2)) = canon c2"
      using enc_words_run [OF t1(3) e2] by blast
    let ?c2 = "(cycle c2)\<lparr>mbuf := 0, nbuf := 32\<rparr>"
    obtain c3 out3 where e3: "enc_bytes ?c2 buf2 = (c3, out3, [])"
      "nbuf c3 = 32 - 8 * length buf2"
      using bytes_tail(1) [of buf2 ?c2] t2(2) by auto
    have "enc_run ?c2 buf2 = (end_word c3, out3)"
      using enc_bytes_run [OF _ e3(1)] by auto
    then have r3: "enc_run ?c2 buf2 = (c3, out3)"
      using e3(2) t2(2) by (simp add: end_word_def)
    have tl: "enc_run c2 buf2 = (if buf2 = [] then (c2, []) else (c3, out3))"
      using r3 t2(3) by (cases buf2) (auto simp: begin_word_def)
    have "snd (enc_run c buf) = out1 @ out2 @ snd (enc_run c2 buf2)"
      "canon (fst (enc_run c buf)) = canon (fst (enc_run c2 buf2))"
      using enc_run_same [OF t2(5), of buf2] t2(4)
      by (simp_all add: t1(1,2) t2(1) enc_run_append split_def Let_def)
    moreover have "shn_encrypt c buf =
        (if buf2 = [] then (c2, out1 @ out2) else (c3, out1 @ out2 @ out3))"
      using True e1 e2 e3(1) by (auto simp: shn_encrypt_def Let_def)
    moreover have "shn_ok c2" "buf2 \<noteq> [] \<Longrightarrow> shn_ok c3"
      using t2(2,3) e3(2) by (auto simp: shn_ok_def length_Suc_conv less_Suc_eq numeral_eq_Suc)
    ultimately show ?thesis by (simp add: tl)
  qed
qed

text \<open>
  Cutting a message into two calls changes neither the ciphertext nor the
  state any later call can see.
\<close>

lemma shn_encrypt_append:
  assumes "shn_ok c"
  shows "snd (shn_encrypt c (xs @ ys)) =
           snd (shn_encrypt c xs) @ snd (shn_encrypt (fst (shn_encrypt c xs)) ys)"
    and "canon (fst (shn_encrypt c (xs @ ys))) =
           canon (fst (shn_encrypt (fst (shn_encrypt c xs)) ys))"
proof -
  note 1 = shn_encrypt_run [OF assms, of xs]
  then have ok: "shn_ok (fst (shn_encrypt c xs))" by blast
  note 2 = shn_encrypt_run [OF ok, of ys]
  note 3 = shn_encrypt_run [OF assms, of "xs @ ys"]
  have same: "canon (fst (shn_encrypt c xs)) = canon (fst (enc_run c xs))" using 1 by blast
  show "snd (shn_encrypt c (xs @ ys)) =
      snd (shn_encrypt c xs) @ snd (shn_encrypt (fst (shn_encrypt c xs)) ys)"
    using 1 2 3 enc_run_same(1) [OF same, of ys]
    by (simp add: enc_run_append split_def Let_def)
  show "canon (fst (shn_encrypt c (xs @ ys))) =
      canon (fst (shn_encrypt (fst (shn_encrypt c xs)) ys))"
    using 2 3 enc_run_same(2) [OF same, of ys]
    by (simp add: enc_run_append split_def Let_def)
qed

lemma shn_encrypt_same:
  assumes "shn_ok c" "canon c = canon d"
  shows "snd (shn_encrypt c xs) = snd (shn_encrypt d xs)"
    and "canon (fst (shn_encrypt c xs)) = canon (fst (shn_encrypt d xs))"
proof -
  have "shn_ok d" using assms canon_nbuf [OF assms(2)] by (simp add: shn_ok_def)
  then show "snd (shn_encrypt c xs) = snd (shn_encrypt d xs)"
    "canon (fst (shn_encrypt c xs)) = canon (fst (shn_encrypt d xs))"
    using shn_encrypt_run [OF assms(1), of xs] shn_encrypt_run [of d xs]
      enc_run_same [OF assms(2), of xs] by simp_all
qed

text \<open>Decryption inherits all of it, being the inverse.\<close>

lemma shn_decrypt_of_cipher:
  "snd (shn_decrypt c (snd (shn_encrypt c p))) = p"
  "fst (shn_decrypt c (snd (shn_encrypt c p))) = fst (shn_encrypt c p)"
  by (simp_all add: enc.undo)

lemma shn_decrypt_ok: "shn_ok c \<Longrightarrow> shn_ok (fst (shn_decrypt c xs))"
  using shn_encrypt_run [of c "snd (shn_decrypt c xs)"] by (simp add: dec.undo)

lemma shn_decrypt_append:
  assumes "shn_ok c"
  shows "snd (shn_decrypt c (xs @ ys)) =
           snd (shn_decrypt c xs) @ snd (shn_decrypt (fst (shn_decrypt c xs)) ys)"
    and "canon (fst (shn_decrypt c (xs @ ys))) =
           canon (fst (shn_decrypt (fst (shn_decrypt c xs)) ys))"
proof -
  let ?c1 = "fst (shn_decrypt c xs)" and ?p1 = "snd (shn_decrypt c xs)"
  let ?c2 = "fst (shn_decrypt ?c1 ys)" and ?p2 = "snd (shn_decrypt ?c1 ys)"
  have e1: "shn_encrypt c ?p1 = (?c1, xs)" and e2: "shn_encrypt ?c1 ?p2 = (?c2, ys)"
    by (simp_all add: dec.undo)
  have e: "snd (shn_encrypt c (?p1 @ ?p2)) = xs @ ys"
    "canon (fst (shn_encrypt c (?p1 @ ?p2))) = canon ?c2"
    using shn_encrypt_append [OF assms, of ?p1 ?p2] e1 e2 by simp_all
  show "snd (shn_decrypt c (xs @ ys)) = ?p1 @ ?p2"
    "canon (fst (shn_decrypt c (xs @ ys))) = canon ?c2"
    using shn_decrypt_of_cipher [of c "?p1 @ ?p2"] e by simp_all
qed

lemma shn_decrypt_same:
  assumes "shn_ok c" "canon c = canon d"
  shows "snd (shn_decrypt c xs) = snd (shn_decrypt d xs)"
    and "canon (fst (shn_decrypt c xs)) = canon (fst (shn_decrypt d xs))"
proof -
  let ?p = "snd (shn_decrypt c xs)"
  have "snd (shn_encrypt d ?p) = xs"
    "canon (fst (shn_encrypt d ?p)) = canon (fst (shn_decrypt c xs))"
    using shn_encrypt_same [OF assms, of ?p] by (simp_all add: dec.undo)
  then show "snd (shn_decrypt c xs) = snd (shn_decrypt d xs)"
    "canon (fst (shn_decrypt c xs)) = canon (fst (shn_decrypt d xs))"
    using shn_decrypt_of_cipher [of d ?p] by simp_all
qed

section \<open>MAC and rekeying\<close>

lemma mbuf_dead:
  "cycle (c\<lparr>mbuf := v\<rparr>) = (cycle c)\<lparr>mbuf := v\<rparr>"
  "ADDKEY (c\<lparr>mbuf := v\<rparr>) k = (ADDKEY c k)\<lparr>mbuf := v\<rparr>"
  by (simp_all add: cycle_def ADDKEY_def Let_def)

lemma diffuse_mbuf_dead: "shn_diffuse (c\<lparr>mbuf := v\<rparr>) = (shn_diffuse c)\<lparr>mbuf := v\<rparr>"
proof -
  have "(cycle ^^ n) (c\<lparr>mbuf := v\<rparr>) = ((cycle ^^ n) c)\<lparr>mbuf := v\<rparr>" for n
    by (induction n) (auto simp: mbuf_dead)
  then show ?thesis by (simp add: shn_diffuse_def)
qed

lemma finish_out_mbuf_dead: "snd (finish_out (c\<lparr>mbuf := v\<rparr>) n) = snd (finish_out c n)"
proof (induction c n rule: finish_out.induct)
  case (1 c n)
  then show ?case
    by (subst (1 2) finish_out.simps) (auto simp: mbuf_dead Let_def split_def)
qed

text \<open>The MAC does not depend on the dead buffer, hence not on call boundaries.\<close>

lemma shn_finish_canon: "snd (shn_finish (canon c) n) = snd (shn_finish c n)"
proof (cases "nbuf c = 0")
  case True
  let ?f = "\<lambda>c. (c\<lparr>nbuf := 0\<rparr>)\<lparr>R := xor_lists (R (c\<lparr>nbuf := 0\<rparr>)) (CRC (c\<lparr>nbuf := 0\<rparr>))\<rparr>"
  let ?k = "INITKONST XOR push_bit 3 (word_of_nat 0)"
  have fin: "shn_finish c n = finish_out (shn_diffuse (?f (ADDKEY (cycle c) ?k))) n"
    if "nbuf c = 0" for c
    using that by (simp only: shn_finish_def Let_def nbuf_simps if_False simp_thms)
  have "?f (ADDKEY (cycle (c\<lparr>mbuf := 0\<rparr>)) ?k) = (?f (ADDKEY (cycle c) ?k))\<lparr>mbuf := 0\<rparr>"
    by (simp add: mbuf_dead)
  then have "shn_finish (c\<lparr>mbuf := 0\<rparr>) n =
      finish_out ((shn_diffuse (?f (ADDKEY (cycle c) ?k)))\<lparr>mbuf := 0\<rparr>) n"
    using True by (subst fin) (simp, simp only: diffuse_mbuf_dead)
  with fin [OF True] True show ?thesis
    by (simp add: canon_def finish_out_mbuf_dead)
next
  case False
  then show ?thesis by (simp add: canon_def)
qed

lemma diffuse_frame [frame]: "initR (shn_diffuse c) = initR c" "nbuf (shn_diffuse c) = nbuf c"
proof -
  have "initR ((cycle ^^ n) c) = initR c \<and> nbuf ((cycle ^^ n) c) = nbuf c" for n
    by (induction n) auto
  then show "initR (shn_diffuse c) = initR c" "nbuf (shn_diffuse c) = nbuf c"
    by (simp_all add: shn_diffuse_def)
qed

lemma load_words_frame [frame]: "initR (load_words c key) = initR c"
  by (induction c key rule: load_words.induct) auto

lemma shn_loadkey_frame [frame]: "initR (shn_loadkey c key) = initR c"
  by (simp add: shn_loadkey_def frame Let_def)

lemma shn_nonce_frame [frame]: "initR (shn_nonce c nonce) = initR c"
  by (simp add: shn_nonce_def shn_genkonst_def shn_reloadstate_def frame)

lemma shn_nonce_ok: "shn_ok (shn_nonce c nonce)"
  by (simp add: shn_nonce_def shn_ok_def)

lemma shn_key_ok: "shn_ok (shn_key c key)"
  by (simp add: shn_key_def shn_ok_def)

lemma mac_byte_frame [frame]: "initR (mac_byte c b) = initR c"
  by (simp add: mac_byte_def)

lemma enc_run_frame [frame]: "initR (fst (enc_run c bs)) = initR c"
  by (induction bs arbitrary: c)
     (auto simp: Let_def split_def frame begin_word_def end_word_def)

lemma canon_initR: "canon c = canon d \<Longrightarrow> initR c = initR d"
  by (metis (no_types, lifting) canon_def shn_ctx.ext_inject shn_ctx.surjective shn_ctx.update_convs(6))

lemma shn_encrypt_frame [frame]: "shn_ok c \<Longrightarrow> initR (fst (shn_encrypt c bs)) = initR c"
  using shn_encrypt_run [of c bs] canon_initR [of "fst (shn_encrypt c bs)" "fst (enc_run c bs)"]
  by (simp add: frame)

lemma shn_decrypt_frame [frame]: "shn_ok c \<Longrightarrow> initR (fst (shn_decrypt c bs)) = initR c"
  using shn_encrypt_frame [of c "snd (shn_decrypt c bs)"] by (simp add: dec.undo)

lemma finish_out_frame [frame]: "initR (fst (finish_out c n)) = initR c"
proof (induction c n rule: finish_out.induct)
  case (1 c n)
  then show ?case by (subst finish_out.simps) (auto simp: Let_def split_def)
qed

lemma shn_finish_frame [frame]: "initR (fst (shn_finish c n)) = initR c"
  by (simp add: shn_finish_def Let_def frame)

lemma length_finish_out: "length (snd (finish_out c n)) = n"
proof (induction c n rule: finish_out.induct)
  case (1 c n)
  then show ?case
    by (subst finish_out.simps) (auto simp: Let_def split_def WORD2BYTE_def)
qed

lemma length_shn_finish: "length (snd (shn_finish c n)) = n"
  by (simp add: shn_finish_def Let_def length_finish_out)

text \<open>
  Setting a nonce forgets everything but the key: two contexts with the same
  saved register start the next packet in the same state, whatever happened
  to them before.
\<close>

definition key_part :: "shn_ctx \<Rightarrow> u32 list \<times> u32" where
  "key_part c = (R c, konst c)"

lemma cycle_via_core:
  "\<exists>f g. \<forall>c. cycle c = c\<lparr>R := f (R c) (konst c), sbuf := g (R c) (konst c)\<rparr>"
proof -
  let ?t = "\<lambda>r k. sbox1 (r ! 12 XOR r ! 13 XOR k) XOR ROTL (r ! 0) 1"
  let ?r = "\<lambda>r k. shift_in r (?t r k)"
  let ?u = "\<lambda>r k. sbox2 (?r r k ! 2 XOR ?r r k ! 15)"
  let ?s = "\<lambda>r k. (?r r k)[0 := ?r r k ! 0 XOR ?u r k]"
  have "cycle c = c\<lparr>R := ?s (R c) (konst c),
      sbuf := ?u (R c) (konst c) XOR ?s (R c) (konst c) ! 8 XOR ?s (R c) (konst c) ! 12\<rparr>" for c
    by (simp only: cycle_def Let_def)
  then show ?thesis
    by (intro exI [of _ ?s] exI [of _ "\<lambda>r k. ?u r k XOR ?s r k ! 8 XOR ?s r k ! 12"]) blast
qed

lemma cycle_key_part:
  assumes "key_part c = key_part d"
  shows "key_part (cycle c) = key_part (cycle d)" "sbuf (cycle c) = sbuf (cycle d)"
proof -
  obtain f g where "\<And>c. cycle c = c\<lparr>R := f (R c) (konst c), sbuf := g (R c) (konst c)\<rparr>"
    using cycle_via_core by blast
  then show "key_part (cycle c) = key_part (cycle d)" "sbuf (cycle c) = sbuf (cycle d)"
    using assms by (simp_all add: key_part_def)
qed

lemma cycle_CRC [simp]: "CRC (cycle c) = CRC c"
  by (simp add: cycle_def Let_def)

lemma ADDKEY_key_part: "key_part c = key_part d \<Longrightarrow> key_part (ADDKEY c k) = key_part (ADDKEY d k)"
  by (simp add: key_part_def ADDKEY_def)

lemma load_words_key_part:
  "key_part c = key_part d \<Longrightarrow> key_part (load_words c key) = key_part (load_words d key)"
proof (induction c key arbitrary: d rule: load_words.induct)
  case (1 c b0 b1 b2 b3 key)
  show ?case
    unfolding load_words.simps
    by (rule "1.IH" [OF cycle_key_part(1) [OF ADDKEY_key_part [OF "1.prems"]]])
qed (simp_all only: load_words.simps, (rule cycle_key_part(1) ADDKEY_key_part | assumption)+)

lemma diffuse_key_part:
  assumes "key_part c = key_part d" "sbuf c = sbuf d" "CRC c = CRC d"
  shows "key_part (shn_diffuse c) = key_part (shn_diffuse d)"
    "sbuf (shn_diffuse c) = sbuf (shn_diffuse d)" "CRC (shn_diffuse c) = CRC (shn_diffuse d)"
proof -
  have "key_part ((cycle ^^ n) c) = key_part ((cycle ^^ n) d) \<and>
      sbuf ((cycle ^^ n) c) = sbuf ((cycle ^^ n) d) \<and>
      CRC ((cycle ^^ n) c) = CRC ((cycle ^^ n) d)" for n
  proof (induction n)
    case (Suc n)
    then show ?case
      by (simp only: funpow.simps comp_apply cycle_CRC) (blast intro: cycle_key_part)
  qed (use assms in simp)
  then show "key_part (shn_diffuse c) = key_part (shn_diffuse d)"
    "sbuf (shn_diffuse c) = sbuf (shn_diffuse d)" "CRC (shn_diffuse c) = CRC (shn_diffuse d)"
    by (simp_all add: shn_diffuse_def)
qed

lemma shn_nonce_same:
  assumes "initR c = initR d"
  shows "canon (shn_nonce c nonce) = canon (shn_nonce d nonce)"
proof -
  let ?k = "\<lambda>c. cycle (ADDKEY (load_words ((shn_reloadstate c)\<lparr>konst := INITKONST\<rparr>) nonce)
                (word_of_nat (length nonce)))"
  let ?l = "\<lambda>c. (?k c)\<lparr>CRC := R (?k c)\<rparr>"
  have start: "key_part ((shn_reloadstate c)\<lparr>konst := INITKONST\<rparr>) =
      key_part ((shn_reloadstate d)\<lparr>konst := INITKONST\<rparr>)"
    using assms by (simp add: key_part_def shn_reloadstate_def)
  note k = cycle_key_part [OF ADDKEY_key_part [OF load_words_key_part [OF start, of nonce]],
      of "word_of_nat (length nonce)"]
  have l: "key_part (?l c) = key_part (?l d)" "sbuf (?l c) = sbuf (?l d)" "CRC (?l c) = CRC (?l d)"
    using k by (simp_all add: key_part_def)
  note m = diffuse_key_part [OF l]
  have "R (shn_nonce c nonce) = R (shn_nonce d nonce)" "CRC (shn_nonce c nonce) = CRC (shn_nonce d nonce)"
    "sbuf (shn_nonce c nonce) = sbuf (shn_nonce d nonce)"
    "konst (shn_nonce c nonce) = konst (shn_nonce d nonce)"
    using m by (simp_all add: shn_nonce_def shn_genkonst_def shn_loadkey_def Let_def key_part_def)
  moreover have "initR (shn_nonce c nonce) = initR (shn_nonce d nonce)"
    using assms by (simp add: frame)
  moreover have "nbuf (shn_nonce c nonce) = 0" "nbuf (shn_nonce d nonce) = 0"
    by (simp_all add: shn_nonce_def)
  ultimately show ?thesis by (simp add: canon_def)
qed

text \<open>The keyed state depends on the key alone.\<close>

lemma shn_key_same: "initR (shn_key c key) = initR (shn_key d key)"
proof -
  have start: "key_part (shn_initstate c) = key_part (shn_initstate d)"
    by (simp add: key_part_def shn_initstate_def)
  let ?k = "\<lambda>c. cycle (ADDKEY (load_words (shn_initstate c) key) (word_of_nat (length key)))"
  let ?l = "\<lambda>c. (?k c)\<lparr>CRC := R (?k c)\<rparr>"
  note k = cycle_key_part [OF ADDKEY_key_part [OF load_words_key_part [OF start, of key]],
      of "word_of_nat (length key)"]
  have l: "key_part (?l c) = key_part (?l d)" "sbuf (?l c) = sbuf (?l d)" "CRC (?l c) = CRC (?l d)"
    using k by (simp_all add: key_part_def)
  show ?thesis
    using diffuse_key_part [OF l]
    by (simp add: shn_key_def shn_savestate_def shn_genkonst_def shn_loadkey_def Let_def key_part_def)
qed

section \<open>Properties\<close>

fun enc_pieces :: "shn_ctx \<Rightarrow> byte list list \<Rightarrow> shn_ctx \<times> byte list" where
  "enc_pieces c [] = (c, [])"
| "enc_pieces c (p # ps) =
     (let (c, out) = shn_encrypt c p; (c, outs) = enc_pieces c ps in (c, out @ outs))"

fun dec_pieces :: "shn_ctx \<Rightarrow> byte list list \<Rightarrow> shn_ctx \<times> byte list" where
  "dec_pieces c [] = (c, [])"
| "dec_pieces c (p # ps) =
     (let (c, out) = shn_decrypt c p; (c, outs) = dec_pieces c ps in (c, out @ outs))"

lemma shn_encrypt_ok: "shn_ok c \<Longrightarrow> shn_ok (fst (shn_encrypt c xs))"
  using shn_encrypt_run [of c xs] by simp

lemma enc_pieces_concat:
  "shn_ok c \<Longrightarrow> snd (enc_pieces c ps) = snd (shn_encrypt c (concat ps)) \<and>
     canon (fst (enc_pieces c ps)) = canon (fst (shn_encrypt c (concat ps)))"
proof (induction ps arbitrary: c)
  case Nil
  then show ?case using shn_encrypt_run [of c "[]"] by simp
next
  case (Cons p ps)
  from Cons.IH [OF shn_encrypt_ok [OF Cons.prems, of p]] shn_encrypt_append [OF Cons.prems, of p "concat ps"]
  show ?case by (simp add: Let_def split_def)
qed

lemma dec_pieces_concat:
  "shn_ok c \<Longrightarrow> snd (dec_pieces c ps) = snd (shn_decrypt c (concat ps)) \<and>
     canon (fst (dec_pieces c ps)) = canon (fst (shn_decrypt c (concat ps)))"
proof (induction ps arbitrary: c)
  case Nil
  have "snd (shn_decrypt c []) = []" using dec.length_out [of c "[]"] by simp
  then have "shn_encrypt c [] = (fst (shn_decrypt c []), [])" using dec.undo [of c "[]"] by simp
  with shn_encrypt_run [OF Nil, of "[]"] \<open>snd (shn_decrypt c []) = []\<close> show ?case by simp
next
  case (Cons p ps)
  from Cons.IH [OF shn_decrypt_ok [OF Cons.prems, of p]] shn_decrypt_append [OF Cons.prems, of p "concat ps"]
  show ?case by (simp add: Let_def split_def)
qed

text \<open>
  C24: Two contexts with the same key, whatever they did before, agree on a packet:
  encrypted under a nonce in any pieces and decrypted under the same nonce in any
  other pieces, the text comes back, and both ends compute the same MAC.
\<close>

theorem shannon_roundtrip_any_pieces:
  assumes "initR c = initR d"
    and "snd (enc_pieces (shn_nonce c nonce) ps) = concat qs"
  shows "snd (dec_pieces (shn_nonce d nonce) qs) = concat ps \<and>
    snd (shn_finish (fst (enc_pieces (shn_nonce c nonce) ps)) k) =
    snd (shn_finish (fst (dec_pieces (shn_nonce d nonce) qs)) k)"
proof -
  let ?c = "shn_nonce c nonce" and ?d = "shn_nonce d nonce"
  have ok: "shn_ok ?c" "shn_ok ?d" by (simp_all add: shn_nonce_ok)
  have same: "canon ?c = canon ?d" by (rule shn_nonce_same [OF assms(1)])
  note e = enc_pieces_concat [OF ok(1), of ps]
  note d = dec_pieces_concat [OF ok(2), of qs]
  have cipher: "concat qs = snd (shn_encrypt ?d (concat ps))"
    using assms(2) e shn_encrypt_same(1) [OF ok(1) same, of "concat ps"] by simp
  have undone: "snd (shn_decrypt ?d (concat qs)) = concat ps"
    "fst (shn_decrypt ?d (concat qs)) = fst (shn_encrypt ?d (concat ps))"
    unfolding cipher by (rule shn_decrypt_of_cipher)+
  have "canon (fst (enc_pieces ?c ps)) = canon (fst (dec_pieces ?d qs))"
    using e d undone(2) shn_encrypt_same(2) [OF ok(1) same, of "concat ps"] by simp
  then have "snd (shn_finish (fst (enc_pieces ?c ps)) k) = snd (shn_finish (fst (dec_pieces ?d qs)) k)"
    using shn_finish_canon by metis
  with d undone(1) show ?thesis by simp
qed

definition blank_ctx :: shn_ctx where
  "blank_ctx = \<lparr>R = replicate N 0, CRC = replicate N 0, initR = replicate N 0,
     konst = 0, sbuf = 0, mbuf = 0, nbuf = 0\<rparr>"

theorem shannon_roundtrip_any_pieces_witness:
  "snd (dec_pieces (shn_nonce (blank_ctx\<lparr>sbuf := 5\<rparr>) [0, 0, 0, 1])
      [snd (enc_pieces (shn_nonce blank_ctx [0, 0, 0, 1]) [[1], [2, 3, 4, 5, 6]])]) = [1, 2, 3, 4, 5, 6]"
  using shannon_roundtrip_any_pieces [of blank_ctx "blank_ctx\<lparr>sbuf := 5\<rparr>" "[0, 0, 0, 1]"
      "[[1], [2, 3, 4, 5, 6]]" "[snd (enc_pieces (shn_nonce blank_ctx [0, 0, 0, 1]) [[1], [2, 3, 4, 5, 6]])]" 4]
  by simp

end
