(* ===== verification/Session.thy ===== *)
theory Session
  imports Buf Util Shannon
begin

text \<open>
  \<^verbatim>\<open>src/src/lib/session.h\<close>, \<^verbatim>\<open>src/src/lib/session.c\<close>: the record every layer of
  the protocol works on, its initialisation, the user's credentials, connecting
  and disconnecting.  The socket itself is \<open>net\<close>: what will still be received,
  how the following \<open>send\<close>s will go, and what has been put on the wire.
  OpenSSL, the resolver and the kernel's sockets are parameters.
\<close>

section \<open>State\<close>

record net =
  rx_q :: rx
  tx_q :: tx
  wire :: "byte list"

text \<open>\<open>struct ds_user_info\<close> of \<^verbatim>\<open>despotify.h\<close>.\<close>

record ds_user_info =
  ui_username :: string
  ui_country :: string
  ui_type :: string
  ui_expiry :: int
  ui_server_host :: string
  ui_server_port :: int
  ui_last_ping :: u32

record session =
  ap_sock :: int
  server_host :: string
  server_port :: nat
  client_OS :: byte
  client_id :: "byte list"
  client_revision :: u32
  client_random_16 :: "byte list"
  server_random_16 :: "byte list"
  random_256 :: "byte list"
  username :: string
  username_len :: byte
  password :: string
  salt :: "byte list"
  init_client_packet :: "buf option"
  init_server_packet :: "buf option"
  auth_hash :: "byte list"
  dh_priv :: nat
  dh_pub :: nat
  rsa_n :: nat
  my_priv_key :: "byte list"
  my_pub_key :: "byte list"
  rsa_pub_exp :: "byte list"
  remote_pub_key :: "byte list"
  shared_key :: "byte list"
  key_hmac :: "byte list"
  key_recv :: "byte list"
  key_send :: "byte list"
  key_recv_IV :: u32
  key_send_IV :: u32
  shn_recv :: shn_ctx
  shn_send :: shn_ctx
  puzzle_denominator :: byte
  puzzle_solution :: "byte list"
  puzzle_magic :: u32
  auth_hmac :: "byte list"
  cache_hash :: "byte list"
  user_info :: ds_user_info

section \<open>Big numbers as bytes\<close>

text \<open>
  \<open>BN_bn2bin\<close>: big-endian, as many bytes as the number needs and no more.
  \<open>BN_bin2bn\<close> is its inverse.
\<close>

fun BN_bn2bin :: "nat \<Rightarrow> byte list" where
  "BN_bn2bin n = (if n = 0 then [] else BN_bn2bin (n div 256) @ [word_of_nat (n mod 256)])"

declare BN_bn2bin.simps [simp del]

definition BN_bin2bn :: "byte list \<Rightarrow> nat" where
  "BN_bin2bn bs = foldl (\<lambda>v b. v * 256 + unat b) 0 bs"

lemma BN_bn2bin_0 [simp]: "BN_bn2bin 0 = []"
  by (simp add: BN_bn2bin.simps)

lemma BN_bin2bn_snoc: "BN_bin2bn (bs @ [b]) = BN_bin2bn bs * 256 + unat b"
  by (simp add: BN_bin2bn_def)

lemma BN_bin2bn_bn2bin: "BN_bin2bn (BN_bn2bin n) = n"
proof (induction n rule: BN_bn2bin.induct)
  case (1 n)
  have "unat (word_of_nat (n mod 256) :: byte) = n mod 256"
    by (simp add: unat_of_nat)
  with 1 show ?case
    by (cases "n = 0") (auto simp: BN_bn2bin.simps [of n] BN_bin2bn_snoc BN_bin2bn_def [of "[]"])
qed

lemma length_BN_bn2bin: "n < 256 ^ k \<Longrightarrow> length (BN_bn2bin n) \<le> k"
proof (induction k arbitrary: n)
  case (Suc k)
  then have "n div 256 < 256 ^ k" by (simp add: less_mult_imp_div_less mult.commute)
  from Suc.IH [OF this] show ?case by (subst BN_bn2bin.simps) auto
qed simp

lemma length_BN_bn2bin_ge: "256 ^ k \<le> n \<Longrightarrow> k < length (BN_bn2bin n)"
proof (induction k arbitrary: n)
  case 0
  then show ?case by (subst BN_bn2bin.simps) auto
next
  case (Suc k)
  then have "256 ^ k \<le> n div 256" by (simp add: less_eq_div_iff_mult_less_eq mult.commute)
  moreover have "n \<noteq> 0" using Suc.prems by (auto intro: ccontr)
  ultimately show ?case using Suc.IH by (subst BN_bn2bin.simps) auto
qed

lemma BN_bin2bn_append_zeros: "BN_bin2bn (bs @ replicate k 0) = BN_bin2bn bs * 256 ^ k"
proof (induction k)
  case (Suc k)
  have "bs @ replicate (Suc k) 0 = (bs @ replicate k 0) @ [0]"
    by (simp add: replicate_append_same)
  then show ?case using Suc by (simp only: BN_bin2bn_snoc) simp
qed simp

section \<open>Creating a session\<close>

definition DH_prime :: "byte list" where
  "DH_prime =
     [0xff, 0xff, 0xff, 0xff, 0xff, 0xff, 0xff, 0xff, 0xc9,
      0x0f, 0xda, 0xa2, 0x21, 0x68, 0xc2, 0x34, 0xc4, 0xc6,
      0x62, 0x8b, 0x80, 0xdc, 0x1c, 0xd1, 0x29, 0x02, 0x4e,
      0x08, 0x8a, 0x67, 0xcc, 0x74, 0x02, 0x0b, 0xbe, 0xa6,
      0x3b, 0x13, 0x9b, 0x22, 0x51, 0x4a, 0x08, 0x79, 0x8e,
      0x34, 0x04, 0xdd, 0xef, 0x95, 0x19, 0xb3, 0xcd, 0x3a,
      0x43, 0x1b, 0x30, 0x2b, 0x0a, 0x6d, 0xf2, 0x5f, 0x14,
      0x37, 0x4f, 0xe1, 0x35, 0x6d, 0x6d, 0x51, 0xc2, 0x45,
      0xe4, 0x85, 0xb5, 0x76, 0x62, 0x5e, 0x7e, 0xc6, 0xf4,
      0x4c, 0x42, 0xe9, 0xa6, 0x3a, 0x36, 0x20, 0xff, 0xff,
      0xff, 0xff, 0xff, 0xff, 0xff, 0xff]"

definition DH_generator :: "byte list" where
  "DH_generator = [2]"

text \<open>\<open>calloc (1, sizeof (SESSION))\<close>.\<close>

definition zero_ctx :: shn_ctx where
  "zero_ctx = \<lparr>R = replicate N 0, CRC = replicate N 0, initR = replicate N 0,
     konst = 0, sbuf = 0, mbuf = 0, nbuf = 0\<rparr>"

definition zero_user_info :: ds_user_info where
  "zero_user_info = \<lparr>ui_username = [], ui_country = [], ui_type = [], ui_expiry = 0,
     ui_server_host = [], ui_server_port = 0, ui_last_ping = 0\<rparr>"

definition zero_session :: session where
  "zero_session =
     \<lparr>ap_sock = 0, server_host = [], server_port = 0, client_OS = 0,
      client_id = replicate 4 0, client_revision = 0,
      client_random_16 = replicate 16 0, server_random_16 = replicate 16 0,
      random_256 = replicate 256 0, username = [], username_len = 0, password = [],
      salt = replicate 10 0, init_client_packet = None, init_server_packet = None,
      auth_hash = replicate 20 0, dh_priv = 0, dh_pub = 0, rsa_n = 0,
      my_priv_key = replicate 96 0, my_pub_key = replicate 96 0,
      rsa_pub_exp = replicate 128 0, remote_pub_key = replicate 96 0,
      shared_key = replicate 96 0, key_hmac = replicate 20 0,
      key_recv = replicate 32 0, key_send = replicate 32 0,
      key_recv_IV = 0, key_send_IV = 0, shn_recv = zero_ctx, shn_send = zero_ctx,
      puzzle_denominator = 0, puzzle_solution = replicate 8 0, puzzle_magic = 0,
      auth_hmac = replicate 20 0, cache_hash = replicate 20 0,
      user_info = zero_user_info\<rparr>"

text \<open>
  \<open>session_init_client\<close>.  The parameters are what OpenSSL and the system give:
  the result of \<open>RAND_bytes\<close>, the modulus of the RSA key if one could be
  generated, the Diffie-Hellman key pair if one could be generated, and the
  process id.  Both big numbers are stored from the start of their arrays.
\<close>

definition session_init_client ::
  "byte list \<Rightarrow> nat option \<Rightarrow> (nat \<times> nat) option \<Rightarrow> nat \<Rightarrow> session result" where
  "session_init_client rand16 rsa dh pid =
     (let s = zero_session\<lparr>client_OS := 0, client_id := [1, 4, 1, 1], client_revision := 99999,
                client_random_16 := take 16 rand16\<rparr>
      in case rsa of None \<Rightarrow> Inl Assert_Failed
       | Some n \<Rightarrow>
           (case dh of None \<Rightarrow> Inl Assert_Failed
            | Some (priv, pub) \<Rightarrow>
                Inr (s\<lparr>rsa_n := n, dh_priv := priv, dh_pub := pub,
                  my_priv_key := store_at (my_priv_key s) 0 (BN_bn2bin priv),
                  my_pub_key := store_at (my_pub_key s) 0 (BN_bn2bin pub),
                  cache_hash := [word_of_nat pid, 0xc2, 0xaa, 0x05, 0xe8, 0x25, 0xa7, 0xb5, 0xe4, 0xe6,
                                 0x59, 0x0f, 0x3d, 0xd0, 0xbe, 0x0a, 0xef, 0x20, 0x51, 0x95],
                  ap_sock := -1, username := [], server_host := [], server_port := 0,
                  key_recv_IV := 0, key_send_IV := 0,
                  user_info := (user_info s)\<lparr>ui_username := [], ui_country := [],
                                  ui_server_host := [], ui_server_port := 0\<rparr>\<rparr>)))"

definition session_auth_set :: "session \<Rightarrow> string \<Rightarrow> string \<Rightarrow> session" where
  "session_auth_set s user pass =
     (let s = s\<lparr>user_info := (user_info s)\<lparr>ui_username := DSFYstrncpy user 256\<rparr>,
                username := DSFYstrncpy user 256\<rparr>
      in s\<lparr>username_len := word_of_nat (length (username s)),
           password := DSFYstrncpy pass 256\<rparr>)"

section \<open>Connecting\<close>

text \<open>One entry of the list \<open>getaddrinfo\<close> returns, with what \<open>socket\<close> and \<open>connect\<close> do to it.\<close>

record addrinfo =
  ai_inet :: bool
  ai_socket :: int
  ai_connects :: bool

fun try_addresses :: "addrinfo list \<Rightarrow> int \<Rightarrow> int" where
  "try_addresses [] sock = sock"
| "try_addresses (ai # ais) sock =
     (if \<not> ai_inet ai then try_addresses ais sock
      else if ai_socket ai < 0 then try_addresses ais (ai_socket ai)
      else if ai_connects ai then ai_socket ai
      else try_addresses ais (-1))"

text \<open>The C string that starts in cell \<open>i\<close> of an allocated block.\<close>

function cstring_at :: "char option list \<Rightarrow> nat \<Rightarrow> string result" where
  "cstring_at cells i =
     (if length cells \<le> i then Inl Out_Of_Bounds
      else case cells ! i of
        None \<Rightarrow> Inl Uninit
      | Some c \<Rightarrow> if c = CHR 0x00 then Inr []
                  else rbind (cstring_at cells (i + 1)) (\<lambda>s. Inr (c # s)))"
  by pat_completeness auto
termination
  by (relation "measure (\<lambda>(cells, i). length cells - i)") auto

declare cstring_at.simps [simp del]

text \<open>\<open>sscanf (service, "%[^:]:%5s\n", host, port)\<close>; \<open>None\<close> when it does not convert both.\<close>

definition scan_service :: "string \<Rightarrow> (string \<times> string) option" where
  "scan_service s =
     (let host = takeWhile (\<lambda>c. c \<noteq> CHR '':'') s;
          rest = dropWhile (\<lambda>c. c \<noteq> CHR '':'') s;
          port = takeWhile (\<lambda>c. \<not> isspace c) (take 5 (dropWhile isspace (tl rest)))
      in if host = [] \<or> rest = [] \<or> port = [] then None else Some (host, port))"

definition atoi_digits :: "string \<Rightarrow> int" where
  "atoi_digits s =
     foldl (\<lambda>v c. v * 10 + (of_char c - 48)) 0
       (takeWhile (\<lambda>c. 48 \<le> (of_char c :: nat) \<and> (of_char c :: nat) \<le> 57) s)"

text \<open>
  The loop over the service list.  \<open>service\<close> is an index into the allocated
  block; after an entry it moves on by \<open>strlen (host) + 7\<close>, the length of an
  entry whose port has five digits.  The result is the socket together with
  the host and port last looked at, or \<open>None\<close> when \<open>sscanf\<close> failed.
\<close>

function service_loop ::
  "(string \<Rightarrow> string \<Rightarrow> addrinfo list option) \<Rightarrow> char option list \<Rightarrow> nat \<Rightarrow>
   string \<times> string \<Rightarrow> int \<Rightarrow> ((string \<times> string) option \<times> int) result" where
  "service_loop resolve cells service prev sock =
     (if length cells \<le> service then Inl Out_Of_Bounds
      else case cells ! service of
        None \<Rightarrow> Inl Uninit
      | Some c \<Rightarrow>
          if c = CHR 0x00 then Inr (Some prev, sock)
          else rbind (cstring_at cells service) (\<lambda>str.
            case scan_service str of
              None \<Rightarrow> Inr (None, sock)
            | Some (host, port) \<Rightarrow>
                (case resolve host port of
                   None \<Rightarrow> service_loop resolve cells (service + length host + 7) (host, port) sock
                 | Some ais \<Rightarrow>
                     let sock = try_addresses ais sock in
                     if sock \<noteq> -1 then Inr (Some (host, port), sock)
                     else service_loop resolve cells (service + length host + 7) (host, port) sock)))"
  by pat_completeness auto
termination
  by (relation "measure (\<lambda>(r, cells, service, l, s). length cells - service)") auto

declare service_loop.simps [simp del]

definition fallback_service :: string where
  "fallback_service = ''a6.spotify.com:4070'' @ [CHR 0x0A]"

text \<open>
  The list \<open>dns_srv_list\<close> returned is overwritten with \<open>NULL\<close> at once, so the
  block is always the 200 byte fallback, of which only the string is written.
\<close>

definition service_block :: "char option list" where
  "service_block =
     map Some (fallback_service @ [CHR 0x00]) @ replicate (200 - length fallback_service - 1) None"

definition session_connect ::
  "(string \<Rightarrow> string option) \<Rightarrow> (string \<Rightarrow> string \<Rightarrow> addrinfo list option) \<Rightarrow>
   session \<Rightarrow> (int \<times> session) result" where
  "session_connect srv_list resolve s =
     rbind (service_loop resolve service_block 0 ([], []) (ap_sock s)) (\<lambda>(found, sock).
       let s = s\<lparr>ap_sock := sock\<rparr> in
       case found of
         None \<Rightarrow> Inr (-1, s)
       | Some (host, port) \<Rightarrow>
           if sock = -1 then Inr (-1, s)
           else Inr (0, s\<lparr>server_host := DSFYstrncpy host 256,
                          server_port := nat (atoi_digits port mod 65536),
                          user_info := (user_info s)\<lparr>ui_server_host := DSFYstrncpy host 256,
                                         ui_server_port := sint (word_of_int (atoi_digits port) :: u16)\<rparr>\<rparr>))"

definition session_disconnect :: "session \<Rightarrow> session" where
  "session_disconnect s =
     (let s = (if ap_sock s \<noteq> -1 then s\<lparr>ap_sock := -1\<rparr> else s)
      in s\<lparr>key_recv_IV := 0, key_send_IV := 0,
           user_info := (user_info s)\<lparr>ui_username := [], ui_country := [],
                           ui_server_host := [], ui_server_port := 0\<rparr>\<rparr>)"

text \<open>
  \<open>session_free\<close>: what it closes and frees.  The two initial packets belong to
  \<open>do_auth\<close> and are not freed here.
\<close>

datatype freed = Close_Socket int | DH_free | RSA_free | Free_Session

definition session_free :: "session \<Rightarrow> freed list" where
  "session_free s =
     (if ap_sock s \<noteq> -1 then [Close_Socket (ap_sock s)] else []) @ [DH_free, RSA_free, Free_Session]"

section \<open>Properties\<close>

text \<open>The block holds one entry, its NUL, and nothing that was ever written behind it.\<close>

lemma service_block_entry: "cstring_at service_block 0 = Inr fallback_service"
  by (simp add: cstring_at.simps service_block_def fallback_service_def)

lemma service_block_behind: "service_block ! 21 = None" "length service_block = 200"
  "service_block ! 0 = Some (CHR ''a'')"
  by (simp_all add: service_block_def fallback_service_def nth_append)

lemma scan_fallback: "scan_service fallback_service = Some (''a6.spotify.com'', ''4070'')"
  by (simp add: scan_service_def fallback_service_def isspace_def Let_def)

lemma atoi_4070: "atoi_digits ''4070'' = 4070"
  by (simp add: atoi_digits_def)

lemma service_loop_behind: "service_loop resolve service_block 21 prev sock = Inl Uninit"
  by (subst service_loop.simps) (simp add: service_block_behind)

lemma service_loop_first:
  "service_loop resolve service_block 0 prev sock =
     (case resolve ''a6.spotify.com'' ''4070'' of
        None \<Rightarrow> Inl Uninit
      | Some ais \<Rightarrow>
          if try_addresses ais sock \<noteq> -1
          then Inr (Some (''a6.spotify.com'', ''4070''), try_addresses ais sock)
          else Inl Uninit)"
  by (subst service_loop.simps)
     (simp add: service_block_behind service_block_entry scan_fallback service_loop_behind
       Let_def split: option.splits)

text \<open>
  When the access point can be reached, \<open>session_connect\<close> returns 0 with the socket, and
  records host and port both in the session and in the user information; the
  answer of the DNS lookup plays no part in it.
\<close>

lemma session_connect_reachable:
  assumes "resolve ''a6.spotify.com'' ''4070'' = Some ais"
    and "try_addresses ais (ap_sock s) = fd" and "fd \<noteq> -1"
  shows "\<exists>s'. session_connect srv_list resolve s = Inr (0, s') \<and> ap_sock s' = fd \<and>
     server_host s' = ''a6.spotify.com'' \<and> server_port s' = 4070 \<and>
     ui_server_host (user_info s') = ''a6.spotify.com'' \<and> ui_server_port (user_info s') = 4070"
  using assms
  by (simp add: session_connect_def service_loop_first Let_def atoi_4070 DSFYstrncpy_def)

lemma session_connect_reachable_witness:
  "\<exists>s'. session_connect (\<lambda>_. Some ''elsewhere'')
       (\<lambda>_ _. Some [\<lparr>ai_inet = True, ai_socket = 7, ai_connects = True\<rparr>]) zero_session =
       Inr (0, s') \<and> ap_sock s' = 7 \<and> server_host s' = ''a6.spotify.com'' \<and>
     server_port s' = 4070 \<and> ui_server_host (user_info s') = ''a6.spotify.com'' \<and>
     ui_server_port (user_info s') = 4070"
  by (rule session_connect_reachable [where ais = "[\<lparr>ai_inet = True, ai_socket = 7, ai_connects = True\<rparr>]"])
     (simp_all add: zero_session_def)

text \<open>
  When the access point cannot be reached, the loop steps over the entry as if its port had five
  digits, lands one cell behind the terminating NUL and tests memory that was
  never written: the function has no defined way to report the failure.
\<close>

lemma session_connect_unreachable:
  assumes "resolve ''a6.spotify.com'' ''4070'' = None \<or>
     (\<exists>ais. resolve ''a6.spotify.com'' ''4070'' = Some ais \<and> try_addresses ais (ap_sock s) = -1)"
  shows "session_connect srv_list resolve s = Inl Uninit"
  using assms by (auto simp: session_connect_def service_loop_first)

lemma session_connect_unreachable_witness:
  "session_connect (\<lambda>_. None) (\<lambda>_ _. None) zero_session = Inl Uninit"
  by (rule session_connect_unreachable) simp

text \<open>
  The array holds the number left-aligned: read back as 96 bytes it is the
  public key times a power of 256.
\<close>

lemma store_from_zero:
  assumes "n < 256 ^ k"
  shows "store_at (replicate k 0) 0 (BN_bn2bin n) = BN_bn2bin n @ replicate (k - length (BN_bn2bin n)) 0"
  using length_BN_bn2bin [OF assms] by (simp add: store_at_def)

lemma left_aligned_iff:
  assumes "n < 256 ^ k" "n \<noteq> 0"
  shows "BN_bin2bn (store_at (replicate k 0) 0 (BN_bn2bin n)) = n \<longleftrightarrow> length (BN_bn2bin n) = k"
proof -
  have "BN_bin2bn (store_at (replicate k 0) 0 (BN_bn2bin n)) = n * 256 ^ (k - length (BN_bn2bin n))"
    by (simp only: store_from_zero [OF assms(1)] BN_bin2bn_append_zeros BN_bin2bn_bn2bin)
  moreover have "n * 256 ^ m = n \<longleftrightarrow> m = 0" for m :: nat
    using assms(2) by simp
  ultimately show ?thesis
    using length_BN_bn2bin [OF assms(1)] by auto
qed

text \<open>
  The public key sent to the server is the Diffie-Hellman public key exactly when that has no
  leading zero byte; otherwise the array is the key shifted left.
\<close>

lemma my_pub_key_faithful_iff:
  assumes "session_init_client rand16 (Some n) (Some (priv, pub)) pid = Inr s"
    and "pub < 256 ^ 96" and "pub \<noteq> 0"
  shows "BN_bin2bn (my_pub_key s) = pub \<longleftrightarrow> 256 ^ 95 \<le> pub"
proof -
  have "my_pub_key s = store_at (replicate 96 0) 0 (BN_bn2bin pub)"
    using assms(1) by (auto simp: session_init_client_def zero_session_def Let_def)
  then have "BN_bin2bn (my_pub_key s) = pub \<longleftrightarrow> length (BN_bn2bin pub) = 96"
    using left_aligned_iff [OF assms(2,3)] by simp
  also have "\<dots> \<longleftrightarrow> 256 ^ 95 \<le> pub"
  proof
    assume l: "length (BN_bn2bin pub) = 96"
    show "256 ^ 95 \<le> pub"
    proof (rule ccontr)
      assume "\<not> 256 ^ 95 \<le> pub"
      then have "length (BN_bn2bin pub) \<le> 95" by (intro length_BN_bn2bin) simp
      with l show False by simp
    qed
  next
    assume "256 ^ 95 \<le> pub"
    then have "95 < length (BN_bn2bin pub)" by (rule length_BN_bn2bin_ge)
    with length_BN_bn2bin [OF assms(2)] show "length (BN_bn2bin pub) = 96" by simp
  qed
  finally show ?thesis .
qed

lemma my_pub_key_faithful_iff_witness:
  "\<exists>s. session_init_client [] (Some 15) (Some (3, 8)) 1 = Inr s \<and> BN_bin2bn (my_pub_key s) \<noteq> 8"
proof -
  obtain s where s: "session_init_client [] (Some 15) (Some (3, 8)) 1 = Inr s"
    by (simp add: session_init_client_def Let_def)
  have "(8::nat) < 256 ^ 96" "(8::nat) \<noteq> 0" "\<not> (256 ^ 95 \<le> (8::nat))" by simp_all
  with my_pub_key_faithful_iff [OF s] have "BN_bin2bn (my_pub_key s) \<noteq> 8" by blast
  with s show ?thesis by blast
qed

end
