(* ===== verification/Packet.thy ===== *)
theory Packet
  imports Session
begin

text \<open>
  \<^verbatim>\<open>src/src/lib/packet.c\<close>: one packet is a command byte, a 16-bit big-endian
  length, the payload and four MAC bytes, all under the Shannon keys of the
  session, rekeyed for every packet with its sequence number.

  Proved here: what one side writes the other side reads, packet after packet,
  however the bytes are delivered; and the MAC plays no part in it.
\<close>

section \<open>Operations\<close>

text \<open>
  \<open>packet_write\<close>.  A payload of \<open>NULL\<close> leaves that part of the allocated
  block unwritten.
\<close>

definition packet_write ::
  "session \<Rightarrow> net \<Rightarrow> byte \<Rightarrow> byte list option \<Rightarrow> u16 \<Rightarrow> (int \<times> session \<times> net) result" where
  "packet_write s n cmd payload len =
     (let c = shn_nonce (shn_send s) (put_u32 (key_send_IV s)) in
      rbind (case payload of
               None \<Rightarrow> if len = 0 then Inr [] else Inl Uninit
             | Some p \<Rightarrow> if unat len \<le> length p then Inr (take (unat len) p) else Inl Out_Of_Bounds)
        (\<lambda>body.
           let (c, buf) = shn_encrypt c (cmd # put_u16 len @ body);
               (c, mac) = shn_finish c 4
           in rbind (block_write (tx_q n) (buf @ mac)) (\<lambda>(ret, out, tx').
                let s = s\<lparr>shn_send := c, key_send_IV := key_send_IV s + 1\<rparr>;
                    n = n\<lparr>tx_q := tx', wire := wire n @ out\<rparr>
                in Inr (if ret \<noteq> 3 + int (unat len) + 4 then -1 else 0, s, n))))"

text \<open>
  \<open>packet_read\<close>.  On success the header and the whole allocated payload block,
  the four MAC bytes included.  The failures return -1 with the cipher context
  already advanced where the code has advanced it.
\<close>

definition packet_read ::
  "session \<Rightarrow> net \<Rightarrow> ((byte \<times> u16 \<times> byte list) option \<times> session \<times> net) result" where
  "packet_read s n =
     rbind (block_read (rx_q n) 3) (\<lambda>(ret, h, rx').
       let n = n\<lparr>rx_q := rx'\<rparr> in
       if ret \<noteq> 3 then Inr (None, s, n)
       else
         let c = shn_nonce (shn_recv s) (put_u32 (key_recv_IV s));
             (c, h) = shn_decrypt c h;
             s = s\<lparr>shn_recv := c\<rparr>;
             cmd = h ! 0;
             len = get_u16 (h ! 1) (h ! 2);
             packet_len = unat len + 4
         in rbind (block_read (rx_q n) packet_len) (\<lambda>(ret, p, rx').
              let n = n\<lparr>rx_q := rx'\<rparr> in
              if ret \<noteq> int packet_len then Inr (None, s, n)
              else
                let (c, p) = shn_decrypt (shn_recv s) p;
                    s = s\<lparr>shn_recv := c, key_recv_IV := key_recv_IV s + 1\<rparr>
                in Inr (Some (cmd, len, p), s, n)))"

section \<open>The bytes of a packet\<close>

text \<open>What \<open>packet_write\<close> hands to the socket.\<close>

definition packet_bytes :: "session \<Rightarrow> byte \<Rightarrow> byte list \<Rightarrow> byte list" where
  "packet_bytes s cmd body =
     (let c = shn_nonce (shn_send s) (put_u32 (key_send_IV s));
          (c, buf) = shn_encrypt c (cmd # put_u16 (word_of_nat (length body)) @ body);
          (c, mac) = shn_finish c 4
      in buf @ mac)"

text \<open>The sender's session after it.\<close>

definition sent_state :: "session \<Rightarrow> byte \<Rightarrow> byte list \<Rightarrow> session" where
  "sent_state s cmd body =
     (let c = shn_nonce (shn_send s) (put_u32 (key_send_IV s));
          c = fst (shn_encrypt c (cmd # put_u16 (word_of_nat (length body)) @ body))
      in s\<lparr>shn_send := fst (shn_finish c 4), key_send_IV := key_send_IV s + 1\<rparr>)"

lemma length_packet_bytes: "length (packet_bytes s cmd body) = 3 + length body + 4"
  by (simp add: packet_bytes_def Let_def split_def enc.length_out length_shn_finish)

lemma packet_write_result:
  assumes "packet_write s n cmd (Some body) (word_of_nat (length body)) = Inr (r, s', n')"
    and "length body < 65536"
  shows "s' = sent_state s cmd body"
    and "\<exists>k. wire n' = wire n @ take k (packet_bytes s cmd body)"
    and "r = 0 \<Longrightarrow> wire n' = wire n @ packet_bytes s cmd body"
    and "r = 0 \<or> r = -1"
    and "rx_q n' = rx_q n"
proof -
  let ?e = "shn_encrypt (shn_nonce (shn_send s) (put_u32 (key_send_IV s)))
    (cmd # put_u16 (word_of_nat (length body)) @ body)"
  have body: "take (unat (word_of_nat (length body) :: u16)) body = body"
    "unat (word_of_nat (length body) :: u16) \<le> length body"
    using assms(2) by (simp_all add: unat_word_of_nat_u16)
  have bytes: "packet_bytes s cmd body = snd ?e @ snd (shn_finish (fst ?e) 4)"
    by (simp add: packet_bytes_def Let_def split_def)
  obtain ret out tx' where w: "block_write (tx_q n) (packet_bytes s cmd body) = Inr (ret, out, tx')"
    and eqs: "s' = sent_state s cmd body" "n' = n\<lparr>tx_q := tx', wire := wire n @ out\<rparr>"
      "r = (if ret \<noteq> 3 + int (length body) + 4 then -1 else 0)"
    using assms unfolding bytes
    by (auto simp: packet_write_def body Let_def split_def rbind_Inr_iff sent_state_def
        unat_word_of_nat_u16)
  show "s' = sent_state s cmd body" by (fact eqs(1))
  show "\<exists>k. wire n' = wire n @ take k (packet_bytes s cmd body)"
    using block_write_result(2) [OF w] eqs(2) by auto
  show "r = 0 \<Longrightarrow> wire n' = wire n @ packet_bytes s cmd body"
    using block_write_result(1) [OF w] eqs by (auto split: if_splits)
  show "r = 0 \<or> r = -1" "rx_q n' = rx_q n" using eqs by simp_all
qed

section \<open>Two ends of one direction\<close>

text \<open>
  The reader \<open>r\<close> is in step with the writer \<open>s\<close>: same key material, same
  sequence number.  Nothing else of the cipher contexts matters.
\<close>

definition in_step :: "session \<Rightarrow> session \<Rightarrow> bool" where
  "in_step s r \<longleftrightarrow>
     initR (shn_send s) = initR (shn_recv r) \<and> key_send_IV s = key_recv_IV r"

lemma sent_state_simps:
  "initR (shn_send (sent_state s cmd body)) = initR (shn_send s)"
  "key_send_IV (sent_state s cmd body) = key_send_IV s + 1"
  by (simp_all add: sent_state_def Let_def frame shn_nonce_ok)

text \<open>\<open>packet_read\<close> when both reads are complete.\<close>

lemma packet_read_complete:
  assumes "block_read (rx_q n) 3 = Inr (3, h, rx1)"
    and "shn_decrypt (shn_nonce (shn_recv s) (put_u32 (key_recv_IV s))) h = (c1, h')"
    and "l = unat (get_u16 (h' ! 1) (h' ! 2)) + 4"
    and "block_read rx1 l = Inr (int l, p, rx2)"
    and "shn_decrypt c1 p = (c2, p')"
  shows "packet_read s n = Inr (Some (h' ! 0, get_u16 (h' ! 1) (h' ! 2), p'),
    s\<lparr>shn_recv := c2, key_recv_IV := key_recv_IV s + 1\<rparr>, n\<lparr>rx_q := rx2\<rparr>)"
  using assms by (simp add: packet_read_def)

text \<open>
  Reading a packet whose last four bytes are arbitrary.  The header is decrypted
  in a call of its own and the MAC as if it were payload; neither disturbs the
  command, the length or the payload.
\<close>

lemma packet_read_any_mac:
  assumes step: "in_step s r" and len: "length body < 65536" and m: "length mac = 4"
    and rx: "pending (rx_q n) =
      take (3 + length body) (packet_bytes s cmd body) @ mac @ rest"
  shows "\<exists>r' n' tail. packet_read r n =
       Inr (Some (cmd, word_of_nat (length body), body @ tail), r', n') \<and>
     length tail = 4 \<and> in_step (sent_state s cmd body) r' \<and> pending (rx_q n') = rest"
proof -
  let ?hdr = "cmd # put_u16 (word_of_nat (length body))"
  let ?cs = "shn_nonce (shn_send s) (put_u32 (key_send_IV s))"
  let ?cr = "shn_nonce (shn_recv r) (put_u32 (key_recv_IV r))"
  let ?e = "shn_encrypt ?cs (?hdr @ body)"
  have ok: "shn_ok ?cs" "shn_ok ?cr" by (simp_all add: shn_nonce_ok)
  have can: "canon ?cs = canon ?cr"
    using step shn_nonce_same [of "shn_send s" "shn_recv r"] unfolding in_step_def by simp
  have el: "length (snd ?e) = 3 + length body" by (simp add: enc.length_out)
  have sent: "take (3 + length body) (packet_bytes s cmd body) = snd ?e"
  proof -
    have "packet_bytes s cmd body = snd ?e @ snd (shn_finish (fst ?e) 4)"
      by (simp add: packet_bytes_def Let_def split_def)
    then show ?thesis unfolding el [symmetric] by (simp only: take_length_append)
  qed
  define h where "h = take 3 (snd ?e)"
  define p where "p = drop 3 (snd ?e)"
  have hp: "snd ?e = h @ p" "length h = 3" "length p = length body"
    using el by (simp_all add: h_def p_def)
  have e: "snd (shn_encrypt ?cr (?hdr @ body)) = h @ p"
    using shn_encrypt_same(1) [OF ok(1) can, of "?hdr @ body"] hp(1) by simp
  have dec: "snd (shn_decrypt ?cr (h @ p)) = ?hdr @ body"
    using shn_decrypt_of_cipher(1) [of ?cr "?hdr @ body"] unfolding e .
  let ?c1 = "fst (shn_decrypt ?cr h)"
  have split: "snd (shn_decrypt ?cr h) @ snd (shn_decrypt ?c1 p) = ?hdr @ body"
    using shn_decrypt_append(1) [OF ok(2), of h p] dec by simp
  have eqs: "snd (shn_decrypt ?cr h) = ?hdr \<and> snd (shn_decrypt ?c1 p) = body"
  proof (rule append_eq_append_conv [THEN iffD1])
    show "length (snd (shn_decrypt ?cr h)) = length ?hdr \<or>
        length (snd (shn_decrypt ?c1 p)) = length body"
      by (simp add: dec.length_out hp(2))
    show "snd (shn_decrypt ?cr h) @ snd (shn_decrypt ?c1 p) = ?hdr @ body" by (fact split)
  qed
  then have d1: "snd (shn_decrypt ?cr h) = ?hdr" and d2: "snd (shn_decrypt ?c1 p) = body"
    by simp_all
  have ok1: "shn_ok ?c1" by (rule shn_decrypt_ok [OF ok(2)])
  let ?c2 = "fst (shn_decrypt ?c1 p)"
  have d3: "snd (shn_decrypt ?c1 (p @ mac)) = body @ snd (shn_decrypt ?c2 mac)"
    using shn_decrypt_append(1) [OF ok1, of p mac] d2 by simp
  have rxe: "pending (rx_q n) = h @ p @ mac @ rest"
    using rx sent hp(1) by simp
  obtain rx1 where r1: "block_read (rx_q n) 3 = Inr (3, h, rx1)" "pending rx1 = p @ mac @ rest"
    using block_read_enough [of 3 "rx_q n"] rxe hp(2) by auto
  let ?l = "length body + 4"
  obtain rx2 where r2: "block_read rx1 ?l = Inr (int ?l, p @ mac, rx2)" "pending rx2 = rest"
    using block_read_enough [of ?l rx1] r1(2) hp(3) m by auto
  let ?r' = "r\<lparr>shn_recv := fst (shn_decrypt ?c1 (p @ mac)), key_recv_IV := key_recv_IV r + 1\<rparr>"
  have g: "get_u16 (?hdr ! 1) (?hdr ! 2) = word_of_nat (length body)"
    using get_u16_put [of "word_of_nat (length body)"] by (simp add: numeral_2_eq_2)
  have l: "?l = unat (get_u16 (?hdr ! 1) (?hdr ! 2)) + 4"
    unfolding g using len by (simp only: unat_word_of_nat_u16)
  have s1: "shn_decrypt ?cr h = (?c1, ?hdr)"
    using d1 by (metis prod.collapse)
  have s2: "shn_decrypt ?c1 (p @ mac) =
      (fst (shn_decrypt ?c1 (p @ mac)), body @ snd (shn_decrypt ?c2 mac))"
    using d3 by (metis prod.collapse)
  have "packet_read r n =
      Inr (Some (cmd, word_of_nat (length body), body @ snd (shn_decrypt ?c2 mac)), ?r',
        n\<lparr>rx_q := rx2\<rparr>)"
    using packet_read_complete [OF r1(1) s1 l r2(1) s2] unfolding g by simp
  moreover have "in_step (sent_state s cmd body) ?r'"
    using step ok1 ok(2)
    by (simp add: in_step_def sent_state_simps shn_decrypt_frame shn_nonce_frame)
  ultimately show ?thesis
    using r2(2) m by (auto simp: dec.length_out)
qed


text \<open>
  A run of packets: what \<open>packet_write\<close> produces for a list of commands, one
  after the other, and what a loop of \<open>packet_read\<close> makes of a byte stream.
\<close>

fun packets_bytes :: "session \<Rightarrow> (byte \<times> byte list) list \<Rightarrow> byte list" where
  "packets_bytes s [] = []"
| "packets_bytes s ((cmd, body) # ps) =
     packet_bytes s cmd body @ packets_bytes (sent_state s cmd body) ps"

fun send_packets :: "session \<Rightarrow> net \<Rightarrow> (byte \<times> byte list) list \<Rightarrow> (int \<times> session \<times> net) result" where
  "send_packets s n [] = Inr (0, s, n)"
| "send_packets s n ((cmd, body) # ps) =
     rbind (packet_write s n cmd (Some body) (word_of_nat (length body))) (\<lambda>(r, s, n).
       if r = 0 then send_packets s n ps else Inr (r, s, n))"

fun read_packets :: "session \<Rightarrow> net \<Rightarrow> nat \<Rightarrow> ((byte \<times> byte list) list \<times> session \<times> net) result" where
  "read_packets s n 0 = Inr ([], s, n)"
| "read_packets s n (Suc k) =
     rbind (packet_read s n) (\<lambda>(p, s, n).
       case p of
         None \<Rightarrow> Inr ([], s, n)
       | Some (cmd, len, body) \<Rightarrow>
           rbind (read_packets s n k) (\<lambda>(ps, s, n). Inr ((cmd, take (unat len) body) # ps, s, n)))"

lemma send_packets_wire:
  assumes "send_packets s n ps = Inr (0, s', n')" and "\<forall>(c, b) \<in> set ps. length b < 65536"
  shows "wire n' = wire n @ packets_bytes s ps"
  using assms
proof (induction ps arbitrary: s n)
  case (Cons p ps)
  obtain cmd body where p: "p = (cmd, body)" by (cases p)
  from Cons.prems(1) obtain r s1 n1
    where w: "packet_write s n cmd (Some body) (word_of_nat (length body)) = Inr (r, s1, n1)"
      and rest: "(if r = 0 then send_packets s1 n1 ps else Inr (r, s1, n1)) = Inr (0, s', n')"
    by (auto simp: p rbind_Inr_iff)
  have len: "length body < 65536" using Cons.prems(2) by (auto simp: p)
  from rest have r: "r = 0" and "send_packets s1 n1 ps = Inr (0, s', n')"
    by (auto split: if_splits)
  then have "wire n' = wire n1 @ packets_bytes s1 ps"
    using Cons.IH Cons.prems(2) by auto
  with packet_write_result [OF w len] r show ?case by (simp add: p)
qed simp

lemma read_packets_stream:
  assumes "in_step s r" and "\<forall>(c, b) \<in> set ps. length b < 65536"
    and "pending (rx_q n) = packets_bytes s ps @ rest"
  shows "\<exists>r' n'. read_packets r n (length ps) = Inr (ps, r', n') \<and> pending (rx_q n') = rest"
  using assms
proof (induction ps arbitrary: s r n)
  case (Cons p ps)
  obtain cmd body where p: "p = (cmd, body)" by (cases p)
  have len: "length body < 65536" using Cons.prems(2) by (auto simp: p)
  let ?b = "packet_bytes s cmd body"
  let ?mac = "drop (3 + length body) ?b"
  let ?rest = "packets_bytes (sent_state s cmd body) ps @ rest"
  have "pending (rx_q n) = take (3 + length body) ?b @ ?mac @ ?rest"
    using Cons.prems(3) by (simp add: p)
  from packet_read_any_mac [OF Cons.prems(1) len _ this]
  obtain r1 n1 tail where read: "packet_read r n =
      Inr (Some (cmd, word_of_nat (length body), body @ tail), r1, n1)"
    and step: "in_step (sent_state s cmd body) r1" and rx: "pending (rx_q n1) = ?rest"
    by (auto simp: length_packet_bytes)
  obtain r' n' where "read_packets r1 n1 (length ps) = Inr (ps, r', n')" "pending (rx_q n') = rest"
    using Cons.IH [OF step _ rx] Cons.prems(2) by auto
  with read len show ?case by (simp add: p unat_word_of_nat_u16)
qed simp

text \<open>One packet over a socket that takes everything at once.\<close>

lemma block_write_taken:
  "buf \<noteq> [] \<Longrightarrow> length buf \<le> k \<Longrightarrow> block_write (Taken k # es) buf = Inr (int (length buf), buf, es)"
  by (cases buf) (auto simp: block_write_def block_write_loop.simps)

lemma packet_write_taken:
  assumes "length body < 65536" and "tx_q n = Taken k # es" and "length body + 7 \<le> k"
  shows "packet_write s n cmd (Some body) (word_of_nat (length body)) =
     Inr (0, sent_state s cmd body, n\<lparr>tx_q := es, wire := wire n @ packet_bytes s cmd body\<rparr>)"
proof -
  let ?e = "shn_encrypt (shn_nonce (shn_send s) (put_u32 (key_send_IV s)))
    (cmd # put_u16 (word_of_nat (length body)) @ body)"
  have bytes: "packet_bytes s cmd body = snd ?e @ snd (shn_finish (fst ?e) 4)"
    by (simp add: packet_bytes_def Let_def split_def)
  have l: "length (snd ?e @ snd (shn_finish (fst ?e) 4)) = length body + 7"
    using length_packet_bytes [of s cmd body] unfolding bytes by simp
  then have ne: "snd ?e @ snd (shn_finish (fst ?e) 4) \<noteq> []" by auto
  have w: "block_write (Taken k # es) (snd ?e @ snd (shn_finish (fst ?e) 4)) =
      Inr (int (length body + 7), snd ?e @ snd (shn_finish (fst ?e) 4), es)"
    using block_write_taken [OF ne, of k es] assms(3) unfolding l by simp
  have b: "unat (word_of_nat (length body) :: u16) = length body"
    using assms(1) by (rule unat_word_of_nat_u16)
  show ?thesis
    unfolding bytes sent_state_def packet_write_def option.case b Let_def split_def assms(2)
    by (simp add: w)
qed

section \<open>Properties\<close>

text \<open>
  C2: Whatever list of packets one side manages to write, the other side, with
  the matching keys and sequence number, reads back as exactly that list of
  commands and payloads, for any sizes in which the bytes come in, and leaves the
  bytes behind the last packet unread.
\<close>

theorem packets_roundtrip:
  assumes "send_packets s n ps = Inr (0, s', n')" and "wire n = []"
    and "\<forall>(c, b) \<in> set ps. length b < 65536"
    and "initR (shn_send s) = initR (shn_recv r)" and "key_send_IV s = key_recv_IV r"
    and "pending (rx_q m) = wire n' @ rest"
  shows "\<exists>r' m'. read_packets r m (length ps) = Inr (ps, r', m') \<and> pending (rx_q m') = rest"
  using read_packets_stream [of s r ps m rest] send_packets_wire [OF assms(1,3)] assms(2-)
  by (simp add: in_step_def)

definition net_out :: net where
  "net_out = \<lparr>rx_q = [], tx_q = [Taken 100], wire = []\<rparr>"

definition net_in :: "byte list \<Rightarrow> net" where
  "net_in bs = \<lparr>rx_q = [Chunk (take 2 bs), Eintr, Chunk (drop 2 bs)], tx_q = [], wire = []\<rparr>"

theorem packets_roundtrip_witness:
  "\<exists>r' m'. read_packets zero_session (net_in (packets_bytes zero_session [(4, [1, 2])] @ [9])) 1 =
     Inr ([(4, [1, 2])], r', m') \<and> pending (rx_q m') = [9]"
proof -
  have "packet_write zero_session net_out 4 (Some [1, 2]) 2 = Inr (0, sent_state zero_session 4 [1, 2],
      net_out\<lparr>tx_q := [], wire := packet_bytes zero_session 4 [1, 2]\<rparr>)"
    using packet_write_taken [of "[1, 2]" net_out 100 "[]" zero_session 4] by (simp add: net_out_def)
  then have "send_packets zero_session net_out [(4, [1, 2])] = Inr (0, sent_state zero_session 4 [1, 2],
      net_out\<lparr>tx_q := [], wire := packet_bytes zero_session 4 [1, 2]\<rparr>)"
    by simp
  moreover have "wire net_out = []" by (simp add: net_out_def)
  moreover have "\<forall>(c, b) \<in> set [(4::byte, [1, 2 :: byte])]. length b < 65536" by simp
  moreover have "initR (shn_send zero_session) = initR (shn_recv zero_session)"
    "key_send_IV zero_session = key_recv_IV zero_session"
    by (simp_all add: zero_session_def)
  moreover have "pending (rx_q (net_in (packets_bytes zero_session [(4, [1, 2])] @ [9]))) =
      wire (net_out\<lparr>tx_q := [], wire := packet_bytes zero_session 4 [1, 2]\<rparr>) @ [9]"
    by (simp add: net_in_def del: take_append drop_append)
  ultimately show ?thesis
    using packets_roundtrip [of zero_session net_out "[(4, [1, 2])]"] by simp
qed

text \<open>
  The MAC that ends a packet is never checked: with any four bytes in its
  place the packet is accepted with the same command and payload, and the
  reader is ready for the next one.
\<close>

lemma packet_read_ignores_mac:
  assumes "initR (shn_send s) = initR (shn_recv r)" and "key_send_IV s = key_recv_IV r"
    and "length body < 65536" and "length mac = 4"
    and "pending (rx_q n) = take (3 + length body) (packet_bytes s cmd body) @ mac @ rest"
  shows "\<exists>r' n' tail. packet_read r n =
       Inr (Some (cmd, word_of_nat (length body), body @ tail), r', n') \<and> length tail = 4 \<and>
     initR (shn_recv r') = initR (shn_send s) \<and> key_recv_IV r' = key_send_IV s + 1 \<and>
     pending (rx_q n') = rest"
  using packet_read_any_mac [of s r body mac n cmd rest] assms
  by (auto simp: in_step_def sent_state_simps)

lemma packet_read_ignores_mac_witness:
  "\<exists>r' n' tail. packet_read zero_session
       (net_in (take 5 (packet_bytes zero_session 4 [1, 2]) @ [0, 0, 0, 0] @ [9])) =
       Inr (Some (4, 2, [1, 2] @ tail), r', n') \<and> length tail = 4 \<and>
     initR (shn_recv r') = initR (shn_send zero_session) \<and>
     key_recv_IV r' = key_send_IV zero_session + 1 \<and> pending (rx_q n') = [9]"
proof -
  have "initR (shn_send zero_session) = initR (shn_recv zero_session)"
    "key_send_IV zero_session = key_recv_IV zero_session"
    by (simp_all add: zero_session_def)
  moreover have "length [1, 2 :: byte] < 65536" "length [0, 0, 0, 0 :: byte] = 4" by simp_all
  moreover have "pending (rx_q (net_in xs)) = xs" for xs
    by (simp only: net_in_def net.simps pending.simps append_Nil2 append_take_drop_id)
  then have "pending (rx_q (net_in (take 5 (packet_bytes zero_session 4 [1, 2]) @ [0, 0, 0, 0] @ [9]))) =
      take (3 + length [1, 2 :: byte]) (packet_bytes zero_session 4 [1, 2]) @ [0, 0, 0, 0] @ [9]"
    by simp
  ultimately show ?thesis
    using packet_read_ignores_mac [of zero_session zero_session "[1, 2]" "[0, 0, 0, 0]"] by force
qed

end
