(* ===== verification/Channel.thy ===== *)
theory Channel
  imports Packet
begin

text \<open>
  \<^verbatim>\<open>src/src/lib/channel.c\<close>, \<^verbatim>\<open>channel.h\<close>: the table of data channels inside the
  one connection, and the dispatch of a channel packet to the callback that was
  registered for it.

  The list \<open>head\<close> and the counter are the two static variables of the file.  A
  \<open>CHANNEL *\<close> is modelled by the id of the channel, which the invariant
  \<open>table_ok\<close> shows to be unique; \<open>malloc\<close> does not fail.  A callback together
  with its private pointer is a value of type \<open>'cb\<close>, and what it does is given by
  a function \<open>run\<close> that may change the table and the rest of the world \<open>'w\<close>.
\<close>

section \<open>State\<close>

datatype channel_state = CHANNEL_HEADER | CHANNEL_DATA | CHANNEL_END | CHANNEL_ERROR

record 'cb channel =
  ch_id :: int
  ch_header_id :: u32
  ch_state :: channel_state
  ch_total_header_len :: u32
  ch_total_data_len :: u32
  ch_name :: string
  ch_callback :: 'cb

record 'cb chan_table =
  head :: "'cb channel list"
  next_channel_id :: int

type_synonym ('cb, 'w) runner =
  "'cb \<Rightarrow> 'cb channel \<Rightarrow> byte list \<Rightarrow> 'cb chan_table \<Rightarrow> 'w \<Rightarrow> (int \<times> 'cb chan_table \<times> 'w) result"

text \<open>The list walk both \<open>channel_by_id\<close> and \<open>channel_process\<close> contain.\<close>

definition find_ch :: "int \<Rightarrow> 'cb chan_table \<Rightarrow> 'cb channel option" where
  "find_ch i t = List.find (\<lambda>c. ch_id c = i) (head t)"

text \<open>An assignment through a channel pointer.\<close>

definition upd_ch :: "int \<Rightarrow> ('cb channel \<Rightarrow> 'cb channel) \<Rightarrow> 'cb chan_table \<Rightarrow> 'cb chan_table" where
  "upd_ch i f t = t\<lparr>head := map (\<lambda>c. if ch_id c = i then f c else c) (head t)\<rparr>"

section \<open>Operations\<close>

definition channel_register ::
  "string option \<Rightarrow> 'cb \<Rightarrow> 'cb chan_table \<Rightarrow> 'cb channel \<times> 'cb chan_table" where
  "channel_register name cb t =
     (let i = next_channel_id t;
          next = max_from (i + 1) (map (\<lambda>c. ch_id c + 1) (head t));
          ch = \<lparr>ch_id = i, ch_header_id = 0, ch_state = CHANNEL_HEADER, ch_total_header_len = 0,
                ch_total_data_len = 0,
                ch_name = (case name of None \<Rightarrow> [] | Some s \<Rightarrow> DSFYstrncpy s 256), ch_callback = cb\<rparr>
      in (ch, \<lparr>head = ch # head t, next_channel_id = next\<rparr>))"

fun unlink_ch :: "int \<Rightarrow> 'cb channel list \<Rightarrow> 'cb channel list option" where
  "unlink_ch i [] = None"
| "unlink_ch i (c # cs) = (if ch_id c = i then Some cs else map_option ((#) c) (unlink_ch i cs))"

definition channel_unregister :: "int \<Rightarrow> 'cb chan_table \<Rightarrow> 'cb chan_table result" where
  "channel_unregister i t =
     (case unlink_ch i (head t) of
        None \<Rightarrow> Inl Assert_Failed
      | Some cs \<Rightarrow> Inr \<lparr>head = cs, next_channel_id = min i (next_channel_id t)\<rparr>)"

definition channel_by_id :: "u16 \<Rightarrow> 'cb chan_table \<Rightarrow> 'cb channel option" where
  "channel_by_id i t = find_ch (uint i) t"

text \<open>
  The loop over the headers of a packet.  \<open>buf\<close> is the memory from the first
  header on, which ends behind the MAC; \<open>ptr\<close> the offset of \<open>ptr\<close> in it; \<open>prev\<close>
  the value of \<open>header_len\<close> so far.  \<open>Inr (None, _)\<close> is the early \<open>return 0\<close>, taken
  after a dump of \<open>len\<close> bytes from \<open>ptr\<close> on, which are not all there when \<open>ptr\<close>
  has moved.  Memory of a channel that a callback released is out of bounds.
\<close>

function header_loop ::
  "('cb, 'w) runner \<Rightarrow> int \<Rightarrow> byte list \<Rightarrow> u16 \<Rightarrow> nat \<Rightarrow> u16 \<Rightarrow> u16 \<Rightarrow> 'cb chan_table \<Rightarrow> 'w
   \<Rightarrow> ((u16 \<times> u16) option \<times> 'cb chan_table \<times> 'w) result" where
  "header_loop run i buf len ptr consumed prev t w =
     (if consumed < len then
        rbind (fetch_u16 buf ptr) (\<lambda>hl.
          if hl = 0 then Inr (Some (consumed + 2, hl), t, w)
          else if unat len < unat (consumed + 2) + unat hl then
            (if ptr + 2 + unat len \<le> length buf then Inr (None, t, w) else Inl Out_Of_Bounds)
          else
            let t = upd_ch i (\<lambda>c. c\<lparr>ch_header_id := ch_header_id c + 1\<rparr>) t in
            case find_ch i t of
              None \<Rightarrow> Inl Out_Of_Bounds
            | Some ch \<Rightarrow>
                if length buf < ptr + 2 + unat hl then Inl Out_Of_Bounds
                else rbind (run (ch_callback ch) ch (take (unat hl) (drop (ptr + 2) buf)) t w)
                  (\<lambda>(_, t, w).
                     if find_ch i t = None then Inl Out_Of_Bounds
                     else header_loop run i buf len (ptr + 2 + unat hl) (consumed + 2 + hl) hl
                       (upd_ch i (\<lambda>c. c\<lparr>ch_total_header_len := ch_total_header_len c + ucast hl\<rparr>) t)
                       w))
      else Inr (Some (consumed, prev), t, w))"
  by pat_completeness auto

termination
proof (relation "measure (\<lambda>(run, i, buf, len, ptr, consumed, prev, t, w). length buf - ptr)")
  fix buf :: "byte list" and ptr :: nat and hl :: u16
  assume "fetch_u16 buf ptr = Inr hl"
  then have "ptr < length buf"
    by (cases "ptr < length buf") (simp_all add: fetch_u16_def)
  then show "((run, i, buf, len, ptr + 2 + unat hl, c', hl, t', w'), (run, i, buf, len, ptr, c, l, t, w))
      \<in> measure (\<lambda>(run, i, buf, len, ptr, consumed, prev, t, w). length buf - ptr)"
    for run :: "('c, 'd) runner" and i :: int and len c c' l :: u16 and t t' w w'
    by simp
qed auto

declare header_loop.simps [simp del]

text \<open>\<open>channel_process\<close>, the part for a channel in the state \<open>CHANNEL_HEADER\<close>.\<close>

definition process_header ::
  "('cb, 'w) runner \<Rightarrow> int \<Rightarrow> byte list \<Rightarrow> u16 \<Rightarrow> 'cb chan_table \<Rightarrow> 'w
   \<Rightarrow> (int \<times> 'cb chan_table \<times> 'w) result" where
  "process_header run i buf len t w =
     (if len < 2 then Inl Assert_Failed
      else rbind (header_loop run i buf len 0 0 0 t w) (\<lambda>(r, t, w).
        case r of
          None \<Rightarrow> Inr (0, t, w)
        | Some (consumed, hl) \<Rightarrow>
            if consumed \<noteq> len then Inl Assert_Failed
            else Inr (0, if hl = 0 then upd_ch i (\<lambda>c. c\<lparr>ch_state := CHANNEL_DATA\<rparr>) t else t, w)))"

text \<open>The part for the states \<open>CHANNEL_DATA\<close> and \<open>CHANNEL_ERROR\<close>.\<close>

definition process_data ::
  "('cb, 'w) runner \<Rightarrow> int \<Rightarrow> byte list \<Rightarrow> u16 \<Rightarrow> 'cb chan_table \<Rightarrow> 'w
   \<Rightarrow> (int \<times> 'cb chan_table \<times> 'w) result" where
  "process_data run i buf len t w =
     (let t = (if len = 0 then upd_ch i (\<lambda>c. c\<lparr>ch_state := CHANNEL_END\<rparr>) t else t) in
      case find_ch i t of
        None \<Rightarrow> Inl Out_Of_Bounds
      | Some ch \<Rightarrow>
          if length buf < unat len then Inl Out_Of_Bounds
          else rbind (run (ch_callback ch) ch (take (unat len) buf) t w) (\<lambda>(ret, t, w).
            let t = upd_ch i (\<lambda>c. c\<lparr>ch_total_data_len := ch_total_data_len c + ucast len\<rparr>) t in
            case find_ch i t of
              None \<Rightarrow> Inl Out_Of_Bounds
            | Some ch \<Rightarrow>
                if ch_state ch \<in> {CHANNEL_END, CHANNEL_ERROR}
                then rbind (channel_unregister i t) (\<lambda>t. Inr (ret, t, w))
                else Inr (ret, t, w)))"

text \<open>
  \<open>channel_process (buf, len, error)\<close>; \<open>len - 2\<close> is computed in 16 bits.
\<close>

definition channel_process ::
  "('cb, 'w) runner \<Rightarrow> byte list \<Rightarrow> u16 \<Rightarrow> bool \<Rightarrow> 'cb chan_table \<Rightarrow> 'w
   \<Rightarrow> (int \<times> 'cb chan_table \<times> 'w) result" where
  "channel_process run buf len error t w =
     rbind (fetch_u16 buf 0) (\<lambda>cid.
       let i = uint cid; buf = drop 2 buf; len = len - 2 in
       case find_ch i t of
         None \<Rightarrow> Inr (0, t, w)
       | Some ch \<Rightarrow>
           let t = (if error then upd_ch i (\<lambda>c. c\<lparr>ch_state := CHANNEL_ERROR\<rparr>) t else t) in
           if \<not> error \<and> ch_state ch = CHANNEL_HEADER then process_header run i buf len t w
           else process_data run i buf len t w)"

section \<open>The table\<close>

definition table_ok :: "'cb chan_table \<Rightarrow> bool" where
  "table_ok t \<longleftrightarrow> distinct (map ch_id (head t)) \<and> 0 \<le> next_channel_id t \<and>
     (\<forall>c \<in> set (head t). 0 \<le> ch_id c \<and> ch_id c \<noteq> next_channel_id t)"

definition ids :: "'cb chan_table \<Rightarrow> int set" where
  "ids t = ch_id ` set (head t)"

lemma find_ch_Some: "find_ch i t = Some c \<Longrightarrow> c \<in> set (head t) \<and> ch_id c = i"
  unfolding find_ch_def by (auto simp: find_Some_iff)

lemma find_ch_None: "find_ch i t = None \<longleftrightarrow> i \<notin> ids t"
  unfolding find_ch_def ids_def by (auto simp: find_None_iff)

lemma find_ch_in:
  assumes "distinct (map ch_id (head t))" "c \<in> set (head t)"
  shows "find_ch (ch_id c) t = Some c"
proof -
  have *: "distinct (map ch_id cs) \<Longrightarrow> c \<in> set cs \<Longrightarrow> List.find (\<lambda>d. ch_id d = ch_id c) cs = Some c" for cs
  proof (induction cs)
    case (Cons d cs)
    then show ?case by (cases "d = c") auto
  qed simp
  show ?thesis unfolding find_ch_def by (rule * [OF assms])
qed

lemma find_ch_upd:
  assumes "\<And>c. ch_id (f c) = ch_id c"
  shows "find_ch j (upd_ch i f t) = (if j = i then map_option f (find_ch j t) else find_ch j t)"
proof -
  have "List.find (\<lambda>c. ch_id c = j) (map (\<lambda>c. if ch_id c = i then f c else c) cs) =
      (if j = i then map_option f (List.find (\<lambda>c. ch_id c = j) cs)
       else List.find (\<lambda>c. ch_id c = j) cs)" for cs
    by (induction cs) (auto simp: assms)
  then show ?thesis by (simp add: find_ch_def upd_ch_def)
qed

lemma upd_ch_ids:
  assumes "\<And>c. ch_id (f c) = ch_id c"
  shows "map ch_id (head (upd_ch i f t)) = map ch_id (head t)"
    "next_channel_id (upd_ch i f t) = next_channel_id t"
proof -
  show "map ch_id (head (upd_ch i f t)) = map ch_id (head t)"
    by (simp add: upd_ch_def assms)
  show "next_channel_id (upd_ch i f t) = next_channel_id t" by (simp add: upd_ch_def)
qed

lemma upd_ch_same [simp]: "upd_ch i (\<lambda>c. c) t = t"
  by (simp add: upd_ch_def)

lemma table_ok_alt:
  "table_ok t \<longleftrightarrow> distinct (map ch_id (head t)) \<and> 0 \<le> next_channel_id t \<and>
     (\<forall>i \<in> set (map ch_id (head t)). 0 \<le> i \<and> i \<noteq> next_channel_id t)"
  by (auto simp: table_ok_def)

lemma table_ok_upd [simp]: "(\<And>c. ch_id (f c) = ch_id c) \<Longrightarrow> table_ok (upd_ch i f t) = table_ok t"
  unfolding table_ok_alt by (simp only: upd_ch_ids)

lemma others_upd: "c \<in> set (head t) \<Longrightarrow> ch_id c \<noteq> i \<Longrightarrow> c \<in> set (head (upd_ch i f t))"
  by (force simp: upd_ch_def)

lemma unlink_ch_Some:
  "unlink_ch i cs = Some cs' \<Longrightarrow>
   \<exists>pre c post. cs = pre @ c # post \<and> ch_id c = i \<and> cs' = pre @ post \<and> i \<notin> ch_id ` set pre"
proof (induction cs arbitrary: cs')
  case (Cons d cs)
  show ?case
  proof (cases "ch_id d = i")
    case True
    with Cons.prems show ?thesis by (intro exI [of _ "[]"]) auto
  next
    case False
    with Cons.prems obtain ds where "unlink_ch i cs = Some ds" "cs' = d # ds" by auto
    with Cons.IH obtain pre c post where "cs = pre @ c # post" "ch_id c = i" "ds = pre @ post"
      "i \<notin> ch_id ` set pre" by blast
    with False \<open>cs' = d # ds\<close> show ?thesis
      by (intro exI [of _ "d # pre"] exI [of _ c] exI [of _ post]) auto
  qed
qed simp

lemma unlink_ch_None: "unlink_ch i cs = None \<longleftrightarrow> i \<notin> ch_id ` set cs"
  by (induction cs) auto

lemma channel_unregister_ok:
  assumes "table_ok t" "channel_unregister i t = Inr t'"
  shows "table_ok t'" "ids t' = ids t - {i}"
    "c \<in> set (head t) \<Longrightarrow> ch_id c \<noteq> i \<Longrightarrow> c \<in> set (head t')"
    "next_channel_id t' = min i (next_channel_id t)"
proof -
  from assms(2) obtain cs where u: "unlink_ch i (head t) = Some cs"
    and t': "t' = \<lparr>head = cs, next_channel_id = min i (next_channel_id t)\<rparr>"
    by (auto simp: channel_unregister_def split: option.splits)
  from unlink_ch_Some [OF u] obtain pre d post where
    p: "head t = pre @ d # post" "ch_id d = i" "cs = pre @ post" by blast
  have d: "distinct (map ch_id (pre @ d # post))"
    and n: "\<forall>c \<in> set (pre @ d # post). 0 \<le> ch_id c \<and> ch_id c \<noteq> next_channel_id t"
    "0 \<le> next_channel_id t"
    using assms(1) unfolding p(1) [symmetric] by (simp_all add: table_ok_def)
  have i: "0 \<le> i" "i \<notin> ch_id ` set (pre @ post)"
    using d n p(2) by (auto simp: image_iff)
  show "table_ok t'"
    using d n i unfolding table_ok_def t' p(3)
    by (auto simp: min_def image_iff split: if_splits)
  show "ids t' = ids t - {i}"
    using p(2) i(2) unfolding ids_def t' p(1) p(3) by auto
  show "c \<in> set (head t) \<Longrightarrow> ch_id c \<noteq> i \<Longrightarrow> c \<in> set (head t')"
    using p(2) unfolding t' p(1) p(3) by auto
  show "next_channel_id t' = min i (next_channel_id t)" by (simp add: t')
qed

lemma channel_register_ok:
  assumes "table_ok t" "channel_register name cb t = (ch, t')"
  shows "table_ok t'" "head t' = ch # head t" "ch_id ch = next_channel_id t" "ch_id ch \<notin> ids t"
proof -
  from assms(2) have t': "head t' = ch # head t" and i: "ch_id ch = next_channel_id t"
    and n: "next_channel_id t' = max_from (next_channel_id t + 1) (map (\<lambda>c. ch_id c + 1) (head t))"
    by (auto simp: channel_register_def Let_def)
  have "\<forall>c \<in> set (head t). ch_id c < next_channel_id t'"
  proof
    fix c assume "c \<in> set (head t)"
    then have "ch_id c + 1 \<le> next_channel_id t'" unfolding n by (intro max_from_upper) simp
    then show "ch_id c < next_channel_id t'" by simp
  qed
  moreover have "next_channel_id t < next_channel_id t'"
    using max_from_ge [of "next_channel_id t + 1" "map (\<lambda>c. ch_id c + 1) (head t)"] n by simp
  ultimately show "table_ok t'"
    using assms(1) i by (auto simp: table_ok_def t')
  show "head t' = ch # head t" "ch_id ch = next_channel_id t" by (fact t' i)+
  show "ch_id ch \<notin> ids t" using assms(1) i by (auto simp: table_ok_def ids_def)
qed

section \<open>Callbacks\<close>

text \<open>The loop either stops where it is or runs one callback and goes on.\<close>

abbreviation count_header :: "'cb channel \<Rightarrow> 'cb channel" where
  "count_header c \<equiv> c\<lparr>ch_header_id := ch_header_id c + 1\<rparr>"

abbreviation add_header_len :: "u16 \<Rightarrow> 'cb channel \<Rightarrow> 'cb channel" where
  "add_header_len n c \<equiv> c\<lparr>ch_total_header_len := ch_total_header_len c + ucast n\<rparr>"

abbreviation add_data_len :: "u16 \<Rightarrow> 'cb channel \<Rightarrow> 'cb channel" where
  "add_data_len n c \<equiv> c\<lparr>ch_total_data_len := ch_total_data_len c + ucast n\<rparr>"

abbreviation set_state :: "channel_state \<Rightarrow> 'cb channel \<Rightarrow> 'cb channel" where
  "set_state st c \<equiv> c\<lparr>ch_state := st\<rparr>"

lemma header_loop_cases:
  assumes "header_loop run i buf len ptr consumed prev t w = Inr (r, t', w')"
  obtains (stop) "t' = t" "w' = w"
  | (step) hl ch ret t1 w1 where "ptr < length buf"
      "run (ch_callback ch) ch (take (unat hl) (drop (ptr + 2) buf)) (upd_ch i count_header t) w =
         Inr (ret, t1, w1)"
      "header_loop run i buf len (ptr + 2 + unat hl) (consumed + 2 + hl) hl
         (upd_ch i (add_header_len hl) t1) w1 = Inr (r, t', w')"
      "find_ch i (upd_ch i count_header t) = Some ch"
proof (cases "consumed < len")
  case False
  with assms show thesis by (intro stop) (simp_all add: header_loop.simps)
next
  case True
  with assms obtain hl where f: "fetch_u16 buf ptr = Inr hl"
    by (cases "fetch_u16 buf ptr") (simp_all add: header_loop.simps)
  then have ptr: "ptr < length buf"
    by (cases "ptr < length buf") (simp_all add: fetch_u16_def)
  show thesis
  proof (cases "hl = 0 \<or> unat len < unat (consumed + 2) + unat hl")
    case stopped: True
    with assms True f show thesis
      by (intro stop) (auto simp: header_loop.simps [of run i buf len ptr] split: if_splits)
  next
    case False
    with assms True f obtain ch ret t1 w1 where
      "run (ch_callback ch) ch (take (unat hl) (drop (ptr + 2) buf)) (upd_ch i count_header t) w =
         Inr (ret, t1, w1)"
      "header_loop run i buf len (ptr + 2 + unat hl) (consumed + 2 + hl) hl
         (upd_ch i (add_header_len hl) t1) w1 = Inr (r, t', w')"
      "find_ch i (upd_ch i count_header t) = Some ch"
      by (auto simp: header_loop.simps [of run i buf len ptr] Let_def rbind_Inr_iff
          split: option.splits if_splits)
    then show thesis by (rule step [OF ptr])
  qed
qed

text \<open>
  What every callback of the program keeps to: it may register channels, but it
  leaves the table in order and every channel in it as it was.
\<close>

locale channel_callbacks =
  fixes run :: "('cb, 'w) runner"
  assumes run_ok: "run cb ch d t w = Inr (r, t', w') \<Longrightarrow> table_ok t \<Longrightarrow> table_ok t'"
    and run_keeps: "run cb ch d t w = Inr (r, t', w') \<Longrightarrow> table_ok t \<Longrightarrow> set (head t) \<subseteq> set (head t')"
begin

lemma run_others:
  assumes "run cb ch d (upd_ch i f t) w = Inr (r, t1, w1)" and "\<And>c. ch_id (f c) = ch_id c"
    and "c \<in> set (head t)" "ch_id c \<noteq> i" "table_ok (upd_ch i f t)"
  shows "c \<in> set (head (upd_ch i g t1))"
  using run_keeps [OF assms(1,5)] others_upd [OF assms(3,4), of f] assms(4) others_upd by blast

lemma header_loop_ok:
  "\<lbrakk>header_loop run i buf len ptr consumed prev t w = Inr (r, t', w'); table_ok t\<rbrakk> \<Longrightarrow>
   table_ok t' \<and> (\<forall>c \<in> set (head t). ch_id c \<noteq> i \<longrightarrow> c \<in> set (head t'))"
proof (induction "length buf - ptr" arbitrary: ptr consumed prev t w rule: less_induct)
  case less
  from less.prems(1) show ?case
  proof (cases rule: header_loop_cases)
    case stop
    with less.prems(2) show ?thesis by simp
  next
    case (step hl ch ret t1 w1)
    have "table_ok t1" using run_ok [OF step(2)] less.prems(2) by simp
    then have ok: "table_ok (upd_ch i (add_header_len hl) t1)" by simp
    have "length buf - (ptr + 2 + unat hl) < length buf - ptr" using step(1) by simp
    from less.hyps [OF this step(3) ok] run_others [OF step(2), of _ "add_header_len hl"] less.prems(2)
    show ?thesis by simp
  qed
qed

lemma process_header_ok:
  assumes "process_header run i buf len t w = Inr (r, t', w')" "table_ok t"
  shows "table_ok t' \<and> (\<forall>c \<in> set (head t). ch_id c \<noteq> i \<longrightarrow> c \<in> set (head t'))"
proof -
  from assms(1) obtain q t1 w1 where l: "header_loop run i buf len 0 0 0 t w = Inr (q, t1, w1)"
    by (auto simp: process_header_def rbind_Inr_iff split: if_splits)
  with assms(1) have t': "(t' = t1 \<or> t' = upd_ch i (set_state CHANNEL_DATA) t1) \<and> w' = w1"
    by (cases q) (auto simp: process_header_def split: if_splits)
  have "table_ok (upd_ch i (set_state CHANNEL_DATA) t1) = table_ok t1" by simp
  with header_loop_ok [OF l assms(2)] t' show ?thesis using others_upd by blast
qed

lemma process_data_ok:
  assumes "process_data run i buf len t w = Inr (r, t', w')" "table_ok t"
  shows "table_ok t' \<and> (\<forall>c \<in> set (head t). ch_id c \<noteq> i \<longrightarrow> c \<in> set (head t'))"
proof -
  define t0 where "t0 = (if len = 0 then upd_ch i (set_state CHANNEL_END) t else t)"
  have t0: "table_ok t0" "\<And>c. c \<in> set (head t) \<Longrightarrow> ch_id c \<noteq> i \<Longrightarrow> c \<in> set (head t0)"
    using assms(2) others_upd by (auto simp: t0_def)
  from assms(1) obtain ch t1 where
    r: "run (ch_callback ch) ch (take (unat len) buf) t0 w = Inr (r, t1, w')"
    and t': "t' = upd_ch i (add_data_len len) t1 \<or>
      channel_unregister i (upd_ch i (add_data_len len) t1) = Inr t'"
    by (auto simp: process_data_def Let_def rbind_Inr_iff t0_def split: if_splits option.splits)
  have ok: "table_ok (upd_ch i (add_data_len len) t1)" using run_ok [OF r t0(1)] by simp
  have keep: "c \<in> set (head (upd_ch i (add_data_len len) t1))"
    if "c \<in> set (head t)" "ch_id c \<noteq> i" for c
    using run_keeps [OF r t0(1)] t0(2) [OF that] that(2) others_upd by blast
  from t' show ?thesis
  proof
    assume "channel_unregister i (upd_ch i (add_data_len len) t1) = Inr t'"
    from channel_unregister_ok [OF ok this] keep show ?thesis by blast
  qed (use ok keep in simp)
qed

lemma process_ok:
  assumes "channel_process run buf len error t w = Inr (r, t', w')" "table_ok t"
  shows "table_ok t' \<and>
    (\<forall>c \<in> set (head t). Inr (word_of_int (ch_id c)) \<noteq> fetch_u16 buf 0 \<longrightarrow> c \<in> set (head t'))"
proof -
  from assms(1) obtain cid where cid: "fetch_u16 buf 0 = Inr cid"
    by (auto simp: channel_process_def rbind_Inr_iff)
  define t0 where "t0 = (if error then upd_ch (uint cid) (set_state CHANNEL_ERROR) t else t)"
  have t0: "table_ok t0" "\<And>c. c \<in> set (head t) \<Longrightarrow> ch_id c \<noteq> uint cid \<Longrightarrow> c \<in> set (head t0)"
    using assms(2) others_upd by (auto simp: t0_def)
  from assms(1) cid have "t' = t \<or>
      process_header run (uint cid) (drop 2 buf) (len - 2) t0 w = Inr (r, t', w') \<or>
      process_data run (uint cid) (drop 2 buf) (len - 2) t0 w = Inr (r, t', w')"
    by (auto simp: channel_process_def Let_def t0_def split: option.splits if_splits)
  then have "table_ok t' \<and> (\<forall>c \<in> set (head t). ch_id c \<noteq> uint cid \<longrightarrow> c \<in> set (head t'))"
    using assms(2) t0 process_header_ok process_data_ok by blast
  moreover have "ch_id c \<noteq> uint cid" if "Inr (word_of_int (ch_id c)) \<noteq> fetch_u16 buf 0" for c :: "'cb channel"
    using that cid by auto
  ultimately show ?thesis by blast
qed

end

section \<open>The callbacks of one channel in order\<close>

text \<open>
  A runner that only records the calls: the callback that is called, and what it is called with,
  the channel, its state and header number, and the data.
\<close>

type_synonym chan_event = "int \<times> channel_state \<times> u32 \<times> byte list"

definition log_run :: "('cb, ('cb \<times> chan_event) list) runner" where
  "log_run cb ch d t w = Inr (0, t, w @ [(cb, ch_id ch, ch_state ch, ch_header_id ch, d)])"

interpretation recorder: channel_callbacks log_run
  by unfold_locales (auto simp: log_run_def)

text \<open>A header as it stands in a packet, and the log of a run of headers.\<close>

definition hdr :: "byte list \<Rightarrow> byte list" where
  "hdr h = put_u16 (word_of_nat (length h)) @ h"

fun header_log :: "int \<Rightarrow> u32 \<Rightarrow> byte list list \<Rightarrow> chan_event list" where
  "header_log i n [] = []"
| "header_log i n (h # hs) = (i, CHANNEL_HEADER, n + 1, h) # header_log i (n + 1) hs"

text \<open>The table differs at most in channel \<open>i\<close>, which is now \<open>c\<close>.\<close>

definition now :: "int \<Rightarrow> 'cb channel \<Rightarrow> 'cb chan_table \<Rightarrow> 'cb chan_table \<Rightarrow> bool" where
  "now i c t t' \<longleftrightarrow> find_ch i t' = Some c \<and> (\<forall>j. j \<noteq> i \<longrightarrow> find_ch j t' = find_ch j t)"

lemma now_upd:
  assumes "now i c t t'" "\<And>c. ch_id (f c) = ch_id c"
  shows "now i (f c) t (upd_ch i f t')"
  using assms by (simp add: now_def find_ch_upd)

lemma u16_nat: "n < 65536 \<Longrightarrow> unat (word_of_nat n :: u16) = n"
  by (rule unat_word_of_nat_u16)

lemma length_hdr [simp]: "length (hdr h) = length h + 2"
  by (simp add: hdr_def)

text \<open>
  A callback that does nothing in the header state but to note the header, by \<open>g\<close>.
\<close>

definition quiet_headers :: "('cb, 'w) runner \<Rightarrow> 'cb \<Rightarrow> (chan_event \<Rightarrow> 'w \<Rightarrow> 'w) \<Rightarrow> bool" where
  "quiet_headers run cb g \<longleftrightarrow> (\<forall>ch d t w. ch_callback ch = cb \<longrightarrow> ch_state ch = CHANNEL_HEADER \<longrightarrow>
     run cb ch d t w = Inr (0, t, g (ch_id ch, CHANNEL_HEADER, ch_header_id ch, d) w))"

lemma log_run_quiet: "quiet_headers log_run cb (\<lambda>e w. w @ [(cb, e)])"
  by (simp add: quiet_headers_def log_run_def)

lemma fold_snoc: "fold (\<lambda>e w. w @ [(cb, e)]) es w = w @ map (Pair cb) es"
  by (induction es arbitrary: w) simp_all

lemma header_loop_step:
  assumes "quiet_headers run (ch_callback c) g" "find_ch i t = Some c" "ch_state c = CHANNEL_HEADER" "h \<noteq> []"
    and "length pre + 2 + length h \<le> unat len"
    and "buf = pre @ put_u16 (word_of_nat (length h)) @ h @ rest"
  shows "header_loop run i buf len (length pre) (word_of_nat (length pre)) prev t w =
      header_loop run i buf len (length (pre @ hdr h)) (word_of_nat (length (pre @ hdr h)))
        (word_of_nat (length h))
        (upd_ch i (add_header_len (word_of_nat (length h))) (upd_ch i count_header t))
        (g (i, CHANNEL_HEADER, ch_header_id c + 1, h) w)"
proof -
  let ?hl = "word_of_nat (length h) :: u16"
  have small: "length pre + 2 + length h < 65536"
    using assms(5) unat_u16_less [of len] by simp
  then have uh: "unat ?hl = length h" by (intro u16_nat) simp
  then have h: "?hl \<noteq> 0" using assms(4) by auto
  have lt: "word_of_nat (length pre) < len"
    using assms(5) small by (simp add: word_less_nat_alt u16_nat)
  have f: "fetch_u16 buf (length pre) = Inr ?hl"
    unfolding assms(6) by (rule fetch_u16_put_at) simp
  have cc: "(word_of_nat (length pre) + 2 :: u16) = word_of_nat (length pre + 2)" by simp
  have uc: "unat (word_of_nat (length pre) + 2 :: u16) = length pre + 2"
    unfolding cc using small by (intro u16_nat) simp
  have find1: "find_ch i (upd_ch i count_header t) = Some (count_header c)"
    by (simp add: find_ch_upd assms(2))
  have id: "ch_id c = i" using find_ch_Some [OF assms(2)] by blast
  have data: "take (unat ?hl) (drop (length pre + 2) buf) = h"
    unfolding uh assms(6) by simp
  have next_ptr: "length pre + 2 + unat ?hl = length (pre @ hdr h)"
    "word_of_nat (length pre) + 2 + ?hl = word_of_nat (length (pre @ hdr h))"
    using uh by simp_all
  show ?thesis
    unfolding next_ptr [symmetric]
    by (subst header_loop.simps)
       (use lt f h uc uh find1 data id assms(1,3,5,6) in
         \<open>simp add: quiet_headers_def ac_simps\<close>)
qed

lemma header_loop_log:
  assumes "quiet_headers run (ch_callback c) g" "now i c t0 t" "ch_state c = CHANNEL_HEADER"
    and "\<forall>h \<in> set hs. h \<noteq> []" and "length pre + length (concat (map hdr hs)) + 2 < 65536"
    and "buf = pre @ concat (map hdr hs) @ put_u16 0 @ mac"
    and "len = word_of_nat (length pre + length (concat (map hdr hs)) + 2)"
  shows "\<exists>t' c'. header_loop run i buf len (length pre) (word_of_nat (length pre)) prev t w =
           Inr (Some (len, 0), t', fold g (header_log i (ch_header_id c) hs) w) \<and>
         now i c' t0 t' \<and> ch_header_id c' = ch_header_id c + word_of_nat (length hs) \<and>
         ch_callback c' = ch_callback c \<and> ch_total_data_len c' = ch_total_data_len c"
  using assms
proof (induction hs arbitrary: pre prev c t w)
  case Nil
  have "unat len = length pre + length (concat (map hdr [])) + 2"
    unfolding Nil.prems(7) by (rule u16_nat) (rule Nil.prems(5))
  then have "word_of_nat (length pre) < (len :: u16)"
    using Nil.prems(5) by (simp add: word_less_nat_alt u16_nat)
  then have "header_loop run i buf len (length pre) (word_of_nat (length pre)) prev t w =
      Inr (Some (len, 0), t, w)"
    using Nil.prems(6,7) by (simp add: header_loop.simps [of run] fetch_u16_put_at)
  with Nil.prems(2) show ?case by auto
next
  case (Cons h hs)
  let ?rest = "concat (map hdr hs) @ put_u16 0 @ mac"
  let ?hl = "word_of_nat (length h) :: u16"
  have ul: "unat len = length pre + length (concat (map hdr (h # hs))) + 2"
    unfolding Cons.prems(7) by (rule u16_nat) (rule Cons.prems(5))
  have buf: "buf = pre @ put_u16 ?hl @ h @ ?rest"
    using Cons.prems(6) by (simp add: hdr_def [of h])
  let ?t1 = "upd_ch i count_header t"
  let ?c2 = "add_header_len ?hl (count_header c)"
  let ?t2 = "upd_ch i (add_header_len ?hl) ?t1"
  let ?w = "g (i, CHANNEL_HEADER, ch_header_id c + 1, h) w"
  have f: "find_ch i t = Some c" using Cons.prems(2) by (simp add: now_def)
  have "now i (count_header c) t0 ?t1" using Cons.prems(2) by (rule now_upd) simp
  then have n2: "now i ?c2 t0 ?t2" by (rule now_upd) simp
  have step: "header_loop run i buf len (length pre) (word_of_nat (length pre)) prev t w =
      header_loop run i buf len (length (pre @ hdr h)) (word_of_nat (length (pre @ hdr h))) ?hl
        ?t2 ?w"
    by (rule header_loop_step [OF Cons.prems(1) f Cons.prems(3) _ _ buf]) (use Cons.prems(4) ul in auto)
  have "\<exists>t' c'. header_loop run i buf len (length (pre @ hdr h))
        (word_of_nat (length (pre @ hdr h))) ?hl ?t2 ?w =
        Inr (Some (len, 0), t', fold g (header_log i (ch_header_id ?c2) hs) ?w) \<and>
      now i c' t0 t' \<and> ch_header_id c' = ch_header_id ?c2 + word_of_nat (length hs) \<and>
      ch_callback c' = ch_callback ?c2 \<and> ch_total_data_len c' = ch_total_data_len ?c2"
    by (rule Cons.IH [OF _ n2])
       (use Cons.prems in \<open>simp_all add: add.assoc add.left_commute\<close>)
  then show ?case unfolding step by (auto simp: add.assoc)
qed

text \<open>
  A packet for channel \<open>i\<close> as the network layer hands it over: id, body, and the
  MAC behind them, which the length does not count; and a run of such packets.
\<close>

definition deliver ::
  "('cb, 'w) runner \<Rightarrow> int \<Rightarrow> byte list \<Rightarrow> byte list \<Rightarrow> 'cb chan_table \<Rightarrow> 'w
   \<Rightarrow> (int \<times> 'cb chan_table \<times> 'w) result" where
  "deliver run i mac body t w =
     channel_process run (put_u16 (word_of_int i) @ body @ mac) (word_of_nat (length body + 2)) False t w"

fun deliver_all ::
  "('cb, 'w) runner \<Rightarrow> int \<Rightarrow> byte list \<Rightarrow> byte list list \<Rightarrow> 'cb chan_table \<Rightarrow> 'w
   \<Rightarrow> ('cb chan_table \<times> 'w) result" where
  "deliver_all run i mac [] t w = Inr (t, w)"
| "deliver_all run i mac (b # bs) t w =
     rbind (deliver run i mac b t w) (\<lambda>(_, t, w). deliver_all run i mac bs t w)"

lemma deliver_found:
  assumes "find_ch i t = Some c" "0 \<le> i" "i < 65536" "length body + 2 < 65536"
  shows "deliver run i mac body t w =
    (if ch_state c = CHANNEL_HEADER
     then process_header run i (body @ mac) (word_of_nat (length body)) t w
     else process_data run i (body @ mac) (word_of_nat (length body)) t w)"
proof -
  have "uint (word_of_int i :: u16) = i"
    using assms(2,3) by (simp add: uint_word_of_int take_bit_int_eq_self_iff)
  then show ?thesis
    using assms(1) by (simp add: deliver_def channel_process_def fetch_u16_put Let_def)
qed

lemma deliver_headers_by:
  assumes "quiet_headers run (ch_callback c) g" "find_ch i t = Some c" "ch_state c = CHANNEL_HEADER" "0 \<le> i" "i < 65536"
    and "\<forall>h \<in> set hs. h \<noteq> []" and "length (concat (map hdr hs)) + 4 < 65536"
  shows "\<exists>t' c'. deliver run i mac (concat (map hdr hs) @ put_u16 0) t w =
      Inr (0, t', fold g (header_log i (ch_header_id c) hs) w) \<and> now i c' t t' \<and>
      ch_state c' = CHANNEL_DATA \<and> ch_header_id c' = ch_header_id c + word_of_nat (length hs) \<and>
      ch_callback c' = ch_callback c \<and> ch_total_data_len c' = ch_total_data_len c"
proof -
  let ?len = "word_of_nat (length (concat (map hdr hs)) + 2) :: u16"
  have n: "now i c t t" using assms(2) by (simp add: now_def)
  have h: "\<forall>h \<in> set hs. h \<noteq> []" "length ([] :: byte list) + length (concat (map hdr hs)) + 2 < 65536"
    "?len = word_of_nat (length ([] :: byte list) + length (concat (map hdr hs)) + 2)"
    "(concat (map hdr hs) @ put_u16 0) @ mac = ([] :: byte list) @ concat (map hdr hs) @ put_u16 0 @ mac"
    using assms(6,7) by simp_all
  obtain t' c' where l: "header_loop run i ((concat (map hdr hs) @ put_u16 0) @ mac) ?len 0 0 0 t w =
      Inr (Some (?len, 0), t', fold g (header_log i (ch_header_id c) hs) w)"
    "now i c' t t'" "ch_header_id c' = ch_header_id c + word_of_nat (length hs)"
    "ch_callback c' = ch_callback c" "ch_total_data_len c' = ch_total_data_len c"
    using header_loop_log [OF assms(1) n assms(3) h(1,2,4,3), of 0 w] by auto
  have "unat ?len = length (concat (map hdr hs)) + 2"
    using assms(7) by (intro u16_nat) simp
  then have "\<not> ?len < 2" by (simp add: word_less_nat_alt)
  then have "process_header run i ((concat (map hdr hs) @ put_u16 0) @ mac) ?len t w =
      Inr (0, upd_ch i (set_state CHANNEL_DATA) t', fold g (header_log i (ch_header_id c) hs) w)"
    using l(1) by (simp add: process_header_def)
  moreover have "now i (set_state CHANNEL_DATA c') t (upd_ch i (set_state CHANNEL_DATA) t')"
    using l(2) by (rule now_upd) simp
  moreover have "deliver run i mac (concat (map hdr hs) @ put_u16 0) t w =
      process_header run i ((concat (map hdr hs) @ put_u16 0) @ mac) ?len t w"
    using deliver_found [OF assms(2,4,5), of "concat (map hdr hs) @ put_u16 0" run mac w]
      assms(3,7) by simp
  ultimately show ?thesis
    using l(3-5) by (intro exI [of _ "upd_ch i (set_state CHANNEL_DATA) t'"]
        exI [of _ "set_state CHANNEL_DATA c'"]) simp
qed

lemma deliver_headers:
  assumes "find_ch i t = Some c" "ch_state c = CHANNEL_HEADER" "0 \<le> i" "i < 65536"
    and "\<forall>h \<in> set hs. h \<noteq> []" and "length (concat (map hdr hs)) + 4 < 65536"
  shows "\<exists>t' c'. deliver log_run i mac (concat (map hdr hs) @ put_u16 0) t w =
      Inr (0, t', w @ map (Pair (ch_callback c)) (header_log i (ch_header_id c) hs)) \<and> now i c' t t' \<and>
      ch_state c' = CHANNEL_DATA \<and> ch_header_id c' = ch_header_id c + word_of_nat (length hs) \<and>
      ch_callback c' = ch_callback c"
  using deliver_headers_by [OF log_run_quiet assms, of mac w] unfolding fold_snoc by blast

lemma deliver_data:
  assumes "find_ch i t = Some c" "ch_state c = CHANNEL_DATA" "0 \<le> i" "i < 65536"
    and "d \<noteq> []" "length d + 2 < 65536"
  shows "\<exists>t' c'. deliver log_run i mac d t w =
      Inr (0, t', w @ [(ch_callback c, i, CHANNEL_DATA, ch_header_id c, d)]) \<and> now i c' t t' \<and>
      ch_state c' = CHANNEL_DATA \<and> ch_header_id c' = ch_header_id c \<and> ch_callback c' = ch_callback c"
proof -
  let ?len = "word_of_nat (length d) :: u16"
  let ?t = "upd_ch i (add_data_len ?len) t"
  have u: "unat ?len = length d" using assms(6) by (intro u16_nat) simp
  then have ne: "?len \<noteq> 0" using assms(5) by auto
  have n: "now i (add_data_len ?len c) t ?t"
    by (rule now_upd) (simp_all add: now_def assms(1))
  have id: "ch_id c = i" using find_ch_Some [OF assms(1)] by simp
  have "process_data log_run i (d @ mac) ?len t w =
      Inr (0, ?t, w @ [(ch_callback c, i, CHANNEL_DATA, ch_header_id c, d)])"
    using n u ne assms(1,2) id by (simp add: process_data_def log_run_def now_def)
  moreover have "deliver log_run i mac d t w = process_data log_run i (d @ mac) ?len t w"
    using deliver_found [OF assms(1,3,4,6), of log_run mac w] assms(2) by simp
  ultimately show ?thesis
    using n assms(2) by (intro exI [of _ ?t] exI [of _ "add_data_len ?len c"]) simp
qed

lemma unlink_find:
  "unlink_ch i cs = Some cs' \<Longrightarrow> j \<noteq> i \<Longrightarrow>
   List.find (\<lambda>c. ch_id c = j) cs' = List.find (\<lambda>c. ch_id c = j) cs"
  by (induction cs arbitrary: cs') (auto split: if_splits)

lemma unregister_found:
  assumes "table_ok t" "find_ch i t = Some c"
  shows "\<exists>t'. channel_unregister i t = Inr t' \<and> table_ok t' \<and> find_ch i t' = None \<and>
    (\<forall>j. j \<noteq> i \<longrightarrow> find_ch j t' = find_ch j t)"
proof -
  have "unlink_ch i (head t) \<noteq> None"
    using find_ch_Some [OF assms(2)] by (auto simp: unlink_ch_None)
  then obtain cs where cs: "unlink_ch i (head t) = Some cs" by blast
  let ?t = "\<lparr>head = cs, next_channel_id = min i (next_channel_id t)\<rparr>"
  have u: "channel_unregister i t = Inr ?t" by (simp add: channel_unregister_def cs)
  have "find_ch j ?t = find_ch j t" if "j \<noteq> i" for j
    using unlink_find [OF cs that] by (simp add: find_ch_def)
  moreover have "find_ch i ?t = None"
    unfolding find_ch_None channel_unregister_ok(2) [OF assms(1) u] by simp
  ultimately show ?thesis
    using u channel_unregister_ok(1) [OF assms(1) u] by blast
qed

lemma deliver_end:
  assumes "find_ch i t = Some c" "ch_state c = CHANNEL_DATA" "0 \<le> i" "i < 65536" "table_ok t"
  shows "\<exists>t'. deliver log_run i mac [] t w = Inr (0, t', w @ [(ch_callback c, i, CHANNEL_END, ch_header_id c, [])]) \<and>
      table_ok t' \<and> find_ch i t' = None \<and> (\<forall>j. j \<noteq> i \<longrightarrow> find_ch j t' = find_ch j t)"
proof -
  define t1 where "t1 = upd_ch i (set_state CHANNEL_END) t"
  have id: "ch_id c = i" using find_ch_Some [OF assms(1)] by simp
  have n1: "now i (set_state CHANNEL_END c) t t1"
    unfolding t1_def
    by (rule now_upd [where f = "set_state CHANNEL_END"]) (simp_all add: now_def assms(1))
  then have f1: "find_ch i t1 = Some (set_state CHANNEL_END c)" by (simp add: now_def)
  have "table_ok t1" using assms(5) by (simp add: t1_def)
  from unregister_found [OF this f1] obtain t' where t': "channel_unregister i t1 = Inr t'"
    "table_ok t'" "find_ch i t' = None" "\<forall>j. j \<noteq> i \<longrightarrow> find_ch j t' = find_ch j t1"
    by (elim exE conjE) (rule that)
  have "process_data log_run i mac 0 t w =
      Inr (0, t', w @ [(ch_callback c, i, CHANNEL_END, ch_header_id c, [])])"
    using f1 t'(1) id by (simp add: process_data_def log_run_def t1_def [symmetric])
  moreover have "deliver log_run i mac [] t w = process_data log_run i mac 0 t w"
    using deliver_found [OF assms(1,3,4), of "[]" log_run mac w] assms(2) by simp
  moreover have "find_ch j t' = find_ch j t" if "j \<noteq> i" for j
    using t'(4) n1 that unfolding now_def by metis
  ultimately show ?thesis using t'(2,3) by (intro exI [of _ t'] conjI allI impI) simp_all
qed

lemma deliver_datas:
  assumes "find_ch i t = Some c" "ch_state c = CHANNEL_DATA" "0 \<le> i" "i < 65536" "table_ok t"
    and "\<forall>d \<in> set ds. d \<noteq> [] \<and> length d + 2 < 65536"
  shows "\<exists>t'. deliver_all log_run i mac (ds @ [[]]) t w =
      Inr (t', w @ map (Pair (ch_callback c)) (map (\<lambda>d. (i, CHANNEL_DATA, ch_header_id c, d)) ds @
        [(i, CHANNEL_END, ch_header_id c, [])])) \<and>
      table_ok t' \<and> find_ch i t' = None \<and> (\<forall>j. j \<noteq> i \<longrightarrow> find_ch j t' = find_ch j t)"
  using assms
proof (induction ds arbitrary: c t w)
  case Nil
  from deliver_end [OF Nil.prems(1-5), of mac w] show ?case by auto
next
  case (Cons d ds)
  from deliver_data [OF Cons.prems(1-4), of d mac w] Cons.prems(6) obtain t1 c1 where
    d: "deliver log_run i mac d t w = Inr (0, t1, w @ [(ch_callback c, i, CHANNEL_DATA, ch_header_id c, d)])"
    "now i c1 t t1" "ch_state c1 = CHANNEL_DATA" "ch_header_id c1 = ch_header_id c" "ch_callback c1 = ch_callback c"
    by auto
  have "find_ch i t1 = Some c1" using d(2) by (simp add: now_def)
  moreover have "table_ok t1"
    using recorder.process_ok [OF d(1) [unfolded deliver_def] Cons.prems(5)] by simp
  moreover have "\<forall>d \<in> set ds. d \<noteq> [] \<and> length d + 2 < 65536" using Cons.prems(6) by simp
  ultimately obtain t' where "deliver_all log_run i mac (ds @ [[]]) t1
      (w @ [(ch_callback c, i, CHANNEL_DATA, ch_header_id c, d)]) =
      Inr (t', (w @ [(ch_callback c, i, CHANNEL_DATA, ch_header_id c, d)]) @
        map (Pair (ch_callback c1)) (map (\<lambda>d. (i, CHANNEL_DATA, ch_header_id c1, d)) ds @
          [(i, CHANNEL_END, ch_header_id c1, [])]))"
    "table_ok t'" "find_ch i t' = None" "\<forall>j. j \<noteq> i \<longrightarrow> find_ch j t' = find_ch j t1"
    using Cons.IH [OF _ d(3) Cons.prems(3,4)] by blast
  with d show ?case by (auto simp: now_def)
qed

section \<open>Properties\<close>

text \<open>
  C4: The life of a channel.  The headers of its first packet, then the bodies of the data
  packets, then one call with the state \<open>CHANNEL_END\<close>, reach the registered
  callback in order, each exactly once and without the MAC; the channel is gone
  afterwards, and no other channel has changed.
\<close>

theorem channel_lifecycle:
  assumes "table_ok t" and "find_ch i t = Some c" and "ch_state c = CHANNEL_HEADER"
    and "0 \<le> i" and "i < 65536"
    and "\<forall>h \<in> set hs. h \<noteq> []" and "length (concat (map hdr hs)) + 4 < 65536"
    and "\<forall>d \<in> set ds. d \<noteq> [] \<and> length d + 2 < 65536"
    and "n = ch_header_id c + word_of_nat (length hs)"
  shows "\<exists>t'. deliver_all log_run i mac ((concat (map hdr hs) @ put_u16 0) # ds @ [[]]) t w =
      Inr (t', w @ map (Pair (ch_callback c))
        (header_log i (ch_header_id c) hs @ map (\<lambda>d. (i, CHANNEL_DATA, n, d)) ds @ [(i, CHANNEL_END, n, [])])) \<and>
      table_ok t' \<and> find_ch i t' = None \<and> (\<forall>j. j \<noteq> i \<longrightarrow> find_ch j t' = find_ch j t)"
proof -
  from deliver_headers [OF assms(2-7), of mac w] obtain t1 c1 where
    h: "deliver log_run i mac (concat (map hdr hs) @ put_u16 0) t w =
      Inr (0, t1, w @ map (Pair (ch_callback c)) (header_log i (ch_header_id c) hs))"
    and n1: "now i c1 t t1" and c1: "ch_state c1 = CHANNEL_DATA" "ch_header_id c1 = n" "ch_callback c1 = ch_callback c"
    using assms(9) by auto
  have f1: "find_ch i t1 = Some c1" using n1 by (simp add: now_def)
  have ok1: "table_ok t1"
    using recorder.process_ok [OF h [unfolded deliver_def] assms(1)] by simp
  from deliver_datas [OF f1 c1(1) assms(4,5) ok1 assms(8), of mac "w @ map (Pair (ch_callback c)) (header_log i (ch_header_id c) hs)"]
  show ?thesis using h n1 c1(2,3) by (auto simp: now_def)
qed

definition two_channels :: "unit chan_table" where
  "two_channels =
     snd (channel_register (Some ''b'') () (snd (channel_register (Some ''a'') ()
       \<lparr>head = [], next_channel_id = 0\<rparr>)))"

lemma two_channels: "table_ok two_channels" "\<exists>c. find_ch 1 two_channels = Some c \<and>
    ch_state c = CHANNEL_HEADER \<and> ch_header_id c = 0"
  by (simp_all add: two_channels_def channel_register_def Let_def table_ok_def find_ch_def)

theorem channel_lifecycle_witness:
  "\<exists>t'. deliver_all log_run 1 [0, 0, 0, 0] ((concat (map hdr [[3, 4]]) @ put_u16 0) # [[7], [8, 9]] @ [[]])
      two_channels [] =
      Inr (t', [((), 1, CHANNEL_HEADER, 1, [3, 4]), ((), 1, CHANNEL_DATA, 1, [7]), ((), 1, CHANNEL_DATA, 1, [8, 9]),
        ((), 1, CHANNEL_END, 1, [])]) \<and> find_ch 1 t' = None"
proof -
  obtain c where c: "find_ch 1 two_channels = Some c" "ch_state c = CHANNEL_HEADER" "ch_header_id c = 0"
    using two_channels(2) by blast
  have "(1::u32) = ch_header_id c + word_of_nat (length [[3, 4 :: byte]])" by (simp add: c(3))
  from channel_lifecycle [OF two_channels(1) c(1,2) _ _ _ _ _ this, of "[[7], [8, 9]]" "[0, 0, 0, 0]" "[]"]
  show ?thesis by (auto simp: c(3))
qed

text \<open>
  Registration and removal keep the channel table in order: ids are
  distinct, the next id is free, and the table finds exactly the channels it held
  before, with the new one added, or the removed one taken out.
\<close>

lemma channel_table_operations:
  assumes "table_ok t"
  shows "(\<exists>ch t'. channel_register name cb t = (ch, t') \<and> table_ok t' \<and>
      find_ch (ch_id ch) t = None \<and> ch_state ch = CHANNEL_HEADER \<and>
      (\<forall>j. find_ch j t' = (if j = ch_id ch then Some ch else find_ch j t))) \<and>
    (if find_ch i t = None then channel_unregister i t = Inl Assert_Failed
     else \<exists>t'. channel_unregister i t = Inr t' \<and> table_ok t' \<and>
          (\<forall>j. find_ch j t' = (if j = i then None else find_ch j t)))"
proof (intro conjI)
  obtain ch t' where r: "channel_register name cb t = (ch, t')" by fastforce
  have "ch_state ch = CHANNEL_HEADER" using r by (auto simp: channel_register_def Let_def)
  moreover have "find_ch j t' = (if j = ch_id ch then Some ch else find_ch j t)" for j
    using channel_register_ok(2) [OF assms r] by (simp add: find_ch_def)
  ultimately show "\<exists>ch t'. channel_register name cb t = (ch, t') \<and> table_ok t' \<and>
      find_ch (ch_id ch) t = None \<and> ch_state ch = CHANNEL_HEADER \<and>
      (\<forall>j. find_ch j t' = (if j = ch_id ch then Some ch else find_ch j t))"
    using channel_register_ok [OF assms r] r by (auto simp: find_ch_None)
  show "if find_ch i t = None then channel_unregister i t = Inl Assert_Failed
     else \<exists>t'. channel_unregister i t = Inr t' \<and> table_ok t' \<and>
          (\<forall>j. find_ch j t' = (if j = i then None else find_ch j t))"
  proof (cases "find_ch i t")
    case None
    then have "unlink_ch i (head t) = None" by (simp add: find_ch_None ids_def unlink_ch_None)
    with None show ?thesis by (simp add: channel_unregister_def)
  next
    case (Some c)
    from unregister_found [OF assms Some] Some show ?thesis by auto
  qed
qed

lemma channel_table_operations_witness:
  "\<exists>t'. channel_unregister 0 two_channels = Inr t' \<and> table_ok t' \<and>
     (\<forall>j. find_ch j t' = (if j = 0 then None else find_ch j two_channels))"
proof -
  have "find_ch 0 two_channels \<noteq> None"
    by (simp add: two_channels_def channel_register_def Let_def find_ch_def)
  with channel_table_operations [OF two_channels(1), of None "()" 0] show ?thesis by auto
qed

text \<open>
  A later header that claims more bytes than the packet holds makes the
  program dump \<open>len\<close> bytes from the middle of the packet, past the end of the
  allocated block.
\<close>

lemma short_header_overread:
  assumes "find_ch i t = Some c" and "ch_state c = CHANNEL_HEADER" and "0 \<le> i" and "i < 65536"
    and "h \<noteq> []" and "length mac = 4" and "length rest < unat n"
    and "length h + length rest + 6 < 65536"
  shows "deliver log_run i mac (hdr h @ put_u16 n @ rest) t w = Inl Out_Of_Bounds"
proof -
  let ?body = "hdr h @ put_u16 n @ rest"
  let ?len = "word_of_nat (length ?body) :: u16"
  let ?hl = "word_of_nat (length h) :: u16"
  have ul: "unat ?len = length h + length rest + 4"
    using u16_nat [of "length ?body"] assms(8) by simp
  have "header_loop log_run i (?body @ mac) ?len (length ([] :: byte list))
      (word_of_nat (length ([] :: byte list))) 0 t w =
    header_loop log_run i (?body @ mac) ?len (length ([] @ hdr h)) (word_of_nat (length ([] @ hdr h))) ?hl
      (upd_ch i (add_header_len ?hl) (upd_ch i count_header t))
      (w @ [(ch_callback c, i, CHANNEL_HEADER, ch_header_id c + 1, h)])"
    by (rule header_loop_step [OF log_run_quiet assms(1,2,5), where rest = "put_u16 n @ rest @ mac"])
       (unfold ul, simp_all add: hdr_def)
  also have "\<dots> = Inl Out_Of_Bounds"
  proof -
    have f: "fetch_u16 (?body @ mac) (length h + 2) = Inr n"
      using fetch_u16_put_at [of "hdr h" "length h + 2" n "rest @ mac"] by simp
    have lt: "(word_of_nat (length h + 2) :: u16) < ?len"
      using assms(8) ul by (simp only: word_less_nat_alt u16_nat)
    have four: "(word_of_nat (length h + 2) + 2 :: u16) = word_of_nat (length h + 4)" by simp
    have uc: "unat (word_of_nat (length h + 2) + 2 :: u16) = length h + 4"
      unfolding four using assms(8) by (intro u16_nat) simp
    have n: "n \<noteq> 0" using assms(7) by auto
    show ?thesis
      by (subst header_loop.simps) (use f lt uc n ul assms(5,6,7) in \<open>cases h; simp\<close>)
  qed
  finally have "process_header log_run i (?body @ mac) ?len t w = Inl Out_Of_Bounds"
    using ul by (simp add: process_header_def word_less_nat_alt)
  then show ?thesis
    using deliver_found [OF assms(1,3,4), of ?body log_run mac w] assms(2,8) by simp
qed

lemma short_header_overread_witness:
  "deliver log_run 1 [0, 0, 0, 0] (hdr [5] @ put_u16 9 @ [1, 2]) two_channels [] = Inl Out_Of_Bounds"
proof -
  obtain c where "find_ch 1 two_channels = Some c" "ch_state c = CHANNEL_HEADER"
    using two_channels(2) by blast
  then show ?thesis by (rule short_header_overread) simp_all
qed

end
