(* ===== verification/Commands.thy ===== *)
theory Commands
  imports Channel
begin

text \<open>
  \<^verbatim>\<open>src/src/lib/commands.c\<close>, \<^verbatim>\<open>commands.h\<close>: the requests a client sends.  Each one
  registers a channel for the answer and writes one packet whose payload carries
  the id of that channel.

  The record \<open>conn\<close> is the part of the world these functions work on besides the
  channel table: the session, its socket, and whether the login condition has
  been signalled.  It is extended by the client's own state later.
\<close>

section \<open>State and constants\<close>

record conn =
  sess :: session
  sock :: net
  login_cond :: bool

definition CMD_SECRETBLK :: byte where "CMD_SECRETBLK = 0x02"
definition CMD_PING :: byte where "CMD_PING = 0x04"
definition CMD_SUBSTREAM :: byte where "CMD_SUBSTREAM = 0x08"
definition CMD_CHANNELDATA :: byte where "CMD_CHANNELDATA = 0x09"
definition CMD_CHANNELERR :: byte where "CMD_CHANNELERR = 0x0a"
definition CMD_REQKEY :: byte where "CMD_REQKEY = 0x0c"
definition CMD_AESKEY :: byte where "CMD_AESKEY = 0x0d"
definition CMD_AESKEYERR :: byte where "CMD_AESKEYERR = 0x0e"
definition CMD_SHAHASH :: byte where "CMD_SHAHASH = 0x10"
definition CMD_IMAGE :: byte where "CMD_IMAGE = 0x19"
definition CMD_COUNTRYCODE :: byte where "CMD_COUNTRYCODE = 0x1b"
definition CMD_P2P_INITBLK :: byte where "CMD_P2P_INITBLK = 0x21"
definition CMD_BROWSE :: byte where "CMD_BROWSE = 0x30"
definition CMD_SEARCH :: byte where "CMD_SEARCH = 0x31"
definition CMD_GETPLAYLIST :: byte where "CMD_GETPLAYLIST = 0x35"
definition CMD_CHANGEPLAYLIST :: byte where "CMD_CHANGEPLAYLIST = 0x36"
definition CMD_NOTIFY :: byte where "CMD_NOTIFY = 0x42"
definition CMD_PONG :: byte where "CMD_PONG = 0x49"
definition CMD_PAUSE :: byte where "CMD_PAUSE = 0x4b"
definition CMD_REQUESTAD :: byte where "CMD_REQUESTAD = 0x4e"
definition CMD_REQUESTPLAY :: byte where "CMD_REQUESTPLAY = 0x4f"
definition CMD_TOKENNOTIFY :: byte where "CMD_TOKENNOTIFY = 0x4f"
definition CMD_PRODINFO :: byte where "CMD_PRODINFO = 0x50"
definition CMD_WELCOME :: byte where "CMD_WELCOME = 0x69"

definition BROWSE_ARTIST :: byte where "BROWSE_ARTIST = 1"
definition BROWSE_ALBUM :: byte where "BROWSE_ALBUM = 2"
definition BROWSE_TRACK :: byte where "BROWSE_TRACK = 3"
definition PLAYLIST_CURRENT :: u32 where "PLAYLIST_CURRENT = NOT 0"

type_synonym ('cb, 'z) answer = "(int \<times> 'cb chan_table \<times> 'z conn_scheme) result"

text \<open>\<open>packet_write (session, cmd, b->ptr, b->len)\<close>: the length becomes 16 bits.\<close>

definition write_buf :: "byte \<Rightarrow> buf \<Rightarrow> 'cb chan_table \<Rightarrow> 'z conn_scheme \<Rightarrow> ('cb, 'z) answer" where
  "write_buf cmd b t c =
     rbind (packet_write (sess c) (sock c) cmd (Some (buf_bytes b)) (word_of_nat (buf_len b)))
       (\<lambda>(r, s, n). Inr (r, t, c\<lparr>sess := s, sock := n\<rparr>))"

section \<open>The debugging callback\<close>

text \<open>
  \<open>dump_generic\<close> appends to files under \<^verbatim>\<open>/tmp\<close>; \<open>can_open\<close> says which names
  \<open>fopen\<close> accepts.
\<close>

type_synonym files = "string \<rightharpoonup> byte list"

definition dump_filename :: "'cb channel \<Rightarrow> string" where
  "dump_filename ch =
     take 511 (''/tmp/channel-'' @ dec (nat (ch_id ch)) @ ''-'' @ ch_name ch @
       (if ch_state ch = CHANNEL_HEADER then ''.hdr-'' @ dec (unat (ch_header_id ch)) else []))"

definition dump_generic :: "(string \<Rightarrow> bool) \<Rightarrow> 'cb channel \<Rightarrow> byte list \<Rightarrow> files \<Rightarrow> int \<times> files" where
  "dump_generic can_open ch buf fs =
     (if buf = [] then (0, fs)
      else if can_open (dump_filename ch) then
        (0, fs(dump_filename ch \<mapsto> (case fs (dump_filename ch) of None \<Rightarrow> [] | Some d \<Rightarrow> d) @ buf))
      else (-1, fs))"

definition dump_run :: "(string \<Rightarrow> bool) \<Rightarrow> (unit, files) runner" where
  "dump_run can_open cb ch d t fs = (let (r, fs) = dump_generic can_open ch d fs in Inr (r, t, fs))"

interpretation dump: channel_callbacks "dump_run can_open"
  by unfold_locales (auto simp: dump_run_def split: prod.splits)

section \<open>Requests\<close>

definition cmd_send_cache_hash :: "'cb chan_table \<Rightarrow> 'z conn_scheme \<Rightarrow> ('cb, 'z) answer" where
  "cmd_send_cache_hash t c = write_buf 0x0f (buf_append_data buf_new (cache_hash (sess c))) t c"

text \<open>\<open>dump\<close> is the callback value that stands for \<open>dump_generic\<close>.\<close>

definition cmd_requestad :: "'cb \<Rightarrow> byte \<Rightarrow> 'cb chan_table \<Rightarrow> 'z conn_scheme \<Rightarrow> ('cb, 'z) answer" where
  "cmd_requestad dump ad_type t c =
     (let (ch, t) = channel_register (Some (''RequestAd-with-type-'' @ dec (unat ad_type))) dump t;
          b = buf_append_u16 buf_new (word_of_int (ch_id ch));
          b = buf_append_u8 b ad_type
      in write_buf CMD_REQUESTAD b t c)"

definition cmd_request_image ::
  "byte list \<Rightarrow> 'cb \<Rightarrow> 'cb chan_table \<Rightarrow> 'z conn_scheme \<Rightarrow> ('cb, 'z) answer" where
  "cmd_request_image hash cb t c =
     rbind (slice hash 0 20) (\<lambda>h.
       let (ch, t) = channel_register (Some (''image-'' @ hex_bytes_to_ascii h 20)) cb t;
           b = buf_append_u16 buf_new (word_of_int (ch_id ch));
           b = buf_append_data b h
       in write_buf CMD_IMAGE b t c)"

definition cmd_search ::
  "string \<Rightarrow> u32 \<Rightarrow> u32 \<Rightarrow> 'cb \<Rightarrow> 'cb chan_table \<Rightarrow> 'z conn_scheme \<Rightarrow> ('cb, 'z) answer" where
  "cmd_search searchtext offset limit cb t c =
     (if limit = 0 then Inl Assert_Failed
      else
        let (ch, t) = channel_register (Some (take 99 (''Search-'' @ searchtext))) cb t;
            b = buf_append_u16 buf_new (word_of_int (ch_id ch));
            b = buf_append_u32 b (ucast offset);
            b = buf_append_u32 b (ucast limit);
            b = buf_append_u16 b 0;
            searchtext_length = (word_of_nat (length searchtext) :: byte);
            b = buf_append_u8 b searchtext_length;
            b = buf_append_data b (take (unat searchtext_length) (bytes_of searchtext))
        in write_buf CMD_SEARCH b t c)"

definition cmd_token_notify :: "'cb chan_table \<Rightarrow> 'z conn_scheme \<Rightarrow> ('cb, 'z) answer" where
  "cmd_token_notify t c =
     rbind (packet_write (sess c) (sock c) CMD_TOKENNOTIFY None 0)
       (\<lambda>(r, s, n). Inr (r, t, c\<lparr>sess := s, sock := n\<rparr>))"

definition cmd_aeskey ::
  "byte list \<Rightarrow> byte list \<Rightarrow> 'cb \<Rightarrow> 'cb chan_table \<Rightarrow> 'z conn_scheme \<Rightarrow> ('cb, 'z) answer" where
  "cmd_aeskey file_id track_id cb t c =
     rbind (slice file_id 0 20) (\<lambda>fid. rbind (slice track_id 0 16) (\<lambda>tid.
       let b = buf_append_data buf_new fid;
           b = buf_append_data b tid;
           b = buf_append_u16 b 0;
           (ch, t) = channel_register (Some (''key-'' @ hex_bytes_to_ascii fid 20)) cb t;
           t = upd_ch (ch_id ch) (\<lambda>ch. ch\<lparr>ch_state := CHANNEL_DATA\<rparr>) t;
           b = buf_append_u16 b (word_of_int (ch_id ch))
       in write_buf CMD_REQKEY b t c))"

definition cmd_action ::
  "byte list \<Rightarrow> byte list \<Rightarrow> 'cb \<Rightarrow> 'cb chan_table \<Rightarrow> 'z conn_scheme \<Rightarrow> ('cb, 'z) answer" where
  "cmd_action file_id track_id dump t c =
     rbind (packet_write (sess c) (sock c) CMD_REQUESTPLAY (Some []) 0) (\<lambda>(r, s, n).
       let c = c\<lparr>sess := s, sock := n\<rparr> in
       if r \<noteq> 0 then Inr (r, t, c) else cmd_aeskey file_id track_id dump t c)"

definition cmd_getsubstreams ::
  "byte list \<Rightarrow> u32 \<Rightarrow> u32 \<Rightarrow> u32 \<Rightarrow> 'cb \<Rightarrow> 'cb chan_table \<Rightarrow> 'z conn_scheme \<Rightarrow> ('cb, 'z) answer" where
  "cmd_getsubstreams file_id offset len unknown_200k cb t c =
     rbind (slice file_id 0 20) (\<lambda>fid.
       let (ch, t) = channel_register (Some (hex_bytes_to_ascii fid 20)) cb t;
           b = buf_append_u16 buf_new (word_of_int (ch_id ch));
           b = buf_append_u16 b 0x0800;
           b = buf_append_u16 b 0x0000;
           b = buf_append_u16 b 0x0000;
           b = buf_append_u16 b 0x0000;
           b = buf_append_u16 b 0x4e20;
           b = buf_append_u32 b (ucast unknown_200k);
           b = buf_append_data b fid
       in if offset mod 4096 \<noteq> 0 \<or> len mod 4096 \<noteq> 0 then Inl Assert_Failed
          else
            let offset = drop_bit 2 offset;
                len = drop_bit 2 len;
                b = buf_append_u32 b (ucast offset);
                b = buf_append_u32 b (ucast (offset + len))
            in rbind (write_buf CMD_SUBSTREAM b t c) (\<lambda>(ret, t, c).
                 if ret \<noteq> 0
                 then rbind (channel_unregister (ch_id ch) t) (\<lambda>t. Inr (ret, t, c))
                 else Inr (ret, t, c)))"

text \<open>The loop over the ids of \<open>cmd_browse\<close>.\<close>

fun append_ids :: "buf \<Rightarrow> byte list \<Rightarrow> nat \<Rightarrow> nat \<Rightarrow> buf result" where
  "append_ids b idlist i 0 = Inr b"
| "append_ids b idlist i (Suc n) =
     rbind (slice idlist (i * 16) 16) (\<lambda>d. append_ids (buf_append_data b d) idlist (i + 1) n)"

definition cmd_browse ::
  "byte \<Rightarrow> byte list \<Rightarrow> int \<Rightarrow> 'cb \<Rightarrow> 'cb chan_table \<Rightarrow> 'z conn_scheme \<Rightarrow> ('cb, 'z) answer" where
  "cmd_browse kind idlist num cb t c =
     (if \<not> ((kind = BROWSE_ARTIST \<or> kind = BROWSE_ALBUM) \<and> num = 1 \<or> kind = BROWSE_TRACK)
      then Inl Assert_Failed
      else rbind (slice idlist 0 16) (\<lambda>first.
        let (ch, t) = channel_register (Some (''browse-'' @ hex_bytes_to_ascii first 16)) cb t;
            b = buf_append_u16 buf_new (word_of_int (ch_id ch));
            b = buf_append_u8 b kind
        in rbind (append_ids b idlist 0 (nat num)) (\<lambda>b.
             let b = (if kind = BROWSE_ALBUM \<or> kind = BROWSE_ARTIST then buf_append_u32 b 0 else b)
             in write_buf CMD_BROWSE b t c)))"

definition cmd_getplaylist ::
  "byte list \<Rightarrow> u32 \<Rightarrow> 'cb \<Rightarrow> 'cb chan_table \<Rightarrow> 'z conn_scheme \<Rightarrow> ('cb, 'z) answer" where
  "cmd_getplaylist playlist_id revision cb t c =
     rbind (slice playlist_id 0 17) (\<lambda>pid.
       let (ch, t) = channel_register (Some (''playlist-'' @ hex_bytes_to_ascii pid 17)) cb t;
           b = buf_append_u16 buf_new (word_of_int (ch_id ch));
           b = buf_append_data b pid;
           b = buf_append_u32 b (scast revision);
           b = buf_append_u32 b 0;
           b = buf_append_u32 b 0xffffffff;
           b = buf_append_u8 b 1
       in write_buf CMD_GETPLAYLIST b t c)"

definition cmd_changeplaylist ::
  "byte list \<Rightarrow> string \<Rightarrow> u32 \<Rightarrow> u32 \<Rightarrow> u32 \<Rightarrow> u32 \<Rightarrow> 'cb \<Rightarrow> 'cb chan_table \<Rightarrow> 'z conn_scheme
   \<Rightarrow> ('cb, 'z) answer" where
  "cmd_changeplaylist playlist_id xml revision num_tracks checksum collaborative cb t c =
     rbind (slice playlist_id 0 17) (\<lambda>pid.
       let (ch, t) = channel_register (Some (''chplaylist-'' @ hex_bytes_to_ascii pid 17)) cb t;
           b = buf_append_u16 buf_new (word_of_int (ch_id ch));
           b = buf_append_data b pid;
           b = buf_append_u32 b (scast revision);
           b = buf_append_u32 b (scast num_tracks);
           b = buf_append_u32 b (scast checksum);
           b = buf_append_u8 b (ucast collaborative);
           b = buf_append_u8 b 3;
           b = buf_append_data b (bytes_of xml)
       in write_buf CMD_CHANGEPLAYLIST b t c)"

definition cmd_ping_reply :: "'cb chan_table \<Rightarrow> 'z conn_scheme \<Rightarrow> ('cb, 'z) answer" where
  "cmd_ping_reply t c =
     rbind (packet_write (sess c) (sock c) CMD_PONG (Some [0, 0, 0, 0, 0, 0, 0, 0]) 4)
       (\<lambda>(r, s, n). Inr (r, t, c\<lparr>sess := s, sock := n\<rparr>))"

section \<open>What a request promises\<close>

text \<open>
  The protocol's view of the requests that expect an answer: the command byte,
  the payload for a channel id, and the state the channel is to start in.
\<close>

datatype request =
    Ad byte
  | Image "byte list"
  | Search string u32 u32
  | Aes_Key "byte list" "byte list"
  | Substreams "byte list" u32 u32 u32
  | Browse byte "byte list list"
  | Get_Playlist "byte list" u32
  | Change_Playlist "byte list" string u32 u32 u32 byte

fun request_cmd :: "request \<Rightarrow> byte" where
  "request_cmd (Ad _) = 0x4e"
| "request_cmd (Image _) = 0x19"
| "request_cmd (Search _ _ _) = 0x31"
| "request_cmd (Aes_Key _ _) = 0x0c"
| "request_cmd (Substreams _ _ _ _) = 0x08"
| "request_cmd (Browse _ _) = 0x30"
| "request_cmd (Get_Playlist _ _) = 0x35"
| "request_cmd (Change_Playlist _ _ _ _ _ _) = 0x36"

fun request_payload :: "request \<Rightarrow> u16 \<Rightarrow> byte list" where
  "request_payload (Ad k) i = put_u16 i @ [k]"
| "request_payload (Image h) i = put_u16 i @ h"
| "request_payload (Search s off lim) i =
     put_u16 i @ put_u32 off @ put_u32 lim @ [0, 0] @ word_of_nat (length s) # bytes_of s"
| "request_payload (Aes_Key f k) i = f @ k @ [0, 0] @ put_u16 i"
| "request_payload (Substreams f off len u) i =
     put_u16 i @ [0x08, 0, 0, 0, 0, 0, 0, 0, 0x4e, 0x20] @ put_u32 u @ f @
       put_u32 (drop_bit 2 off) @ put_u32 (drop_bit 2 off + drop_bit 2 len)"
| "request_payload (Browse k xs) i =
     put_u16 i @ [k] @ concat xs @ (if k = 3 then [] else [0, 0, 0, 0])"
| "request_payload (Get_Playlist p r) i =
     put_u16 i @ p @ put_u32 r @ [0, 0, 0, 0, 0xff, 0xff, 0xff, 0xff, 1]"
| "request_payload (Change_Playlist p xml r n s col) i =
     put_u16 i @ p @ put_u32 r @ put_u32 n @ put_u32 s @ [col, 3] @ bytes_of xml"

fun request_ok :: "request \<Rightarrow> bool" where
  "request_ok (Ad _) \<longleftrightarrow> True"
| "request_ok (Image h) \<longleftrightarrow> length h = 20"
| "request_ok (Search s _ lim) \<longleftrightarrow> length s < 256 \<and> lim \<noteq> 0"
| "request_ok (Aes_Key f k) \<longleftrightarrow> length f = 20 \<and> length k = 16"
| "request_ok (Substreams f off len _) \<longleftrightarrow> length f = 20 \<and> off mod 4096 = 0 \<and> len mod 4096 = 0"
| "request_ok (Browse k xs) \<longleftrightarrow>
     xs \<noteq> [] \<and> (\<forall>x \<in> set xs. length x = 16) \<and> length xs \<le> 244 \<and>
     (k = 3 \<or> (k = 1 \<or> k = 2) \<and> length xs = 1)"
| "request_ok (Get_Playlist p _) \<longleftrightarrow> length p = 17"
| "request_ok (Change_Playlist p xml _ _ _ _) \<longleftrightarrow> length p = 17 \<and> length xml < 65000"

fun run_request ::
  "request \<Rightarrow> 'cb \<Rightarrow> 'cb chan_table \<Rightarrow> 'z conn_scheme \<Rightarrow> ('cb, 'z) answer" where
  "run_request (Ad k) cb t c = cmd_requestad cb k t c"
| "run_request (Image h) cb t c = cmd_request_image h cb t c"
| "run_request (Search s off lim) cb t c = cmd_search s off lim cb t c"
| "run_request (Aes_Key f k) cb t c = cmd_aeskey f k cb t c"
| "run_request (Substreams f off len u) cb t c = cmd_getsubstreams f off len u cb t c"
| "run_request (Browse k xs) cb t c = cmd_browse k (concat xs) (int (length xs)) cb t c"
| "run_request (Get_Playlist p r) cb t c = cmd_getplaylist p r cb t c"
| "run_request (Change_Playlist p xml r n s col) cb t c =
     cmd_changeplaylist p xml r n s (ucast col) cb t c"

text \<open>All requests have one shape.\<close>

definition send_payload ::
  "byte \<Rightarrow> byte list \<Rightarrow> 'cb chan_table \<Rightarrow> 'z conn_scheme \<Rightarrow> ('cb, 'z) answer" where
  "send_payload cmd body t c =
     rbind (packet_write (sess c) (sock c) cmd (Some body) (word_of_nat (length body)))
       (\<lambda>(r, s, n). Inr (r, t, c\<lparr>sess := s, sock := n\<rparr>))"

lemma write_buf_send: "buf_inv b \<Longrightarrow> write_buf cmd b t c = send_payload cmd (buf_bytes b) t c"
  by (simp add: write_buf_def send_payload_def length_buf_bytes)

fun start_state :: "request \<Rightarrow> 'cb channel \<Rightarrow> 'cb channel" where
  "start_state (Aes_Key _ _) ch = set_state CHANNEL_DATA ch"
| "start_state _ ch = ch"

fun cleans_up :: "request \<Rightarrow> bool" where
  "cleans_up (Substreams _ _ _ _) = True"
| "cleans_up _ = False"

definition finish_request ::
  "request \<Rightarrow> 'cb channel \<Rightarrow> 'cb chan_table \<Rightarrow> 'z conn_scheme \<Rightarrow> ('cb, 'z) answer" where
  "finish_request req ch t c =
     rbind (send_payload (request_cmd req) (request_payload req (word_of_int (ch_id ch)))
        (upd_ch (ch_id ch) (start_state req) t) c)
       (\<lambda>(r, t, c). if r \<noteq> 0 \<and> cleans_up req
         then rbind (channel_unregister (ch_id ch) t) (\<lambda>t. Inr (r, t, c)) else Inr (r, t, c))"

fun request_name :: "request \<Rightarrow> string" where
  "request_name (Ad k) = ''RequestAd-with-type-'' @ dec (unat k)"
| "request_name (Image h) = ''image-'' @ hex_bytes_to_ascii h 20"
| "request_name (Search s _ _) = take 99 (''Search-'' @ s)"
| "request_name (Aes_Key f _) = ''key-'' @ hex_bytes_to_ascii f 20"
| "request_name (Substreams f _ _ _) = hex_bytes_to_ascii f 20"
| "request_name (Browse _ xs) = ''browse-'' @ hex_bytes_to_ascii (hd xs) 16"
| "request_name (Get_Playlist p _) = ''playlist-'' @ hex_bytes_to_ascii p 17"
| "request_name (Change_Playlist p _ _ _ _ _) = ''chplaylist-'' @ hex_bytes_to_ascii p 17"

lemma rbind_Inr_right [simp]: "rbind r Inr = r"
  by (cases r) simp_all

lemma start_state_same:
  "start_state (Ad k) = (\<lambda>ch. ch)" "start_state (Image h) = (\<lambda>ch. ch)"
  "start_state (Search s l m) = (\<lambda>ch. ch)" "start_state (Substreams f l m u) = (\<lambda>ch. ch)"
  "start_state (Browse j xs) = (\<lambda>ch. ch)" "start_state (Get_Playlist p r) = (\<lambda>ch. ch)"
  "start_state (Change_Playlist p x r n v w) = (\<lambda>ch. ch)"
  "start_state (Aes_Key f g) = set_state CHANNEL_DATA"
  by auto

lemma append_ids_concat:
  "\<lbrakk>buf_inv b; \<forall>x \<in> set xs. length x = 16; length pre = i * 16\<rbrakk> \<Longrightarrow>
   \<exists>b'. append_ids b (pre @ concat xs) i (length xs) = Inr b' \<and> buf_inv b' \<and>
     buf_bytes b' = buf_bytes b @ concat xs"
proof (induction xs arbitrary: b pre i)
  case (Cons x xs)
  have s: "slice (pre @ concat (x # xs)) (i * 16) 16 = Inr x"
    using Cons.prems(2,3) by (simp add: slice_def)
  have "length (pre @ x) = (i + 1) * 16" using Cons.prems(2,3) by simp
  from Cons.IH [of "buf_append_data b x", OF _ _ this] Cons.prems(1,2) s
  show ?case by simp
qed simp

lemma slice_prefix [simp]: "length x = n \<Longrightarrow> slice (x @ y) 0 n = Inr x"
  by (simp add: slice_def)

lemma put_words_0:
  "put_u16 0 = [0, 0]" "put_u32 0 = [0, 0, 0, 0]" "put_u16 0x800 = [8, 0]" "put_u16 0x4e20 = [0x4e, 0x20]"
  "put_u32 0xffffffff = [0xff, 0xff, 0xff, 0xff]"
  by (simp_all add: put_u16_def put_u32_def)

lemma ucast_u64_u32 [simp]: "ucast (ucast (w :: u32) :: u64) = w" "ucast (scast (w :: u32) :: u64) = w"
  "ucast (ucast (b :: byte) :: u32) = b"
  by (rule bit_word_eqI; auto simp: bit_simps)+

lemmas request_bufs = write_buf_send finish_request_def Let_def put_words_0 start_state_same

lemma take_byte_length [simp]:
  "length s < 256 \<Longrightarrow> take (unat (word_of_nat (length s) :: byte)) (bytes_of s) = bytes_of s"
  by (simp add: unat_of_nat)

lemma cmd_browse_shape:
  assumes "request_ok (Browse k xs)" "channel_register (Some (request_name (Browse k xs))) cb t = (ch, t1)"
  shows "cmd_browse k (concat xs) (int (length xs)) cb t c = finish_request (Browse k xs) ch t1 c"
proof -
  obtain x ys where xs: "xs = x # ys" "length x = 16" using assms(1) by (cases xs) auto
  have all: "\<forall>x \<in> set xs. length x = 16" and k: "k = 1 \<or> k = 2 \<or> k = 3"
    "k \<noteq> 3 \<Longrightarrow> length xs = 1" using assms(1) by auto
  have f: "slice (concat xs) 0 16 = Inr x" using xs by simp
  have n: "request_name (Browse k xs) = ''browse-'' @ hex_bytes_to_ascii x 16"
    using xs by simp
  let ?b = "buf_append_u8 (buf_append_u16 buf_new (word_of_int (ch_id ch))) k"
  obtain b where b: "append_ids ?b (concat xs) 0 (length xs) = Inr b" "buf_inv b"
    "buf_bytes b = put_u16 (word_of_int (ch_id ch)) @ [k] @ concat xs"
    using append_ids_concat [of ?b xs "[]" 0] all by auto
  show ?thesis
    unfolding cmd_browse_def f rbind.simps assms(2) [unfolded n] Let_def split
    using k b by (auto simp: request_bufs BROWSE_ARTIST_def BROWSE_ALBUM_def BROWSE_TRACK_def
        CMD_BROWSE_def)
qed

lemma run_request_shape:
  assumes "request_ok req" "channel_register (Some (request_name req)) cb t = (ch, t1)"
  shows "run_request req cb t c = finish_request req ch t1 c"
proof (cases req)
  case (Browse k xs)
  then show ?thesis using cmd_browse_shape assms by simp
next
  case (Ad k)
  show ?thesis using assms(2) unfolding Ad
    by (simp add: request_bufs cmd_requestad_def CMD_REQUESTAD_def)
next
  case (Image h)
  show ?thesis using assms unfolding Image
    by (simp add: request_bufs cmd_request_image_def CMD_IMAGE_def)
next
  case (Search s l m)
  show ?thesis using assms unfolding Search
    by (simp add: request_bufs cmd_search_def CMD_SEARCH_def)
next
  case (Aes_Key f k)
  show ?thesis using assms unfolding Aes_Key
    by (simp add: request_bufs cmd_aeskey_def CMD_REQKEY_def)
next
  case (Substreams f l m u)
  show ?thesis using assms unfolding Substreams
    by (simp add: request_bufs cmd_getsubstreams_def CMD_SUBSTREAM_def)
next
  case (Get_Playlist p r)
  show ?thesis using assms unfolding Get_Playlist
    by (simp add: request_bufs cmd_getplaylist_def CMD_GETPLAYLIST_def)
next
  case (Change_Playlist p x r n v w)
  show ?thesis using assms unfolding Change_Playlist
    by (simp add: request_bufs cmd_changeplaylist_def CMD_CHANGEPLAYLIST_def)
qed

lemma request_payload_length:
  assumes "request_ok req"
  shows "length (request_payload req i) < 65536"
proof (cases req)
  case (Browse k xs)
  have "length (concat xs) = 16 * length xs" if "\<forall>x \<in> set xs. length x = 16" for xs :: "byte list list"
    using that by (induction xs) auto
  with assms Browse show ?thesis by auto
qed (use assms in auto)

lemma send_payload_result:
  assumes "send_payload cmd body t c = Inr (r, t', c')" and "length body < 65536"
  shows "t' = t" "sess c' = sent_state (sess c) cmd body" "r = 0 \<or> r = -1"
    "r = 0 \<Longrightarrow> wire (sock c') = wire (sock c) @ packet_bytes (sess c) cmd body"
    "\<exists>k. wire (sock c') = wire (sock c) @ take k (packet_bytes (sess c) cmd body)"
    "rx_q (sock c') = rx_q (sock c)" "\<exists>s n. c' = c\<lparr>sess := s, sock := n\<rparr>"
proof -
  from assms(1) obtain s n
    where w: "packet_write (sess c) (sock c) cmd (Some body) (word_of_nat (length body)) = Inr (r, s, n)"
    and e: "t' = t" "c' = c\<lparr>sess := s, sock := n\<rparr>"
    by (auto simp: send_payload_def rbind_Inr_iff)
  from packet_write_result [OF w assms(2)] e
  show "t' = t" "sess c' = sent_state (sess c) cmd body" "r = 0 \<or> r = -1"
    "r = 0 \<Longrightarrow> wire (sock c') = wire (sock c) @ packet_bytes (sess c) cmd body"
    "\<exists>k. wire (sock c') = wire (sock c) @ take k (packet_bytes (sess c) cmd body)"
    "rx_q (sock c') = rx_q (sock c)" "\<exists>s n. c' = c\<lparr>sess := s, sock := n\<rparr>"
    by auto
qed

definition first_state :: "request \<Rightarrow> channel_state" where
  "first_state req = (case req of Aes_Key _ _ \<Rightarrow> CHANNEL_DATA | _ \<Rightarrow> CHANNEL_HEADER)"

text \<open>The channel a request leaves behind, and everything else it does.\<close>

lemma run_request_result:
  assumes "request_ok req" "table_ok t" "run_request req cb t c = Inr (r, t', c')"
  defines "i \<equiv> next_channel_id t"
  shows "table_ok t'" "\<And>j. j \<noteq> i \<Longrightarrow> find_ch j t' = find_ch j t"
    "sess c' = sent_state (sess c) (request_cmd req) (request_payload req (word_of_int i))"
    "r = 0 \<or> r = -1"
    "r = 0 \<Longrightarrow> wire (sock c') = wire (sock c) @
       packet_bytes (sess c) (request_cmd req) (request_payload req (word_of_int i))"
    "if r \<noteq> 0 \<and> cleans_up req then find_ch i t' = None
     else \<exists>ch. find_ch i t' = Some ch \<and> ch_callback ch = cb \<and> ch_state ch = first_state req \<and>
       ch_header_id ch = 0 \<and> ch_total_data_len ch = 0"
    "rx_q (sock c') = rx_q (sock c)"
    "\<exists>s n. c' = c\<lparr>sess := s, sock := n\<rparr>"
proof -
  obtain ch t1 where reg: "channel_register (Some (request_name req)) cb t = (ch, t1)" by fastforce
  have ch: "ch_id ch = i" "ch_callback ch = cb" "ch_state ch = CHANNEL_HEADER" "ch_header_id ch = 0"
    "ch_total_data_len ch = 0"
    using reg by (auto simp: channel_register_def Let_def i_def)
  note ok1 = channel_register_ok [OF assms(2) reg]
  let ?t2 = "upd_ch i (start_state req) t1"
  let ?body = "request_payload req (word_of_int i)"
  have id_same: "ch_id (start_state req d) = ch_id d" for d :: "'a channel" by (cases req) auto
  have ok2: "table_ok ?t2"
    using ok1(1) table_ok_upd [of "start_state req" i t1, OF id_same] by simp
  have f2: "find_ch j ?t2 = (if j = i then Some (start_state req ch) else find_ch j t)" for j
    using ok1(2) ch(1) by (simp add: find_ch_upd [OF id_same]) (simp add: find_ch_def)
  have start: "ch_callback (start_state req ch) = cb" "ch_state (start_state req ch) = first_state req"
    "ch_header_id (start_state req ch) = 0" "ch_total_data_len (start_state req ch) = 0"
    using ch by (cases req; simp add: first_state_def)+
  from assms(3) [unfolded run_request_shape [OF assms(1) reg] finish_request_def ch(1)] obtain r1 t3 c3
    where s: "send_payload (request_cmd req) ?body ?t2 c = Inr (r1, t3, c3)"
    and fin: "(if r1 \<noteq> 0 \<and> cleans_up req
      then rbind (channel_unregister i t3) (\<lambda>t. Inr (r1, t, c3)) else Inr (r1, t3, c3)) = Inr (r, t', c')"
    by (auto simp: rbind_Inr_iff)
  note sent = send_payload_result [OF s request_payload_length [OF assms(1)]]
  have u: "\<exists>t4. channel_unregister i ?t2 = Inr t4 \<and> table_ok t4 \<and> find_ch i t4 = None \<and>
      (\<forall>j. j \<noteq> i \<longrightarrow> find_ch j t4 = find_ch j ?t2)"
    by (rule unregister_found [OF ok2, of _ "start_state req ch"]) (simp add: f2)
  have rc: "r = r1" "c' = c3" using fin by (auto simp: rbind_Inr_iff split: if_splits)
  show "sess c' = sent_state (sess c) (request_cmd req) ?body" "r = 0 \<or> r = -1"
    "r = 0 \<Longrightarrow> wire (sock c') = wire (sock c) @ packet_bytes (sess c) (request_cmd req) ?body"
    "rx_q (sock c') = rx_q (sock c)" "\<exists>s n. c' = c\<lparr>sess := s, sock := n\<rparr>"
    using sent rc by simp_all
  have "table_ok t' \<and> (\<forall>j. j \<noteq> i \<longrightarrow> find_ch j t' = find_ch j t) \<and>
      (if r \<noteq> 0 \<and> cleans_up req then find_ch i t' = None else find_ch i t' = Some (start_state req ch))"
    using fin u ok2 f2 unfolding sent(1) rc by (auto simp: rbind_Inr_iff split: if_splits)
  then show "table_ok t'" "\<And>j. j \<noteq> i \<Longrightarrow> find_ch j t' = find_ch j t"
    "if r \<noteq> 0 \<and> cleans_up req then find_ch i t' = None
     else \<exists>ch. find_ch i t' = Some ch \<and> ch_callback ch = cb \<and> ch_state ch = first_state req \<and>
       ch_header_id ch = 0 \<and> ch_total_data_len ch = 0"
    using start by (auto split: if_splits)
qed

section \<open>Properties\<close>

text \<open>
  C5: Every request with valid arguments that returns 0 has put exactly one
  packet on the wire, with the command byte and payload of the protocol, the id
  in it being that of a new channel that holds the caller's callback; no other
  channel is touched.  A request that fails returns -1 and keeps the channel
  registered, except \<open>cmd_getsubstreams\<close>, which removes it again.
\<close>

theorem requests_meet_protocol:
  assumes "request_ok req" and "table_ok t" and "run_request req cb t c = Inr (r, t', c')"
    and "i = next_channel_id t"
  shows "table_ok t' \<and> (\<forall>j. j \<noteq> i \<longrightarrow> find_ch j t' = find_ch j t) \<and>
    (if r = 0 then
       wire (sock c') = wire (sock c) @
         packet_bytes (sess c) (request_cmd req) (request_payload req (word_of_int i)) \<and>
       (\<exists>ch. find_ch i t' = Some ch \<and> ch_callback ch = cb \<and> ch_state ch = first_state req)
     else r = -1 \<and> (find_ch i t' = None \<longleftrightarrow> cleans_up req))"
  using run_request_result [OF assms(1-3)] assms(4) by (auto split: if_splits)

definition conn_out :: "tx \<Rightarrow> conn" where
  "conn_out es = \<lparr>sess = zero_session, sock = \<lparr>rx_q = [], tx_q = es, wire = []\<rparr>, login_cond = False\<rparr>"

definition no_channels :: "'cb chan_table" where
  "no_channels = \<lparr>head = [], next_channel_id = 0\<rparr>"

lemma no_channels_ok [simp]: "table_ok no_channels" "next_channel_id no_channels = 0"
  by (simp_all add: no_channels_def table_ok_def)

text \<open>A request over a socket that takes everything, and over one that has failed.\<close>

lemma send_payload_taken:
  assumes "length body < 60000"
  shows "\<exists>c'. send_payload cmd body t (conn_out [Taken 65000]) = Inr (0, t, c')"
proof -
  have "packet_write zero_session \<lparr>rx_q = [], tx_q = [Taken 65000], wire = []\<rparr> cmd (Some body)
      (word_of_nat (length body)) = Inr (0, sent_state zero_session cmd body,
      \<lparr>rx_q = [], tx_q = [Taken 65000], wire = []\<rparr>\<lparr>tx_q := [], wire := [] @ packet_bytes zero_session cmd body\<rparr>)"
    using packet_write_taken [of body "\<lparr>rx_q = [], tx_q = [Taken 65000], wire = []\<rparr>" 65000 "[]" zero_session cmd]
      assms by simp
  then show ?thesis by (simp add: send_payload_def conn_out_def)
qed

lemma search_sent:
  "\<exists>t' c'. run_request (Search ''abba'' 0 100) cb no_channels (conn_out [Taken 65000]) = Inr (0, t', c')"
proof -
  obtain ch t1 where r: "channel_register (Some (request_name (Search ''abba'' 0 100))) cb no_channels = (ch, t1)"
    by fastforce
  have ok: "request_ok (Search ''abba'' 0 100)" by simp
  show ?thesis
    using send_payload_taken [where body = "request_payload (Search ''abba'' 0 100) (word_of_int (ch_id ch))"
        and cmd = "0x31" and t = "upd_ch (ch_id ch) (start_state (Search ''abba'' 0 100)) t1"]
    unfolding run_request_shape [OF ok r] finish_request_def by auto
qed

theorem requests_meet_protocol_witness:
  "\<exists>t' c'. run_request (Search ''abba'' 0 100) () no_channels (conn_out [Taken 65000]) = Inr (0, t', c') \<and>
     wire (sock c') = packet_bytes zero_session 0x31 (request_payload (Search ''abba'' 0 100) 0)"
proof -
  obtain t' c' where r: "run_request (Search ''abba'' 0 100) () no_channels (conn_out [Taken 65000]) =
      Inr (0, t', c')"
    using search_sent [of "()"] by blast
  have "request_ok (Search ''abba'' 0 100)" by simp
  from requests_meet_protocol [OF this no_channels_ok(1) r refl] r show ?thesis
    by (auto simp: conn_out_def)
qed

text \<open>
  C3: The answer to a request finds its way back.  After a request that went
  out, the headers, data packets and final packet that come in under the id the
  payload carried all reach the callback the caller supplied, in order, and the
  channel table is then as it was before the request.
\<close>

theorem request_is_answered:
  assumes "request_ok req" and "table_ok t" and "run_request req cb t c = Inr (0, t1, c1)"
    and "first_state req = CHANNEL_HEADER" and "i = next_channel_id t" and "i < 65536"
    and "\<forall>h \<in> set hs. h \<noteq> []" and "length (concat (map hdr hs)) + 4 < 65536"
    and "\<forall>d \<in> set ds. d \<noteq> [] \<and> length d + 2 < 65536"
    and "n = word_of_nat (length hs)"
  shows "\<exists>t'. deliver_all log_run i mac ((concat (map hdr hs) @ put_u16 0) # ds @ [[]]) t1 [] =
      Inr (t', map (Pair cb) (header_log i 0 hs @ map (\<lambda>d. (i, CHANNEL_DATA, n, d)) ds @ [(i, CHANNEL_END, n, [])])) \<and>
      (\<forall>j. find_ch j t' = find_ch j t)"
proof -
  note res = run_request_result [OF assms(1-3), folded assms(5)]
  obtain ch where ch: "find_ch i t1 = Some ch" "ch_state ch = CHANNEL_HEADER" "ch_header_id ch = 0" "ch_callback ch = cb"
    using res(6) assms(4) by auto
  have i: "0 \<le> i" "find_ch i t = None"
    using assms(2,5) by (auto simp: table_ok_def find_ch_None ids_def)
  have n: "n = ch_header_id ch + word_of_nat (length hs)" using ch(3) assms(10) by simp
  from deliver_headers [OF ch(1,2) i(1) assms(6,7,8), of mac "[]"] obtain t2 c2 where
    h: "deliver log_run i mac (concat (map hdr hs) @ put_u16 0) t1 [] =
      Inr (0, t2, map (Pair cb) (header_log i 0 hs))"
    and n2: "now i c2 t1 t2" and c2: "ch_state c2 = CHANNEL_DATA" "ch_header_id c2 = n" "ch_callback c2 = cb"
    using ch(3,4) n by auto
  have f2: "find_ch i t2 = Some c2" using n2 by (simp add: now_def)
  have ok2: "table_ok t2"
    using recorder.process_ok [OF h [unfolded deliver_def] res(1)] by simp
  from deliver_datas [OF f2 c2(1) i(1) assms(6) ok2 assms(9), of mac "map (Pair cb) (header_log i 0 hs)"]
  obtain t' where d: "deliver_all log_run i mac (ds @ [[]]) t2 (map (Pair cb) (header_log i 0 hs)) =
      Inr (t', map (Pair cb) (header_log i 0 hs @ map (\<lambda>d. (i, CHANNEL_DATA, n, d)) ds @ [(i, CHANNEL_END, n, [])]))"
    "find_ch i t' = None" "\<forall>j. j \<noteq> i \<longrightarrow> find_ch j t' = find_ch j t2"
    using c2(2,3) by auto
  have "find_ch j t' = find_ch j t" for j
    using d(2,3) n2 res(2) i(2) unfolding now_def by (cases "j = i") metis+
  with d(1) h show ?thesis by simp
qed

theorem request_is_answered_witness:
  "\<exists>t1 c1 t'. run_request (Search ''abba'' 0 100) True no_channels (conn_out [Taken 65000]) = Inr (0, t1, c1) \<and>
     deliver_all log_run 0 [0, 0, 0, 0] ((concat (map hdr [[1]]) @ put_u16 0) # [[31, 139]] @ [[]]) t1 [] =
      Inr (t', [(True, 0, CHANNEL_HEADER, 1, [1]), (True, 0, CHANNEL_DATA, 1, [31, 139]), (True, 0, CHANNEL_END, 1, [])])"
proof -
  obtain t1 c1 where r: "run_request (Search ''abba'' 0 100) True no_channels (conn_out [Taken 65000]) =
      Inr (0, t1, c1)"
    using search_sent [of True] by blast
  have ok: "request_ok (Search ''abba'' 0 100)" "first_state (Search ''abba'' 0 100) = CHANNEL_HEADER"
    by (simp_all add: first_state_def)
  have "\<exists>t'. deliver_all log_run 0 [0, 0, 0, 0] ((concat (map hdr [[1]]) @ put_u16 0) # [[31, 139]] @ [[]]) t1 [] =
      Inr (t', map (Pair True) (header_log 0 0 [[1]] @ map (\<lambda>d. (0, CHANNEL_DATA, 1, d)) [[31, 139]] @ [(0, CHANNEL_END, 1, [])])) \<and>
      (\<forall>j. find_ch j t' = find_ch j (no_channels :: bool chan_table))"
    by (rule request_is_answered [OF ok(1) no_channels_ok(1) r ok(2)]) simp_all
  with r show ?thesis by auto
qed

end
