(* ===== verification/Xml.thy ===== *)
theory Xml
  imports Complex_Main Session
begin

text \<open>
  \<^verbatim>\<open>src/src/lib/xml.c\<close>, \<^verbatim>\<open>xml.h\<close> and the data types of \<^verbatim>\<open>despotify.h\<close>: what the client
  makes of the XML documents it receives, and the one tag it writes.

  The text of a document is turned into a tree by the bundled ezxml parser; the
  tree is the datatype \<open>ezxml\<close> and the parser the argument \<open>parse\<close> of the
  functions here, \<open>None\<close> for a text without a root element.  A pointer to an
  element together with its \<open>next\<close> chain is the list of the elements of one name
  under one parent.  Linked lists of the program are lists.
\<close>

section \<open>Elements\<close>

datatype ezxml = Ezxml
  (xname: string) (xattrs: "(string \<times> string) list") (xtxt: string) (xchildren: "ezxml list")

type_synonym parser = "byte list \<Rightarrow> ezxml option"

definition ezxml_child :: "ezxml \<Rightarrow> string \<Rightarrow> ezxml list" where
  "ezxml_child x n = filter (\<lambda>c. xname c = n) (xchildren x)"

text \<open>\<open>ezxml_get (x, n, 0, n', 0, ..., -1)\<close> and the siblings of what it finds.\<close>

fun ezxml_get :: "ezxml option \<Rightarrow> string list \<Rightarrow> ezxml list" where
  "ezxml_get None _ = []"
| "ezxml_get (Some x) [] = [x]"
| "ezxml_get (Some x) [n] = ezxml_child x n"
| "ezxml_get (Some x) (n # ns) =
     (case ezxml_child x n of [] \<Rightarrow> [] | c # _ \<Rightarrow> ezxml_get (Some c) ns)"

definition ezxml_attr :: "ezxml \<Rightarrow> string \<Rightarrow> string option" where
  "ezxml_attr x a = map_of (xattrs x) a"

fun first :: "'a list \<Rightarrow> 'a option" where
  "first [] = None"
| "first (x # _) = Some x"

section \<open>Numbers in text\<close>

definition isdigit :: "char \<Rightarrow> bool" where
  "isdigit c \<longleftrightarrow> (let n = of_char c :: nat in 48 \<le> n \<and> n \<le> 57)"

definition digit :: "char \<Rightarrow> nat" where
  "digit c = of_char c - 48"

definition digits_val :: "string \<Rightarrow> nat" where
  "digits_val s = foldl (\<lambda>v c. v * 10 + digit c) 0 s"

text \<open>\<open>atoi\<close>; the value is meant to fit an \<open>int\<close>.\<close>

definition atoi :: "string \<Rightarrow> int" where
  "atoi s =
     (let s = dropWhile isspace s;
          neg = (s \<noteq> [] \<and> hd s = CHR ''-'');
          s = (if s \<noteq> [] \<and> (hd s = CHR ''-'' \<or> hd s = CHR ''+'') then tl s else s);
          v = int (digits_val (takeWhile isdigit s))
      in if neg then - v else v)"

text \<open>
  \<open>atof\<close> for a decimal fraction without an exponent; the value is the exact one,
  before it is rounded to a \<open>float\<close>.
\<close>

definition atof :: "string \<Rightarrow> rat" where
  "atof s =
     (let s = dropWhile isspace s;
          neg = (s \<noteq> [] \<and> hd s = CHR ''-'');
          s = (if s \<noteq> [] \<and> (hd s = CHR ''-'' \<or> hd s = CHR ''+'') then tl s else s);
          whole = takeWhile isdigit s;
          rest = dropWhile isdigit s;
          frac = (if rest \<noteq> [] \<and> hd rest = CHR ''.'' then takeWhile isdigit (tl rest) else []);
          v = of_nat (digits_val whole) + of_nat (digits_val frac) / 10 ^ length frac
      in if neg then - v else v)"

text \<open>
  One \<open>%u\<close> of \<open>sscanf\<close>: white space, a sign, digits; the value of \<open>strtoul\<close> cut to
  32 bits, and the rest of the input.
\<close>

definition scan_u :: "string \<Rightarrow> (u32 \<times> string) option" where
  "scan_u s =
     (let s = dropWhile isspace s;
          neg = (s \<noteq> [] \<and> hd s = CHR ''-'');
          s = (if s \<noteq> [] \<and> (hd s = CHR ''-'' \<or> hd s = CHR ''+'') then tl s else s);
          ds = takeWhile isdigit s;
          v = min (digits_val ds) (2 ^ 64 - 1)
      in if ds = [] then None
         else Some (if neg then - word_of_nat v else word_of_nat v, dropWhile isdigit s))"

text \<open>\<open>sscanf (s, "%u,%u,...")\<close> with \<open>n\<close> conversions: the values assigned.\<close>

fun scan_us :: "nat \<Rightarrow> string \<Rightarrow> u32 list" where
  "scan_us 0 s = []"
| "scan_us (Suc n) s =
     (case scan_u s of
        None \<Rightarrow> []
      | Some (v, rest) \<Rightarrow>
          v # (if rest \<noteq> [] \<and> hd rest = CHR '','' then scan_us n (tl rest) else []))"

text \<open>
  \<open>sscanf (fmt, "Ogg Vorbis,%u,", &bitrate)\<close>: the number, or a mismatch (result
  0), or the end of the input before the number (result \<open>EOF\<close>, which is true as
  a condition and leaves \<open>bitrate\<close> unset).  The blank matches any white space.
\<close>

datatype ogg_match = Bitrate u32 | Mismatch | Input_End

fun match_literal :: "string \<Rightarrow> string \<Rightarrow> string + bool" where
  "match_literal [] s = Inl s"
| "match_literal (c # cs) [] = Inr True"
| "match_literal (c # cs) (d # s) = (if c = d then match_literal cs s else Inr False)"

definition sscanf_ogg :: "string \<Rightarrow> ogg_match" where
  "sscanf_ogg fmt =
     (case match_literal ''Ogg'' fmt of
        Inr e \<Rightarrow> if e then Input_End else Mismatch
      | Inl s \<Rightarrow>
          (case match_literal ''Vorbis,'' (dropWhile isspace s) of
             Inr e \<Rightarrow> if e then Input_End else Mismatch
                | Inl s \<Rightarrow>
               (case scan_u s of
                  Some (v, _) \<Rightarrow> Bitrate v
                | None \<Rightarrow> if dropWhile isspace s = [] then Input_End else Mismatch)))"

text \<open>\<open>strstr (s, p) != NULL\<close>.\<close>

fun strstr :: "string \<Rightarrow> string \<Rightarrow> bool" where
  "strstr [] p \<longleftrightarrow> p = []"
| "strstr (c # s) p \<longleftrightarrow> take (length p) (c # s) = p \<or> strstr s p"

text \<open>The tokens \<open>strtok (s, ",\n")\<close> gives, one call after the other.\<close>

definition is_delim :: "char \<Rightarrow> bool" where
  "is_delim c \<longleftrightarrow> c = CHR '','' \<or> c = CHR 0x0A"

function strtok :: "string \<Rightarrow> string list" where
  "strtok s =
     (let s = dropWhile is_delim s in
      if s = [] then [] else takeWhile (\<lambda>c. \<not> is_delim c) s # strtok (dropWhile (\<lambda>c. \<not> is_delim c) s))"
  by pat_completeness auto
termination
proof (relation "measure length")
  fix s x :: string
  assume x: "x = dropWhile is_delim s" and ne: "x \<noteq> []"
  then have "\<not> is_delim (hd x)" using hd_dropWhile by metis
  then obtain c cs where c: "x = c # cs" "\<not> is_delim c"
    using ne by (cases x) auto
  have "length (dropWhile (\<lambda>c. \<not> is_delim c) x) < length x"
    using c length_dropWhile_le [of "\<lambda>c. \<not> is_delim c" cs] by simp
  also have "length x \<le> length s" using x length_dropWhile_le by simp
  finally show "(dropWhile (\<lambda>c. \<not> is_delim c) x, s) \<in> measure length" by simp
qed simp

declare strtok.simps [simp del]

section \<open>Data types\<close>

record ds_artist =
  ar_name :: string
  ar_id :: string
  ar_portrait_id :: string
  ar_popularity :: rat

record ds_track =
  has_meta_data :: bool
  playable :: bool
  geo_restricted :: bool
  track_id :: string
  file_id :: string
  file_bitrate :: u32
  album_id :: string
  cover_id :: string
  key :: "byte list option"
  allowed :: "string option"
  forbidden :: "string option"
  title :: string
  artist :: "ds_artist list"
  album :: string
  tr_length :: int
  tracknumber :: int
  year :: int
  popularity :: rat

record ds_playlist =
  pl_name :: string
  author :: string
  playlist_id :: string
  is_collaborative :: bool
  num_tracks :: int
  revision :: u32
  checksum :: u32
  tracks :: "ds_track list"

record ds_album =
  al_name :: string
  al_id :: string
  al_artist :: string
  al_artist_id :: string
  al_cover_id :: string
  al_popularity :: rat

record ds_album_browse =
  ab_name :: string
  ab_id :: string
  ab_num_tracks :: int
  ab_tracks :: "ds_track list"
  ab_year :: int
  ab_cover_id :: string
  ab_popularity :: rat

record ds_artist_browse =
  br_name :: string
  br_id :: string
  br_text :: "string option"
  br_portrait_id :: string
  br_genres :: string
  br_years_active :: string
  br_popularity :: rat
  br_num_albums :: int
  br_albums :: "ds_album_browse list"

record ds_search_result =
  query :: string
  suggestion :: string
  total_artists :: int
  total_albums :: int
  total_tracks :: int
  sr_artists :: "ds_artist list"
  sr_albums :: "ds_album list"

text \<open>What \<open>calloc\<close> gives.\<close>

definition zero_artist :: ds_artist where
  "zero_artist = \<lparr>ar_name = [], ar_id = [], ar_portrait_id = [], ar_popularity = 0\<rparr>"

definition zero_track :: ds_track where
  "zero_track = \<lparr>has_meta_data = False, playable = False, geo_restricted = False, track_id = [],
     file_id = [], file_bitrate = 0, album_id = [], cover_id = [], key = None, allowed = None,
     forbidden = None, title = [], artist = [], album = [], tr_length = 0, tracknumber = 0,
     year = 0, popularity = 0\<rparr>"

definition zero_playlist :: ds_playlist where
  "zero_playlist = \<lparr>pl_name = [], author = [], playlist_id = [], is_collaborative = False,
     num_tracks = 0, revision = 0, checksum = 0, tracks = []\<rparr>"

definition zero_album :: ds_album where
  "zero_album = \<lparr>al_name = [], al_id = [], al_artist = [], al_artist_id = [], al_cover_id = [],
     al_popularity = 0\<rparr>"

definition zero_album_browse :: ds_album_browse where
  "zero_album_browse = \<lparr>ab_name = [], ab_id = [], ab_num_tracks = 0, ab_tracks = [], ab_year = 0,
     ab_cover_id = [], ab_popularity = 0\<rparr>"

section \<open>Reading single values\<close>

text \<open>\<open>xmlstrncpy (dest, len, xml, path)\<close>: the new value of \<open>dest\<close>.\<close>

definition xmlstrncpy :: "string \<Rightarrow> nat \<Rightarrow> ezxml option \<Rightarrow> string list \<Rightarrow> string" where
  "xmlstrncpy dest len x path =
     (case ezxml_get x path of [] \<Rightarrow> dest | r # _ \<Rightarrow> take (len - 1) (xtxt r))"

definition xmlatoi :: "int \<Rightarrow> ezxml option \<Rightarrow> string list \<Rightarrow> int" where
  "xmlatoi dest x path = (case ezxml_get x path of [] \<Rightarrow> dest | r # _ \<Rightarrow> atoi (xtxt r))"

definition xmlatof :: "rat \<Rightarrow> ezxml option \<Rightarrow> string list \<Rightarrow> rat" where
  "xmlatof dest x path = (case ezxml_get x path of [] \<Rightarrow> dest | r # _ \<Rightarrow> atof (xtxt r))"

text \<open>
  \<open>xml_parse_version\<close>.  The numbers found are stored as far as they go; with
  fewer than four, \<open>collab\<close> is used although nothing was stored in it.
\<close>

definition xml_parse_version :: "ds_playlist \<Rightarrow> ezxml option \<Rightarrow> string list \<Rightarrow> ds_playlist result" where
  "xml_parse_version pl x path =
     (case ezxml_get x path of
        [] \<Rightarrow> Inr pl
      | r # _ \<Rightarrow>
          (case scan_us 4 (take 63 (xtxt r)) of
             [ver, num, chk, collab] \<Rightarrow>
               Inr (pl\<lparr>revision := ver, num_tracks := sint num, checksum := chk,
                       is_collaborative := collab \<noteq> 0\<rparr>)
           | _ \<Rightarrow> Inl Uninit))"

section \<open>Playlists\<close>

text \<open>
  \<open>xml_parse_playlist\<close>: the list of playlists that starts with \<open>pl\<close>.  Without an
  \<open>items\<close> element the first \<open>strtok\<close> gets a null pointer and looks into memory
  that is not there.
\<close>

definition list_of_playlists :: "ds_playlist \<Rightarrow> string list \<Rightarrow> ds_playlist list" where
  "list_of_playlists pl ids =
     (case ids of
        [] \<Rightarrow> [pl]
      | i # is \<Rightarrow> pl\<lparr>playlist_id := DSFYstrncpy i 35\<rparr> #
          map (\<lambda>i. zero_playlist\<lparr>playlist_id := DSFYstrncpy i 35\<rparr>) is)"

definition list_of_tracks :: "string list \<Rightarrow> ds_track list" where
  "list_of_tracks ids = map (\<lambda>i. zero_track\<lparr>track_id := DSFYstrncpy i 33\<rparr>) ids"

definition xml_parse_playlist ::
  "parser \<Rightarrow> ds_playlist \<Rightarrow> byte list \<Rightarrow> bool \<Rightarrow> ds_playlist list result" where
  "xml_parse_playlist parse pl xml list_of_lists =
     (let doc = parse xml in
      case ezxml_get doc [''next-change'', ''change'', ''ops'', ''add'', ''items''] of
        [] \<Rightarrow> Inl Null_Deref
      | x # _ \<Rightarrow>
          let items = dropWhile isspace (xtxt x);
              pls = (if list_of_lists then list_of_playlists pl (strtok items)
                     else [pl\<lparr>tracks := list_of_tracks (strtok items),
                              num_tracks := int (length (strtok items))\<rparr>]);
              p = hd pls;
              p = p\<lparr>author := xmlstrncpy (author p) 256 doc [''next-change'', ''change'', ''user'']\<rparr>;
              p = p\<lparr>pl_name := xmlstrncpy (pl_name p) 256 doc
                       [''next-change'', ''change'', ''ops'', ''name'']\<rparr>
          in rbind (xml_parse_version p doc [''next-change'', ''version'']) (\<lambda>p. Inr (p # tl pls)))"

text \<open>
  \<open>xml_parse_confirm\<close>: whether the server confirmed, and the playlist with the
  new version numbers.  A text without a root element leaves \<open>name\<close> null.
\<close>

definition xml_parse_confirm :: "parser \<Rightarrow> ds_playlist \<Rightarrow> byte list \<Rightarrow> (bool \<times> ds_playlist) result" where
  "xml_parse_confirm parse pl xml =
     (case parse xml of
        None \<Rightarrow> Inl Null_Deref
      | Some doc \<Rightarrow>
          if strncmp_eq (xname doc) ''confirm'' 7
          then rbind (xml_parse_version pl (Some doc) [''version'']) (\<lambda>pl. Inr (True, pl))
          else Inr (False, pl))"

section \<open>Tracks\<close>

text \<open>The artists of a track; the first struct is there even without an artist.\<close>

fun zip_artists :: "ezxml list \<Rightarrow> ezxml list \<Rightarrow> ds_artist list" where
  "zip_artists [] xids = []"
| "zip_artists (xa # xas) xids =
     (case xids of
        [] \<Rightarrow> zero_artist\<lparr>ar_name := DSFYstrncpy (xtxt xa) 256\<rparr>
      | xid # _ \<Rightarrow> zero_artist\<lparr>ar_name := DSFYstrncpy (xtxt xa) 256, ar_id := DSFYstrncpy (xtxt xid) 33\<rparr>)
     # zip_artists xas (tl xids)"

definition parse_track_artists :: "ezxml \<Rightarrow> ds_artist list" where
  "parse_track_artists track =
     (case zip_artists (ezxml_child track ''artist'') (ezxml_child track ''artist-id'') of
        [] \<Rightarrow> [zero_artist]
      | as \<Rightarrow> as)"

text \<open>The loop over the files of a track.\<close>

definition set_file_id :: "ezxml \<Rightarrow> ds_track \<Rightarrow> ds_track" where
  "set_file_id file t =
     (case ezxml_attr file ''id'' of
        None \<Rightarrow> t
      | Some i \<Rightarrow> t\<lparr>file_id := DSFYstrncpy i 41, playable := True\<rparr>)"

fun parse_files :: "bool \<Rightarrow> ezxml list \<Rightarrow> ds_track \<Rightarrow> ds_track result" where
  "parse_files high_bitrate [] t = Inr t"
| "parse_files high_bitrate (file # fs) t =
     (case ezxml_attr file ''format'' of
        None \<Rightarrow> parse_files high_bitrate fs t
      | Some fmt \<Rightarrow>
          (case sscanf_ogg fmt of
             Input_End \<Rightarrow> Inl Uninit
           | Mismatch \<Rightarrow> parse_files high_bitrate fs t
           | Bitrate b \<Rightarrow>
               if file_bitrate t < b then
                 if high_bitrate \<or> file_bitrate t = 0
                 then parse_files high_bitrate fs (set_file_id file (t\<lparr>file_bitrate := b\<rparr>))
                 else parse_files high_bitrate fs t
               else parse_files high_bitrate fs (set_file_id file t)))"

text \<open>The loop over the restrictions.\<close>

fun parse_restrictions :: "ezxml list \<Rightarrow> ds_track \<Rightarrow> ds_track" where
  "parse_restrictions [] t = t"
| "parse_restrictions (r # rs) t =
     parse_restrictions rs
       (case ezxml_attr r ''catalogues'' of
          None \<Rightarrow> t
        | Some c \<Rightarrow>
            if strstr c ''premium''
            then t\<lparr>allowed := ezxml_attr r ''allowed'', forbidden := ezxml_attr r ''forbidden''\<rparr>
            else t)"

text \<open>Everything \<open>parse_tracks\<close> stores in the struct it has found.\<close>

definition fill_track :: "bool \<Rightarrow> ezxml \<Rightarrow> ds_track \<Rightarrow> ds_track result" where
  "fill_track high_bitrate track t =
     (let x = Some track;
          t = t\<lparr>title := xmlstrncpy (title t) 256 x [''title''],
                album := xmlstrncpy (album t) 256 x [''album''],
                track_id := xmlstrncpy (track_id t) 33 x [''id''],
                cover_id := xmlstrncpy (cover_id t) 41 x [''cover''],
                album_id := xmlstrncpy (album_id t) 33 x [''album-id''],
                artist := parse_track_artists track\<rparr>
      in rbind (parse_files high_bitrate (ezxml_get x [''files'', ''file'']) t) (\<lambda>t.
           let t = parse_restrictions (ezxml_get x [''restrictions'', ''restriction'']) t
           in Inr (t\<lparr>year := xmlatoi (year t) x [''year''],
                     tr_length := xmlatoi (tr_length t) x [''length''],
                     tracknumber := xmlatoi (tracknumber t) x [''track-number''],
                     popularity := xmlatof (popularity t) x [''popularity''],
                     has_meta_data := True\<rparr>)))"

text \<open>
  The search for the struct of a track in an ordered list: by its id, then by
  the ids it is redirected from.  An id that was found by redirection is
  replaced by the new one.  \<open>rid\<close> holds up to 33 characters of the redirection
  without a terminator, so a longer one never matches an id.
\<close>

fun find_track :: "string \<Rightarrow> ds_track list \<Rightarrow> nat option" where
  "find_track i [] = None"
| "find_track i (t # ts) =
     (if \<not> has_meta_data t \<and> strncmp_eq (track_id t) i 33 then Some 0
      else map_option Suc (find_track i ts))"

fun find_redirect :: "ezxml list \<Rightarrow> ds_track list \<Rightarrow> nat option" where
  "find_redirect [] ts = None"
| "find_redirect (re # res) ts =
     (case find_track (take 33 (xtxt re)) ts of
        Some k \<Rightarrow> Some k
      | None \<Rightarrow> find_redirect res ts)"

text \<open>
  \<open>parse_tracks\<close> for an ordered list.  An element without an id is compared
  through an array that was never written.
\<close>

fun parse_ordered :: "bool \<Rightarrow> ezxml list \<Rightarrow> ds_track list \<Rightarrow> int \<Rightarrow> (int \<times> ds_track list) result" where
  "parse_ordered high_bitrate [] ts count = Inr (count, ts)"
| "parse_ordered high_bitrate (track # xs) ts count =
     (case ezxml_child track ''id'' of
        [] \<Rightarrow> if \<exists>t \<in> set ts. \<not> has_meta_data t then Inl Uninit
              else parse_ordered high_bitrate xs ts count
      | x # _ \<Rightarrow>
          let tid = take 32 (xtxt x) in
          (case find_track tid ts of
             Some k \<Rightarrow> rbind (fill_track high_bitrate track (ts ! k)) (\<lambda>t.
                 parse_ordered high_bitrate xs (ts[k := t]) (count + 1))
           | None \<Rightarrow>
               (case find_redirect (ezxml_child track ''redirect'') ts of
                  None \<Rightarrow> parse_ordered high_bitrate xs ts count
                | Some k \<Rightarrow>
                    rbind (fill_track high_bitrate track ((ts ! k)\<lparr>track_id := tid\<rparr>)) (\<lambda>t.
                      parse_ordered high_bitrate xs (ts[k := t]) (count + 1)))))"

text \<open>For an unordered list the structs are filled one after the other, and new ones appended.\<close>

fun parse_unordered ::
  "bool \<Rightarrow> ezxml list \<Rightarrow> ds_track list \<Rightarrow> nat \<Rightarrow> int \<Rightarrow> (int \<times> ds_track list) result" where
  "parse_unordered high_bitrate [] ts k count = Inr (count, ts)"
| "parse_unordered high_bitrate (track # xs) ts k count =
     (let ts = (if k < length ts then ts else ts @ [zero_track]) in
      rbind (fill_track high_bitrate track (ts ! k)) (\<lambda>t.
        parse_unordered high_bitrate xs (ts[k := t]) (k + 1) (count + 1)))"

definition parse_tracks ::
  "ezxml option \<Rightarrow> ds_track list \<Rightarrow> bool \<Rightarrow> bool \<Rightarrow> (int \<times> ds_track list) result" where
  "parse_tracks x ts ordered high_bitrate =
     (let xs = ezxml_get x [''track'']
      in if ordered then parse_ordered high_bitrate xs ts 0
         else parse_unordered high_bitrate xs ts 0 0)"

definition xml_parse_tracklist ::
  "parser \<Rightarrow> ds_track list \<Rightarrow> byte list \<Rightarrow> bool \<Rightarrow> bool \<Rightarrow> (int \<times> ds_track list) result" where
  "xml_parse_tracklist parse firsttrack xml ordered high_bitrate =
     parse_tracks (first (ezxml_get (parse xml) [''tracks''])) firsttrack ordered high_bitrate"

section \<open>Albums, artists, searches\<close>

definition parse_album :: "ezxml \<Rightarrow> ds_album \<Rightarrow> ds_album" where
  "parse_album doc a =
     (let x = Some doc in
      a\<lparr>al_name := xmlstrncpy (al_name a) 256 x [''name''],
        al_id := xmlstrncpy (al_id a) 33 x [''id''],
        al_artist := xmlstrncpy (al_artist a) 256 x [''artist-name''],
        al_artist_id := xmlstrncpy (al_artist_id a) 33 x [''artist-id''],
        al_cover_id := xmlstrncpy (al_cover_id a) 41 x [''cover''],
        al_popularity := xmlatof (al_popularity a) x [''popularity'']\<rparr>)"

definition parse_artist :: "ezxml \<Rightarrow> ds_artist \<Rightarrow> ds_artist" where
  "parse_artist doc a =
     (let x = Some doc in
      a\<lparr>ar_name := xmlstrncpy (ar_name a) 256 x [''name''],
        ar_id := xmlstrncpy (ar_id a) 33 x [''id''],
        ar_portrait_id := xmlstrncpy (ar_portrait_id a) 41 x [''portrait'', ''id''],
        ar_popularity := xmlatof (ar_popularity a) x [''popularity'']\<rparr>)"

definition parse_browse_album :: "ezxml \<Rightarrow> ds_album_browse \<Rightarrow> bool \<Rightarrow> ds_album_browse result" where
  "parse_browse_album doc a high_bitrate =
     (let x = Some doc;
          a = a\<lparr>ab_name := xmlstrncpy (ab_name a) 256 x [''name''],
                ab_id := xmlstrncpy (ab_id a) 33 x [''id''],
                ab_cover_id := xmlstrncpy (ab_cover_id a) 41 x [''cover''],
                ab_year := xmlatoi (ab_year a) x [''year''],
                ab_popularity := xmlatof (ab_popularity a) x [''popularity'']\<rparr>
      in rbind (parse_tracks (first (ezxml_get x [''discs'', ''disc''])) [zero_track] False high_bitrate)
           (\<lambda>(n, ts). Inr (a\<lparr>ab_num_tracks := n,
              ab_tracks := map (\<lambda>t. t\<lparr>album := DSFYstrncpy (ab_name a) 256,
                  album_id := DSFYstrncpy (ab_id a) 33, cover_id := DSFYstrncpy (ab_cover_id a) 41,
                  year := ab_year a\<rparr>) ts\<rparr>)))"

text \<open>The loops that build a list whose first struct exists from the start.\<close>

definition at_least :: "'a \<Rightarrow> 'a list \<Rightarrow> 'a list" where
  "at_least z xs = (if xs = [] then [z] else xs)"

definition xml_parse_search ::
  "parser \<Rightarrow> ds_search_result \<Rightarrow> ds_track list \<Rightarrow> byte list \<Rightarrow> bool
   \<Rightarrow> (int \<times> ds_search_result \<times> ds_track list) result" where
  "xml_parse_search parse search firsttrack xml high_bitrate =
     (let doc = parse xml;
          artists = first (ezxml_get doc [''artists'']);
          albums = first (ezxml_get doc [''albums'']);
          search = search\<lparr>suggestion := xmlstrncpy (suggestion search) 256 doc [''did-you-mean''],
            total_artists := xmlatoi (total_artists search) doc [''total-artists''],
            total_albums := xmlatoi (total_albums search) doc [''total-albums''],
            total_tracks := xmlatoi (total_tracks search) doc [''total-tracks''],
            sr_artists := at_least zero_artist
              (map (\<lambda>x. parse_artist x zero_artist) (ezxml_get artists [''artist''])),
            sr_albums := at_least zero_album
              (map (\<lambda>x. parse_album x zero_album) (ezxml_get albums [''album'']))\<rparr>
      in rbind (parse_tracks (first (ezxml_get doc [''tracks''])) firsttrack False high_bitrate)
           (\<lambda>(n, ts). Inr (n, search, ts)))"

fun collect :: "('a \<Rightarrow> 'b result) \<Rightarrow> 'a list \<Rightarrow> 'b list result" where
  "collect f [] = Inr []"
| "collect f (x # xs) = rbind (f x) (\<lambda>y. rbind (collect f xs) (\<lambda>ys. Inr (y # ys)))"

definition parse_browse_albums :: "bool \<Rightarrow> ezxml list \<Rightarrow> ds_album_browse list result" where
  "parse_browse_albums high_bitrate =
     collect (\<lambda>x. parse_browse_album x zero_album_browse high_bitrate)"

definition xml_parse_browse_artist ::
  "parser \<Rightarrow> ds_artist_browse \<Rightarrow> byte list \<Rightarrow> bool \<Rightarrow> ds_artist_browse result" where
  "xml_parse_browse_artist parse a xml high_bitrate =
     (let doc = parse xml;
          a = a\<lparr>br_name := xmlstrncpy (br_name a) 256 doc [''name''],
                br_genres := xmlstrncpy (br_genres a) 256 doc [''genres''],
                br_years_active := xmlstrncpy (br_years_active a) 256 doc [''years-active''],
                br_id := xmlstrncpy (br_id a) 33 doc [''id''],
                br_portrait_id := xmlstrncpy (br_portrait_id a) 41 doc [''portrait'', ''id''],
                br_popularity := xmlatof (br_popularity a) doc [''popularity''],
                br_text := (case ezxml_get doc [''bios'', ''bio'', ''text''] of
                    [] \<Rightarrow> br_text a | x # _ \<Rightarrow> Some (xtxt x))\<rparr>;
          xs = ezxml_get (first (ezxml_get doc [''albums''])) [''album'']
      in rbind (parse_browse_albums high_bitrate xs) (\<lambda>as.
           Inr (a\<lparr>br_albums := at_least zero_album_browse as, br_num_albums := int (length xs)\<rparr>)))"

definition xml_parse_browse_album ::
  "parser \<Rightarrow> ds_album_browse \<Rightarrow> byte list \<Rightarrow> bool \<Rightarrow> ds_album_browse result" where
  "xml_parse_browse_album parse a xml high_bitrate =
     (case parse xml of
        None \<Rightarrow> parse_browse_album (Ezxml [] [] [] []) a high_bitrate
      | Some doc \<Rightarrow> parse_browse_album doc a high_bitrate)"

text \<open>\<open>xml_parse_prodinfo\<close>; \<open>expiry\<close> is unset when there is no such element.\<close>

definition xml_parse_prodinfo :: "parser \<Rightarrow> ds_user_info \<Rightarrow> byte list \<Rightarrow> ds_user_info result" where
  "xml_parse_prodinfo parse u xml =
     (let doc = parse xml;
          u = u\<lparr>ui_type := xmlstrncpy (ui_type u) 16 doc [''product'', ''type'']\<rparr>
      in case ezxml_get doc [''product'', ''expiry''] of
           [] \<Rightarrow> Inl Uninit
         | x # _ \<Rightarrow> Inr (u\<lparr>ui_expiry := atoi (xtxt x) mod 2 ^ 32\<rparr>))"

section \<open>Writing a tag\<close>

text \<open>\<open>ezxml_ampencode\<close> for character data, and \<open>xml_gen_tag\<close>.\<close>

definition amp_char :: "char \<Rightarrow> string" where
  "amp_char c =
     (if c = CHR ''&'' then ''&amp;''
      else if c = CHR ''<'' then ''&lt;''
      else if c = CHR ''>'' then ''&gt;''
      else if c = CHR 0x0D then ''&#xD;''
      else [c])"

definition ezxml_ampencode :: "string \<Rightarrow> string" where
  "ezxml_ampencode s = concat (map amp_char s)"

definition xml_gen_tag :: "string \<Rightarrow> string \<Rightarrow> string" where
  "xml_gen_tag name content =
     ''<'' @ name @ ''>'' @ ezxml_ampencode content @ ''</'' @ name @ ''>''"

section \<open>Lists of tokens\<close>

fun join_ids :: "string list \<Rightarrow> string" where
  "join_ids [] = []"
| "join_ids [i] = i"
| "join_ids (i # is) = i @ CHR '','' # join_ids is"

definition plain_id :: "string \<Rightarrow> bool" where
  "plain_id i \<longleftrightarrow> i \<noteq> [] \<and> (\<forall>c \<in> set i. \<not> is_delim c \<and> \<not> isspace c)"

lemma strtok_Nil [simp]: "strtok [] = []"
  by (simp add: strtok.simps)

lemma strtok_delim: "is_delim c \<Longrightarrow> strtok (c # s) = strtok s"
  by (simp add: strtok.simps [of "c # s"] strtok.simps [of s])

lemma strtok_plain:
  assumes "plain_id i" "s = [] \<or> is_delim (hd s)"
  shows "strtok (i @ s) = i # strtok s"
proof -
  obtain c cs where i: "i = c # cs" using assms(1) by (cases i) (auto simp: plain_id_def)
  have all: "\<forall>d \<in> set i. \<not> is_delim d" using assms(1) by (simp add: plain_id_def)
  have d: "dropWhile is_delim (i @ s) = i @ s" using all i by simp
  have t: "takeWhile (\<lambda>c. \<not> is_delim c) (i @ s) = i" "dropWhile (\<lambda>c. \<not> is_delim c) (i @ s) = s"
    using all assms(2) by (simp_all add: takeWhile_append2 dropWhile_append2) (cases s; simp)+
  show ?thesis
    by (subst strtok.simps) (simp only: Let_def d t, simp add: i)
qed

lemma strtok_join: "\<forall>i \<in> set is. plain_id i \<Longrightarrow> strtok (join_ids is) = is"
proof (induction "is" rule: join_ids.induct)
  case (2 i)
  then show ?case using strtok_plain [of i "[]"] by simp
next
  case (3 i j js)
  have "is_delim CHR '',''" by (simp add: is_delim_def)
  with 3 strtok_plain [of i "CHR '','' # join_ids (j # js)"] show ?case
    by (simp add: strtok_delim)
qed simp

lemma join_no_space: "\<forall>i \<in> set is. plain_id i \<Longrightarrow> dropWhile isspace (join_ids is) = join_ids is"
proof (cases "is")
  case (Cons i js)
  assume a: "\<forall>i \<in> set is. plain_id i"
  then obtain c cs where "i = c # cs" "\<not> isspace c"
    using Cons by (cases i) (auto simp: plain_id_def)
  then show ?thesis using Cons by (cases js) auto
qed simp

section \<open>Files of a track\<close>

definition ogg_rate :: "ezxml \<Rightarrow> u32 option" where
  "ogg_rate f = (case ezxml_attr f ''format'' of
     None \<Rightarrow> None
   | Some fmt \<Rightarrow> (case sscanf_ogg fmt of Bitrate b \<Rightarrow> Some b | _ \<Rightarrow> None))"

lemma parse_files_high:
  assumes "ogg_rate f = Some b" "ezxml_attr f ''id'' = Some i"
  shows "parse_files True (f # fs) t =
    parse_files True fs (t\<lparr>file_bitrate := max (file_bitrate t) b, file_id := DSFYstrncpy i 41, playable := True\<rparr>)"
proof -
  obtain fmt where "ezxml_attr f ''format'' = Some fmt" "sscanf_ogg fmt = Bitrate b"
    using assms(1) by (auto simp: ogg_rate_def split: option.splits ogg_match.splits)
  with assms(2) show ?thesis by (auto simp: set_file_id_def max_def)
qed

lemma parse_files_frame:
  "parse_files hb fs t = Inr t' \<Longrightarrow> track_id t' = track_id t \<and> title t' = title t"
proof (induction hb fs t rule: parse_files.induct)
  case (2 hb f fs t)
  then show ?case
    by (auto simp: set_file_id_def split: option.splits ogg_match.splits if_splits)
qed simp

lemma parse_restrictions_frame:
  "track_id (parse_restrictions rs t) = track_id t" "title (parse_restrictions rs t) = title t"
  by (induction rs arbitrary: t) (auto split: option.splits)

lemma fill_track_result:
  assumes "fill_track hb x t = Inr t'"
  shows "has_meta_data t'" "track_id t' = xmlstrncpy (track_id t) 33 (Some x) [''id'']"
    "title t' = xmlstrncpy (title t) 256 (Some x) [''title'']"
proof -
  from assms obtain t1 where p: "parse_files hb (ezxml_get (Some x) [''files'', ''file''])
      (t\<lparr>title := xmlstrncpy (title t) 256 (Some x) [''title''],
        album := xmlstrncpy (album t) 256 (Some x) [''album''],
        track_id := xmlstrncpy (track_id t) 33 (Some x) [''id''],
        cover_id := xmlstrncpy (cover_id t) 41 (Some x) [''cover''],
        album_id := xmlstrncpy (album_id t) 33 (Some x) [''album-id''],
        artist := parse_track_artists x\<rparr>) = Inr t1"
    and t': "has_meta_data t'" "track_id t' = track_id t1" "title t' = title t1"
    by (auto simp: fill_track_def Let_def rbind_Inr_iff parse_restrictions_frame)
  from parse_files_frame [OF p] t' show "has_meta_data t'"
    "track_id t' = xmlstrncpy (track_id t) 33 (Some x) [''id'']"
    "title t' = xmlstrncpy (title t) 256 (Some x) [''title'']"
    by simp_all
qed

section \<open>Lists of tracks\<close>

lemma find_track_Some:
  "find_track i ts = Some k \<Longrightarrow> k < length ts \<and> \<not> has_meta_data (ts ! k) \<and> strncmp_eq (track_id (ts ! k)) i 33"
proof (induction i ts arbitrary: k rule: find_track.induct)
  case (2 i t ts)
  show ?case
  proof (cases "\<not> has_meta_data t \<and> strncmp_eq (track_id t) i 33")
    case True
    with "2.prems" show ?thesis by auto
  next
    case False
    with "2.prems" obtain j where "find_track i ts = Some j" "k = Suc j"
      by (auto split: if_splits)
    with "2.IH" [OF False] show ?thesis by simp
  qed
qed simp

lemma find_redirect_Some:
  "find_redirect res ts = Some k \<Longrightarrow> k < length ts \<and> \<not> has_meta_data (ts ! k)"
  by (induction res ts rule: find_redirect.induct)
     (auto split: option.splits dest: find_track_Some)

definition meta_count :: "ds_track list \<Rightarrow> int" where
  "meta_count ts = int (length (filter has_meta_data ts))"

lemma meta_count_update:
  "\<lbrakk>k < length ts; \<not> has_meta_data (ts ! k); has_meta_data t\<rbrakk> \<Longrightarrow>
   meta_count (ts[k := t]) = meta_count ts + 1"
proof (induction ts arbitrary: k)
  case (Cons u us)
  then show ?case by (cases k) (auto simp: meta_count_def)
qed simp

lemma parse_ordered_count:
  "parse_ordered hb xs ts n = Inr (m, ts') \<Longrightarrow>
   length ts' = length ts \<and> meta_count ts' - meta_count ts = m - n"
proof (induction hb xs ts n arbitrary: m ts' rule: parse_ordered.induct)
  case (2 hb x xs ts n)
  show ?case
  proof (cases "ezxml_child x ''id''")
    case Nil
    with "2.prems" have "parse_ordered hb xs ts n = Inr (m, ts')"
      by (auto split: if_splits)
    with "2.IH"(1) [OF Nil] "2.prems" Nil show ?thesis by (auto split: if_splits)
  next
    case (Cons y ys)
    let ?tid = "take 32 (xtxt y)"
    show ?thesis
    proof (cases "find_track ?tid ts")
      case (Some k)
      with "2.prems" Cons obtain t where f: "fill_track hb x (ts ! k) = Inr t"
        and rest: "parse_ordered hb xs (ts[k := t]) (n + 1) = Inr (m, ts')"
        by (auto simp: Let_def rbind_Inr_iff)
      have "meta_count (ts[k := t]) = meta_count ts + 1"
        using find_track_Some [OF Some] fill_track_result(1) [OF f] by (intro meta_count_update) auto
      with "2.IH"(4) [OF Cons refl Some f rest] show ?thesis by simp
    next
      case None
      show ?thesis
      proof (cases "find_redirect (ezxml_child x ''redirect'') ts")
        case none2: None
        with "2.prems" Cons None have "parse_ordered hb xs ts n = Inr (m, ts')" by (simp add: Let_def)
        with "2.IH"(2) [OF Cons refl None none2] show ?thesis by simp
      next
        case (Some k)
        with "2.prems" Cons None obtain t where f: "fill_track hb x ((ts ! k)\<lparr>track_id := ?tid\<rparr>) = Inr t"
          and rest: "parse_ordered hb xs (ts[k := t]) (n + 1) = Inr (m, ts')"
          by (auto simp: Let_def rbind_Inr_iff)
        have "meta_count (ts[k := t]) = meta_count ts + 1"
          using find_redirect_Some [OF Some] fill_track_result(1) [OF f] by (intro meta_count_update) auto
        with "2.IH"(3) [OF Cons refl None Some f rest] show ?thesis by simp
      qed
    qed
  qed
qed simp

lemma parse_unordered_all:
  "\<lbrakk>parse_unordered hb xs ts (length pre) n = Inr (m, ts'); ts = pre \<or> ts = pre @ [zero_track]\<rbrakk> \<Longrightarrow>
   m = n + int (length xs) \<and>
   (if xs = [] then ts' = ts
    else \<exists>us. ts' = pre @ us \<and> list_all2 (\<lambda>x u. fill_track hb x zero_track = Inr u) xs us)"
proof (induction xs arbitrary: ts pre n)
  case (Cons x xs)
  have ts: "(if length pre < length ts then ts else ts @ [zero_track]) = pre @ [zero_track]"
    using Cons.prems(2) by auto
  from Cons.prems(1) obtain t where f: "fill_track hb x zero_track = Inr t"
    and rest: "parse_unordered hb xs (pre @ [t]) (length pre + 1) (n + 1) = Inr (m, ts')"
    unfolding parse_unordered.simps Let_def ts by (auto simp: rbind_Inr_iff)
  have len: "length pre + 1 = length (pre @ [t])" by simp
  have IH: "m = n + 1 + int (length xs) \<and>
     (if xs = [] then ts' = pre @ [t]
      else \<exists>us. ts' = (pre @ [t]) @ us \<and> list_all2 (\<lambda>x u. fill_track hb x zero_track = Inr u) xs us)"
    by (rule Cons.IH [OF rest [unfolded len]]) simp
  then have ih: "m = n + 1 + int (length xs)"
    "if xs = [] then ts' = pre @ [t]
     else \<exists>us. ts' = (pre @ [t]) @ us \<and> list_all2 (\<lambda>x u. fill_track hb x zero_track = Inr u) xs us"
    by blast+
  have "\<exists>us. ts' = pre @ us \<and> list_all2 (\<lambda>x u. fill_track hb x zero_track = Inr u) (x # xs) us"
  proof (cases "xs = []")
    case True
    with ih(2) f show ?thesis by (intro exI [of _ "[t]"]) simp
  next
    case False
    with ih(2) obtain us where "ts' = (pre @ [t]) @ us"
      "list_all2 (\<lambda>x u. fill_track hb x zero_track = Inr u) xs us" by auto
    with f show ?thesis by (intro exI [of _ "t # us"]) simp
  qed
  with ih(1) show ?case by simp
qed simp

section \<open>Properties\<close>

text \<open>
  A list of tracks that is not ordered yields one track per element, in
  document order, each filled from its own element alone; the number returned is
  their number.
\<close>

lemma unordered_tracks_in_document_order:
  assumes "xml_parse_tracklist parse [zero_track] xml False hb = Inr (n, ts)"
    and "xs = ezxml_get (first (ezxml_get (parse xml) [''tracks''])) [''track'']" and "xs \<noteq> []"
  shows "n = int (length xs) \<and> list_all2 (\<lambda>x t. fill_track hb x zero_track = Inr t) xs ts"
  using parse_unordered_all [of hb xs "[zero_track]" "[]" 0 n ts] assms
  by (auto simp: xml_parse_tracklist_def parse_tracks_def Let_def)

definition tag :: "string \<Rightarrow> string \<Rightarrow> ezxml" where
  "tag n s = Ezxml n [] s []"

definition two_tracks :: parser where
  "two_tracks _ = Some (Ezxml ''result'' [] [] [Ezxml ''tracks'' [] []
     [Ezxml ''track'' [] [] [tag ''id'' ''aa'', tag ''title'' ''One''],
      Ezxml ''track'' [] [] [tag ''id'' ''bb'', tag ''title'' ''Two'', tag ''year'' ''1979'']]])"

lemmas xml_eval = xml_parse_tracklist_def parse_tracks_def two_tracks_def ezxml_child_def tag_def
  fill_track_def parse_track_artists_def xmlstrncpy_def xmlatoi_def xmlatof_def atoi_def
  digits_val_def digit_def isdigit_def isspace_def

lemma unordered_tracks_in_document_order_witness:
  "\<exists>ts. xml_parse_tracklist two_tracks [zero_track] [] False True = Inr (2, ts) \<and> length ts = 2 \<and>
     map title ts = [''One'', ''Two'']"
proof -
  obtain ts where r: "xml_parse_tracklist two_tracks [zero_track] [] False True = Inr (2, ts)"
    and t: "map title ts = [''One'', ''Two'']"
    by (simp add: xml_eval zero_track_def)
  have "ezxml_get (first (ezxml_get (two_tracks []) [''tracks''])) [''track''] \<noteq> []"
    by (simp add: two_tracks_def ezxml_child_def)
  from unordered_tracks_in_document_order [OF r refl this] r t show ?thesis
    by (auto dest!: arg_cong [where f = length])
qed

text \<open>
  An ordered list keeps its length, and the number returned is exactly the
  number of tracks that had no data before and have it now, whatever the elements
  of the document are.
\<close>

lemma ordered_tracks_counted:
  assumes "xml_parse_tracklist parse firsttrack xml True hb = Inr (n, ts)"
  shows "length ts = length firsttrack \<and>
    n = int (length (filter has_meta_data ts)) - int (length (filter has_meta_data firsttrack))"
  using parse_ordered_count [of hb _ firsttrack 0 n ts] assms
  by (auto simp: xml_parse_tracklist_def parse_tracks_def Let_def meta_count_def)

lemma ordered_tracks_counted_witness:
  "\<exists>ts. xml_parse_tracklist two_tracks (list_of_tracks [''bb'', ''cc'', ''aa'']) [] True True = Inr (2, ts) \<and>
     length ts = 3 \<and> int (length (filter has_meta_data ts)) = 2"
proof -
  obtain ts where r: "xml_parse_tracklist two_tracks (list_of_tracks [''bb'', ''cc'', ''aa'']) [] True True = Inr (2, ts)"
    by (simp add: xml_eval zero_track_def list_of_tracks_def DSFYstrncpy_def strncmp_eq_def)
  from ordered_tracks_counted [OF r] r show ?thesis
    by (simp add: list_of_tracks_def zero_track_def)
qed

text \<open>
  Asked for the high bitrate, the client remembers the highest bitrate on
  offer but takes the file that is listed last, whatever its bitrate.
\<close>

lemma high_bitrate_takes_last_file:
  assumes "\<forall>f \<in> set (fs @ [l]). ogg_rate f \<noteq> None \<and> ezxml_attr f ''id'' \<noteq> None"
    and "ezxml_attr l ''id'' = Some i"
  shows "\<exists>t'. parse_files True (fs @ [l]) t = Inr t' \<and> file_id t' = DSFYstrncpy i 41 \<and> playable t' \<and>
    file_bitrate t' = fold max (map (\<lambda>f. the (ogg_rate f)) (fs @ [l])) (file_bitrate t)"
  using assms
proof (induction fs arbitrary: t)
  case Nil
  then obtain b where "ogg_rate l = Some b" by auto
  then show ?case
    unfolding append_Nil parse_files_high [OF \<open>ogg_rate l = Some b\<close> assms(2)] by (simp add: max.commute)
next
  case (Cons f fs)
  obtain b j where f: "ogg_rate f = Some b" "ezxml_attr f ''id'' = Some j" using Cons.prems(1) by auto
  have "\<forall>f \<in> set (fs @ [l]). ogg_rate f \<noteq> None \<and> ezxml_attr f ''id'' \<noteq> None"
    using Cons.prems(1) by simp
  from Cons.IH [OF this assms(2), of "t\<lparr>file_bitrate := max (file_bitrate t) b,
      file_id := DSFYstrncpy j 41, playable := True\<rparr>"] f(1)
  show ?case
    unfolding append_Cons parse_files_high [OF f] by (simp add: max.commute)
qed

definition ogg_file :: "string \<Rightarrow> string \<Rightarrow> ezxml" where
  "ogg_file fmt i = Ezxml ''file'' [(''id'', i), (''format'', fmt)] [] []"

lemma high_bitrate_takes_last_file_witness:
  "\<exists>t'. parse_files True ([ogg_file ''Ogg Vorbis,320,1'' ''best''] @ [ogg_file ''Ogg Vorbis,96,1'' ''worst'']) zero_track =
     Inr t' \<and> file_id t' = ''worst'' \<and> file_bitrate t' = 320"
proof -
  have r: "ogg_rate (ogg_file ''Ogg Vorbis,320,1'' ''best'') = Some 320"
    "ogg_rate (ogg_file ''Ogg Vorbis,96,1'' ''worst'') = Some 96"
    by (simp_all add: ogg_rate_def ogg_file_def ezxml_attr_def sscanf_ogg_def scan_u_def Let_def
        isspace_def isdigit_def digits_val_def digit_def)
  have i: "ezxml_attr (ogg_file f x) ''id'' = Some x" for f x
    by (simp add: ogg_file_def ezxml_attr_def)
  have "\<forall>f \<in> set ([ogg_file ''Ogg Vorbis,320,1'' ''best''] @ [ogg_file ''Ogg Vorbis,96,1'' ''worst'']).
      ogg_rate f \<noteq> None \<and> ezxml_attr f ''id'' \<noteq> None"
    using r i by simp
  from high_bitrate_takes_last_file [OF this i, of zero_track] r show ?thesis
    by (auto simp: DSFYstrncpy_def zero_track_def)
qed

text \<open>
  A playlist's ids come out of the document as they went in: parsing a
  document whose \<open>items\<close> are the ids joined by commas gives one track per id, in
  order; but the number of tracks recorded is the one of the \<open>version\<close> element.
\<close>

lemma playlist_ids_roundtrip:
  assumes "\<forall>i \<in> set is. plain_id i \<and> length i \<le> 32"
    and "ezxml_get (parse xml) [''next-change'', ''change'', ''ops'', ''add'', ''items''] = x # xs"
    and "xtxt x = join_ids is"
    and "ezxml_get (parse xml) [''next-change'', ''version''] = v # vs"
    and "scan_us 4 (take 63 (xtxt v)) = [ver, num, chk, collab]"
  shows "\<exists>p. xml_parse_playlist parse pl xml False = Inr [p] \<and> map track_id (tracks p) = is \<and>
    num_tracks p = sint num \<and> revision p = ver \<and> checksum p = chk"
proof -
  have p: "\<forall>i \<in> set is. plain_id i" using assms(1) by simp
  have "map track_id (list_of_tracks is) = is"
    using assms(1) by (simp add: list_of_tracks_def DSFYstrncpy_def map_idI)
  then show ?thesis
    using strtok_join [OF p] join_no_space [OF p] assms(2-5)
    by (simp add: xml_parse_playlist_def xml_parse_version_def Let_def)
qed

definition short_playlist :: parser where
  "short_playlist _ = Some (Ezxml ''playlist'' [] [] [Ezxml ''next-change'' [] []
     [Ezxml ''change'' [] [] [Ezxml ''ops'' [] [] [Ezxml ''add'' [] [] [tag ''items'' ''aa,bb'']]],
      tag ''version'' ''7,3,9,0'']])"

lemma playlist_ids_roundtrip_witness:
  "\<exists>p. xml_parse_playlist short_playlist zero_playlist [] False = Inr [p] \<and>
     map track_id (tracks p) = [''aa'', ''bb''] \<and> num_tracks p = 3"
proof -
  have ids: "\<forall>i \<in> set [''aa'', ''bb'']. plain_id i \<and> length i \<le> 32"
    by (simp add: plain_id_def is_delim_def isspace_def)
  have items: "ezxml_get (short_playlist []) [''next-change'', ''change'', ''ops'', ''add'', ''items''] =
      [tag ''items'' ''aa,bb'']"
    and version: "ezxml_get (short_playlist []) [''next-change'', ''version''] = [tag ''version'' ''7,3,9,0'']"
    and joined: "xtxt (tag ''items'' ''aa,bb'') = join_ids [''aa'', ''bb'']"
    by (simp_all add: short_playlist_def ezxml_child_def tag_def)
  have four: "(4 :: nat) = Suc (Suc (Suc (Suc 0)))" by simp
  have scanned: "scan_us 4 (take 63 (xtxt (tag ''version'' ''7,3,9,0''))) = [7, 3, 9, 0]"
    unfolding tag_def four
    by (simp add: scan_u_def Let_def isspace_def isdigit_def digits_val_def digit_def)
  from playlist_ids_roundtrip [where parse = short_playlist and xml = "[]",
      OF ids items joined version scanned, of zero_playlist]
  show ?thesis by auto
qed

lemma amp_char_no_bracket: "CHR ''<'' \<notin> set (amp_char c) \<and> CHR ''>'' \<notin> set (amp_char c)"
  by (simp add: amp_char_def)

lemma amp_char_cases:
  "c = CHR ''&'' \<and> amp_char c = ''&amp;'' \<or> c = CHR ''<'' \<and> amp_char c = ''&lt;'' \<or>
   c = CHR ''>'' \<and> amp_char c = ''&gt;'' \<or> c = CHR 0x0D \<and> amp_char c = ''&#xD;'' \<or>
   c \<noteq> CHR ''&'' \<and> amp_char c = [c]"
  by (simp add: amp_char_def)

lemma amp_char_split:
  assumes "amp_char c @ x = amp_char d @ y"
  shows "c = d \<and> x = y"
  using amp_char_cases [of c] amp_char_cases [of d] assms by (elim disjE conjE) simp_all

lemma ampencode_inject: "ezxml_ampencode s = ezxml_ampencode u \<longleftrightarrow> s = u"
proof
  assume "ezxml_ampencode s = ezxml_ampencode u"
  then show "s = u"
  proof (induction s arbitrary: u)
    case Nil
    then show ?case by (cases u) (auto simp: ezxml_ampencode_def amp_char_def split: if_splits)
  next
    case (Cons c s)
    show ?case
    proof (cases u)
      case Nil
      with Cons.prems show ?thesis by (auto simp: ezxml_ampencode_def amp_char_def split: if_splits)
    next
      case (Cons d v)
      with Cons.prems have "amp_char c @ ezxml_ampencode s = amp_char d @ ezxml_ampencode v"
        by (simp add: ezxml_ampencode_def)
      from amp_char_split [OF this] Cons.IH Cons show ?thesis by simp
    qed
  qed
qed simp

text \<open>
  A generated tag cannot be broken out of: between the opening and the
  closing tag there is no angle bracket, and different contents give different
  tags.
\<close>

lemma xml_gen_tag_safe:
  "\<exists>body. xml_gen_tag name content = ''<'' @ name @ ''>'' @ body @ ''</'' @ name @ ''>'' \<and>
     CHR ''<'' \<notin> set body \<and> CHR ''>'' \<notin> set body \<and>
     (xml_gen_tag name content = xml_gen_tag name content' \<longleftrightarrow> content = content')"
proof (intro exI conjI)
  show "xml_gen_tag name content = ''<'' @ name @ ''>'' @ ezxml_ampencode content @ ''</'' @ name @ ''>''"
    by (simp only: xml_gen_tag_def)
  show "CHR ''<'' \<notin> set (ezxml_ampencode content)" "CHR ''>'' \<notin> set (ezxml_ampencode content)"
    using amp_char_no_bracket by (auto simp: ezxml_ampencode_def)
  show "xml_gen_tag name content = xml_gen_tag name content' \<longleftrightarrow> content = content'"
    by (simp add: xml_gen_tag_def ampencode_inject)
qed

end
