(* ===== verification/Cache.thy ===== *)
theory Cache
  imports Prelude
begin

text \<open>
  \<^verbatim>\<open>src/src/lib/cache.c\<close>: answers kept in files, one per id.  The disk is a record:
  the files and directories there are, which paths the process may create or write, how
  many bytes a write can still place, and the global \<open>cache_directory\<close>.

  What the rest of the library needs of the cache is the locale \<open>blob_store\<close>; it is
  interpreted on the functions here.
\<close>

section \<open>The disk\<close>

record disk =
  environ :: "string \<rightharpoonup> string"
  dirs :: "string set"
  files :: "string \<rightharpoonup> byte list"
  may_write :: "string \<Rightarrow> bool"
  room :: nat
  cache_directory :: string

definition PATH_MAX :: nat where
  "PATH_MAX = 4096"

text \<open>What \<open>snprintf\<close> and \<open>strncat\<close> leave in an array of \<open>PATH_MAX\<close>.\<close>

definition in_path :: "string \<Rightarrow> string" where
  "in_path s = take (PATH_MAX - 1) s"

datatype mkdir_result = Made | EEXIST | Other_Error

definition mkdir :: "string \<Rightarrow> disk \<Rightarrow> mkdir_result \<times> disk" where
  "mkdir p d =
     (if p \<in> dirs d \<or> files d p \<noteq> None then (EEXIST, d)
      else if may_write d p then (Made, d\<lparr>dirs := insert p (dirs d)\<rparr>)
      else (Other_Error, d))"

section \<open>The operations\<close>

definition make_cache_directory :: "disk \<Rightarrow> bool \<times> disk" where
  "make_cache_directory d =
     (case mkdir (cache_directory d) d of
        (Made, d) \<Rightarrow> (True, d)
      | (EEXIST, d) \<Rightarrow> (True, d)
      | (Other_Error, d) \<Rightarrow> (False, d))"

definition cache_init :: "disk \<Rightarrow> bool \<times> disk" where
  "cache_init d =
     (case environ d ''XDG_CACHE_HOME'' of
        Some p \<Rightarrow> make_cache_directory (d\<lparr>cache_directory := in_path (p @ ''/despotify'')\<rparr>)
      | None \<Rightarrow>
          (case environ d ''HOME'' of
             None \<Rightarrow> (False, d)
           | Some p \<Rightarrow>
               let dir = in_path (p @ ''/.cache'');
                   (r, d) = mkdir dir (d\<lparr>cache_directory := dir\<rparr>)
               in if r = Other_Error then (False, d)
                  else make_cache_directory (d\<lparr>cache_directory := in_path (dir @ ''/despotify'')\<rparr>)))"

definition cache_filename :: "string \<Rightarrow> disk \<Rightarrow> string" where
  "cache_filename name d = in_path (cache_directory d @ ''/'' @ name)"

text \<open>The entries of a directory that are files.\<close>

definition in_dir :: "string \<Rightarrow> string \<Rightarrow> bool" where
  "in_dir dir p \<longleftrightarrow> take (length dir + 1) p = dir @ ''/'' \<and> CHR ''/'' \<notin> set (drop (length dir + 1) p)"

definition cache_clear :: "disk \<Rightarrow> disk" where
  "cache_clear d =
     (if cache_directory d \<in> dirs d
      then d\<lparr>files := (\<lambda>p. if in_dir (cache_directory d) p \<and> may_write d p then None else files d p)\<rparr>
      else d)"

definition cache_contains :: "string \<Rightarrow> disk \<Rightarrow> bool" where
  "cache_contains i d \<longleftrightarrow> files d (cache_filename i d) \<noteq> None"

definition cache_load :: "string \<Rightarrow> disk \<Rightarrow> byte list option" where
  "cache_load i d = files d (cache_filename i d)"

definition cache_remove :: "string \<Rightarrow> disk \<Rightarrow> disk" where
  "cache_remove i d =
     (if may_write d (cache_filename i d) then d\<lparr>files := (files d)(cache_filename i d := None)\<rparr> else d)"

text \<open>\<open>fopen (name, "w")\<close> and \<open>fwrite\<close>: the file is emptied first, then takes what there is room for.\<close>

definition write_file :: "string \<Rightarrow> byte list \<Rightarrow> disk \<Rightarrow> disk" where
  "write_file p data d =
     (if may_write d p then d\<lparr>files := (files d)(p \<mapsto> take (room d) data)\<rparr> else d)"

definition cache_store :: "string \<Rightarrow> byte list \<Rightarrow> disk \<Rightarrow> disk" where
  "cache_store i data d = write_file (cache_filename i d) data d"

text \<open>The revision is stored as the four bytes it has in memory.\<close>

definition le_bytes :: "u32 \<Rightarrow> byte list" where
  "le_bytes w = [ucast w, ucast (drop_bit 8 w), ucast (drop_bit 16 w), ucast (drop_bit 24 w)]"

definition le_word :: "byte list \<Rightarrow> u32" where
  "le_word b = get_u32 (b ! 3) (b ! 2) (b ! 1) (b ! 0)"

definition cache_get_meta_playlist_revision :: "disk \<Rightarrow> u32" where
  "cache_get_meta_playlist_revision d =
     (case files d (cache_filename ''meta_playlist_revision'' d) of
        None \<Rightarrow> 0
      | Some b \<Rightarrow> if length b < 4 then 0 else le_word b)"

definition cache_set_meta_playlist_revision :: "u32 \<Rightarrow> disk \<Rightarrow> disk" where
  "cache_set_meta_playlist_revision r d =
     write_file (cache_filename ''meta_playlist_revision'' d) (le_bytes r) d"

section \<open>The contract\<close>

text \<open>
  A store of blobs under ids: \<open>ready d i n\<close> says that a blob of \<open>n\<close> bytes can be stored
  under \<open>i\<close>.
\<close>

locale blob_store =
  fixes contains :: "string \<Rightarrow> 's \<Rightarrow> bool"
    and load :: "string \<Rightarrow> 's \<Rightarrow> byte list option"
    and store :: "string \<Rightarrow> byte list \<Rightarrow> 's \<Rightarrow> 's"
    and ready :: "'s \<Rightarrow> string \<Rightarrow> nat \<Rightarrow> bool"
  assumes contains_iff: "contains i s \<longleftrightarrow> load i s \<noteq> None"
    and load_store: "ready s i (length b) \<Longrightarrow> load i (store i b s) = Some b"
    and load_other: "\<lbrakk>i \<noteq> j; ready s i (length b); ready s j n\<rbrakk> \<Longrightarrow> load j (store i b s) = load j s"
    and ready_store: "ready s j n \<Longrightarrow> ready (store i b s) j n"
begin

lemma contains_store: "ready s i (length b) \<Longrightarrow> contains i (store i b s)"
  by (simp add: contains_iff load_store)

text \<open>A batch of blobs under different ids can be read back, whatever their order.\<close>

lemma load_stores:
  "\<lbrakk>distinct (map fst bs); \<forall>(i, b) \<in> set bs. ready s i (length b); (i, b) \<in> set bs\<rbrakk> \<Longrightarrow>
   load i (foldl (\<lambda>s (i, b). store i b s) s bs) = Some b"
proof (induction bs rule: rev_induct)
  case (snoc x bs)
  obtain j c where x: "x = (j, c)" by (cases x)
  let ?s = "foldl (\<lambda>s (i, b). store i b s) s bs"
  have keep: "ready ?s k n" if "ready s k n" for k n
    using that by (induction bs rule: rev_induct) (auto simp: ready_store)
  show ?case
  proof (cases "(i, b) = (j, c)")
    case True
    with snoc.prems x keep show ?thesis by (auto intro: load_store)
  next
    case False
    with snoc.prems x have "(i, b) \<in> set bs" by auto
    moreover from this have "i \<noteq> j" using snoc.prems(1) x by force
    ultimately have "load i (store j c ?s) = load i ?s"
      using snoc.prems(2) x keep by (intro load_other [of j i ?s c "length b"]) auto
    with snoc \<open>(i, b) \<in> set bs\<close> x show ?thesis by auto
  qed
qed simp

end

definition storable :: "disk \<Rightarrow> string \<Rightarrow> nat \<Rightarrow> bool" where
  "storable d i n \<longleftrightarrow>
     may_write d (cache_filename i d) \<and> n \<le> room d \<and> length (cache_directory d) + 1 + length i < PATH_MAX"

lemma cache_filename_fits:
  "length (cache_directory d) + 1 + length i < PATH_MAX \<Longrightarrow> cache_filename i d = cache_directory d @ ''/'' @ i"
  by (simp add: cache_filename_def in_path_def)

lemma cache_filename_frame [simp]: "cache_filename i (cache_store j b d) = cache_filename i d"
  by (simp add: cache_filename_def cache_store_def write_file_def)

interpretation cache: blob_store cache_contains cache_load cache_store storable
proof
  fix i j b n and d :: disk
  show "cache_contains i d \<longleftrightarrow> cache_load i d \<noteq> None"
    by (simp add: cache_contains_def cache_load_def)
  show "cache_load i (cache_store i b d) = Some b" if "storable d i (length b)"
    using that by (simp add: cache_load_def storable_def) (simp add: cache_store_def write_file_def)
  show "cache_load j (cache_store i b d) = cache_load j d"
    if "i \<noteq> j" "storable d i (length b)" "storable d j n"
  proof -
    have "cache_filename i d \<noteq> cache_filename j d"
      using that by (simp add: storable_def cache_filename_fits)
    then show ?thesis by (simp add: cache_load_def) (simp add: cache_store_def write_file_def)
  qed
  show "storable (cache_store i b d) j n" if "storable d j n"
    using that by (simp add: storable_def) (simp add: cache_store_def write_file_def)
qed

section \<open>Properties\<close>

lemma le_word_bytes: "le_word (le_bytes w) = w"
proof -
  have "put_u32 w = [ucast (drop_bit 24 w), ucast (drop_bit 16 w), ucast (drop_bit 8 w), ucast w]"
    by (simp add: put_u32_def ucast_and_ff)
  from get_put_u32 [OF this] show ?thesis by (simp add: le_word_def le_bytes_def)
qed

lemma meta_revision_roundtrip:
  assumes "storable d ''meta_playlist_revision'' 4"
  shows "cache_get_meta_playlist_revision (cache_set_meta_playlist_revision r d) = r"
proof -
  let ?n = "''meta_playlist_revision''"
  have "cache_set_meta_playlist_revision r d = cache_store ?n (le_bytes r) d"
    by (simp add: cache_set_meta_playlist_revision_def cache_store_def)
  moreover have "cache_load ?n (cache_store ?n (le_bytes r) d) = Some (le_bytes r)"
    using assms by (intro cache.load_store) (simp add: le_bytes_def eval_nat_numeral)
  ultimately show ?thesis
    unfolding cache_get_meta_playlist_revision_def
    using le_word_bytes [of r] by (simp add: cache_load_def) (simp add: le_bytes_def)
qed

text \<open>
  A run of operations on the cache, and what it promises: a map from ids to blobs and, beside it,
  the revision.
\<close>

datatype cache_op = Store string "byte list" | Remove string | Set_Revision u32

fun run_op :: "disk \<Rightarrow> cache_op \<Rightarrow> disk" where
  "run_op d (Store i b) = cache_store i b d"
| "run_op d (Remove i) = cache_remove i d"
| "run_op d (Set_Revision r) = cache_set_meta_playlist_revision r d"

fun spec_op :: "(string \<rightharpoonup> byte list) \<times> u32 \<Rightarrow> cache_op \<Rightarrow> (string \<rightharpoonup> byte list) \<times> u32" where
  "spec_op (m, v) (Store i b) = (m(i \<mapsto> b), v)"
| "spec_op (m, v) (Remove i) = (m(i := None), v)"
| "spec_op (m, v) (Set_Revision r) = (m, r)"

text \<open>An operation whose id is not the name of the revision's file and whose file can be written.\<close>

fun op_ok :: "disk \<Rightarrow> cache_op \<Rightarrow> bool" where
  "op_ok d (Store i b) \<longleftrightarrow> i \<noteq> ''meta_playlist_revision'' \<and> storable d i (length b)"
| "op_ok d (Remove i) \<longleftrightarrow> i \<noteq> ''meta_playlist_revision'' \<and> storable d i 0"
| "op_ok d (Set_Revision r) \<longleftrightarrow> storable d ''meta_playlist_revision'' 4"

definition op_file :: "cache_op \<Rightarrow> string" where
  "op_file x = (case x of Store i b \<Rightarrow> i | Remove i \<Rightarrow> i | Set_Revision r \<Rightarrow> ''meta_playlist_revision'')"

lemma filenames_differ:
  "\<lbrakk>i \<noteq> j; storable d i n; storable d j m\<rbrakk> \<Longrightarrow> cache_filename i d \<noteq> cache_filename j d"
  by (simp add: storable_def cache_filename_fits)

lemma op_ok_storable: "op_ok d x \<Longrightarrow> \<exists>n. storable d (op_file x) n"
  by (cases x) (auto simp: op_file_def)

lemma run_op_frame [simp]:
  "storable (run_op d x) i n \<longleftrightarrow> storable d i n" "op_ok (run_op d x) y \<longleftrightarrow> op_ok d y"
  "cache_filename i (run_op d x) = cache_filename i d"
proof -
  show s: "storable (run_op d x) i n \<longleftrightarrow> storable d i n" for i n
    by (cases x) (simp_all add: storable_def cache_store_def cache_remove_def
        cache_set_meta_playlist_revision_def write_file_def cache_filename_def)
  show "op_ok (run_op d x) y \<longleftrightarrow> op_ok d y" by (cases y) (simp_all add: s)
  show "cache_filename i (run_op d x) = cache_filename i d"
    by (cases x) (simp_all add: cache_store_def cache_remove_def
        cache_set_meta_playlist_revision_def write_file_def cache_filename_def)
qed

lemma run_op_other:
  assumes "op_ok d x" "i \<noteq> op_file x" "storable d i n"
  shows "files (run_op d x) (cache_filename i d) = files d (cache_filename i d)"
proof -
  obtain m where "storable d (op_file x) m" using op_ok_storable [OF assms(1)] by blast
  from filenames_differ [OF assms(2,3) this] show ?thesis
    by (cases x) (simp_all add: op_file_def cache_store_def cache_remove_def
        cache_set_meta_playlist_revision_def write_file_def)
qed

text \<open>One operation does to the disk what its specification says.\<close>

lemma run_op_spec:
  assumes "op_ok d x" "spec_op (m, v) x = (m', v')"
    and "i \<noteq> ''meta_playlist_revision''" "storable d i 0" "storable d ''meta_playlist_revision'' 4"
    and "cache_load i d = m i" "cache_get_meta_playlist_revision d = v"
  shows "cache_load i (run_op d x) = m' i" "cache_get_meta_playlist_revision (run_op d x) = v'"
proof -
  show "cache_load i (run_op d x) = m' i"
  proof (cases "i = op_file x")
    case True
    with assms show ?thesis
      by (cases x) (auto simp: op_file_def cache_load_def cache_store_def cache_remove_def write_file_def storable_def
          cache_filename_def)
  next
    case False
    then have "m' i = m i" using assms(2,3) by (cases x) (auto simp: op_file_def)
    with run_op_other [OF assms(1) False assms(4)] assms(6) show ?thesis by (simp add: cache_load_def)
  qed
  show "cache_get_meta_playlist_revision (run_op d x) = v'"
  proof (cases "op_file x = ''meta_playlist_revision''")
    case True
    then obtain r where "x = Set_Revision r" using assms(1) by (cases x) (auto simp: op_file_def)
    with assms(1,2) show ?thesis using meta_revision_roundtrip [of d r] by simp
  next
    case False
    then have "v' = v" using assms(2) by (cases x) (auto simp: op_file_def)
    with run_op_other [OF assms(1) False [symmetric] assms(5)] assms(7) show ?thesis
      by (simp add: cache_get_meta_playlist_revision_def)
  qed
qed

lemma run_ops_spec:
  assumes "\<forall>x \<in> set ops. op_ok d x" "foldl spec_op (m, v) ops = (m', v')"
    and "i \<noteq> ''meta_playlist_revision''" "storable d i 0" "storable d ''meta_playlist_revision'' 4"
    and "cache_load i d = m i" "cache_get_meta_playlist_revision d = v"
  shows "cache_load i (foldl run_op d ops) = m' i \<and> cache_get_meta_playlist_revision (foldl run_op d ops) = v'"
  using assms
proof (induction ops arbitrary: d m v)
  case (Cons x ops)
  obtain m1 v1 where s: "spec_op (m, v) x = (m1, v1)" by fastforce
  have "op_ok d x" using Cons.prems(1) by simp
  note r = run_op_spec [OF this s Cons.prems(3-7)]
  from Cons.IH [of "run_op d x" m1 v1] r s Cons.prems show ?case by simp
qed simp

text \<open>
  C33: What the cache is given it gives back.  However stores and removals under any ids are mixed
  with settings of the revision of the list of playlists, on a disk that has room each id then
  loads the bytes last stored under it (none after a removal, the old file if it was not
  touched), and the revision is the one last set: neither disturbs the other.
\<close>

theorem cache_roundtrip:
  assumes "\<forall>x \<in> set ops. op_ok d x"
    and "foldl spec_op (\<lambda>i. cache_load i d, cache_get_meta_playlist_revision d) ops = (m, v)"
    and "i \<noteq> ''meta_playlist_revision''" "storable d i 0" "storable d ''meta_playlist_revision'' 4"
  shows "cache_load i (foldl run_op d ops) = m i \<and> (cache_contains i (foldl run_op d ops) \<longleftrightarrow> m i \<noteq> None) \<and>
    cache_get_meta_playlist_revision (foldl run_op d ops) = v"
  using run_ops_spec [OF assms refl refl] by (simp add: cache.contains_iff)

definition empty_disk :: disk where
  "empty_disk = \<lparr>environ = (\<lambda>_. None), dirs = {}, files = (\<lambda>_. None), may_write = (\<lambda>_. True), room = 100,
     cache_directory = ''/tmp''\<rparr>"

theorem cache_roundtrip_witness:
  "let d = cache_remove ''cd'' (cache_store ''cd'' [3] (cache_set_meta_playlist_revision 7 (cache_store ''ab'' [1, 2] empty_disk)))
   in cache_load ''ab'' d = Some [1, 2] \<and> cache_get_meta_playlist_revision d = 7"
  using cache_roundtrip [of "[Store ''ab'' [1, 2], Set_Revision 7, Store ''cd'' [3], Remove ''cd'']" empty_disk _ 7 "''ab''"]
  by (simp add: storable_def empty_disk_def PATH_MAX_def)

end
