(* ===== verification/Client.thy ===== *)
theory Client
  imports Commands Xml Cache
begin

text \<open>
  The client's own state, \<open>struct despotify_session\<close> and the sound queue's structs of
  \<^verbatim>\<open>src/src/lib/despotify.h\<close>.  The record extends \<open>conn\<close>, so every request and every
  handler works on it as it is; \<open>d_disk\<close> is the file system.

  A pointer to a linked list of tracks or playlists is the list from there on, \<open>[]\<close> a
  null pointer.  The calls of the client's callback are recorded.  The library runs in
  two threads and the client's own; what the others do while a function waits or sleeps
  is a script, the type \<open>env\<close>.
\<close>

section \<open>The structs\<close>

datatype snd_cmd = SND_CMD_START | SND_CMD_DATA | SND_CMD_END | SND_CMD_CHANNEL_END

datatype dl_state = DL_FILLING | DL_FILLING_BUSY | DL_DRAINING | DL_END_OF_LIST

text \<open>
  What the data pointer of a queue entry points to: nothing, a copy of a track, or
  a block of bytes, some of which may never have been written.
\<close>

datatype snd_data = Null | Track_Copy ds_track | Cells "byte option list"

record snd_buffer =
  sb_length :: nat
  sb_cmd :: snd_cmd
  sb_consumed :: nat
  sb_ptr :: snd_data

text \<open>The list from \<open>start\<close> to \<open>end\<close> is \<open>buffers\<close>.\<close>

record snd_fifo =
  totbytes :: int
  maxbytes :: int
  watermark :: int
  lastcmd :: snd_cmd
  buffers :: "snd_buffer list"

datatype signal =
    DESPOTIFY_NEW_TRACK snd_data
  | DESPOTIFY_TIME_TELL rat
  | DESPOTIFY_END_OF_PLAYLIST

text \<open>The functions the library registers as callbacks of its channels.\<close>

datatype ds_callback =
    Dump_Generic
  | Aes_Callback
  | Substream_Callback
  | Plain_Callback
  | Gzip_Callback

text \<open>
  \<open>d_vf\<close> and \<open>d_mf\<close> tell whether a decoder is open; \<open>d_synced\<close> counts the signals on
  \<open>sync_cond\<close>.
\<close>

record client = conn +
  d_last_error :: "string option"
  d_aes_state :: "u32 list"
  d_IV :: "byte list"
  d_keystream :: "byte list"
  d_album_browse :: "ds_album_browse option"
  d_artist_browse :: "ds_artist_browse option"
  d_track :: "ds_track list"
  d_playlist :: "ds_playlist list"
  d_response :: "buf option"
  d_offset :: u32
  d_synced :: nat
  d_list_of_lists :: bool
  d_play_as_list :: bool
  d_high_bitrate :: bool
  d_use_cache :: bool
  d_callback :: bool
  d_signals :: "signal list"
  d_vf :: bool
  d_mf :: bool
  d_fifo :: "snd_fifo option"
  d_dlstate :: dl_state
  d_errorcount :: int
  d_dlabort :: bool
  d_disk :: disk

definition SUBSTREAM_SIZE :: nat where
  "SUBSTREAM_SIZE = 200 * 1024"

definition MAX_SEARCH_RESULTS :: nat where
  "MAX_SEARCH_RESULTS = 100"

text \<open>What \<open>calloc\<close> gives, around a connection.\<close>

definition client_of :: "disk \<Rightarrow> conn \<Rightarrow> client" where
  "client_of disk k =
     conn.extend k
       (client.fields None (replicate 44 0) (replicate 16 0) (replicate 16 0) None None [] [] None 0 0
          False False False False False [] False False None DL_FILLING 0 False disk)"

section \<open>The other threads\<close>

type_synonym table = "ds_callback chan_table"
type_synonym env = "(table \<Rightarrow> client \<Rightarrow> (table \<times> client) result) list"
type_synonym 'a outcome = "('a \<times> env \<times> table \<times> client) result"

text \<open>
  One wait: the others take their next step.  With nothing left to happen the caller
  stays where it is.
\<close>

definition let_others :: "env \<Rightarrow> table \<Rightarrow> client \<Rightarrow> (env \<times> table \<times> client) result" where
  "let_others env t c =
     (case env of [] \<Rightarrow> Inl Blocked | e # es \<Rightarrow> rbind (e t c) (\<lambda>(t, c). Inr (es, t, c)))"

text \<open>\<open>ds->client_callback (ds, signal, ...)\<close>, if there is one.\<close>

definition notify :: "signal \<Rightarrow> client \<Rightarrow> client" where
  "notify s c = (if d_callback c then c\<lparr>d_signals := d_signals c @ [s]\<rparr> else c)"

text \<open>A byte of a block that must have been written.\<close>

definition cell :: "byte option list \<Rightarrow> nat \<Rightarrow> byte result" where
  "cell m i = rbind (fetch m i) (\<lambda>x. case x of None \<Rightarrow> Inl Uninit | Some b \<Rightarrow> Inr b)"

lemma cell_written [simp]: "i < length m \<Longrightarrow> m ! i = Some b \<Longrightarrow> cell m i = Inr b"
  by (simp add: cell_def)

text \<open>A property the other threads keep.\<close>

definition env_keeps :: "(table \<Rightarrow> client \<Rightarrow> bool) \<Rightarrow> env \<Rightarrow> bool" where
  "env_keeps P env \<longleftrightarrow> (\<forall>e \<in> set env. \<forall>t c t' c'. P t c \<longrightarrow> e t c = Inr (t', c') \<longrightarrow> P t' c')"

lemma env_keeps_Nil [simp]: "env_keeps P []"
  by (simp add: env_keeps_def)

lemma env_keeps_Cons:
  "env_keeps P (e # es) \<longleftrightarrow> (\<forall>t c t' c'. P t c \<longrightarrow> e t c = Inr (t', c') \<longrightarrow> P t' c') \<and> env_keeps P es"
  by (simp add: env_keeps_def)

lemma let_others_keeps:
  "let_others env t c = Inr (env', t', c') \<Longrightarrow> env_keeps P env \<Longrightarrow> P t c \<Longrightarrow> env_keeps P env' \<and> P t' c'"
  by (cases env) (auto simp: let_others_def rbind_Inr_iff env_keeps_Cons)

lemma let_others_shorter: "let_others env t c = Inr (env', t', c') \<Longrightarrow> length env' < length env"
  by (cases env) (auto simp: let_others_def rbind_Inr_iff)

end
