(* ===== verification/Sndqueue.thy ===== *)
theory Sndqueue
  imports Client
begin

text \<open>
  \<^verbatim>\<open>src/src/lib/sndqueue.c\<close>: the queue between the network thread, which pushes
  decrypted audio, and the decoder, which pulls it; the state \<open>dlstate\<close> that decides
  when more is fetched; stopping and skipping.  \<open>despotify_snd_read_stream\<close> of
  \<^verbatim>\<open>despotify.c\<close> is here because filling the queue calls it.

  Proved here: the queue is a stream (bytes come out as they went in, track marks at
  their places), and its byte count is right whatever the threads do.
\<close>

section \<open>Start and reset\<close>

definition snd_reset_codec :: "client \<Rightarrow> client" where
  "snd_reset_codec c = (if d_vf c then c\<lparr>d_vf := False\<rparr> else if d_mf c then c\<lparr>d_mf := False\<rparr> else c)"

definition snd_reset :: "client \<Rightarrow> client result" where
  "snd_reset c =
     (case d_fifo c of
        None \<Rightarrow> Inl Null_Deref
      | Some f \<Rightarrow> Inr (snd_reset_codec (c\<lparr>d_fifo := Some (f\<lparr>totbytes := 0\<rparr>), d_dlstate := DL_DRAINING\<rparr>)))"

text \<open>The queue comes from \<open>calloc\<close>, which makes \<open>lastcmd\<close> the command numbered 0.\<close>

definition snd_init :: "client \<Rightarrow> bool \<times> client" where
  "snd_init c =
     (True, c\<lparr>d_dlstate := DL_FILLING,
       d_fifo := Some \<lparr>totbytes = 0, maxbytes = 1024 * 1024, watermark = 200 * 1024,
                       lastcmd = SND_CMD_START, buffers = []\<rparr>\<rparr>)"

definition snd_destroy :: "client \<Rightarrow> client" where
  "snd_destroy c = c\<lparr>d_fifo := None\<rparr>"

section \<open>Fetching more\<close>

definition despotify_snd_read_stream :: "table \<Rightarrow> client \<Rightarrow> (int \<times> table \<times> client) result" where
  "despotify_snd_read_stream t c =
     (case d_track c of
        [] \<Rightarrow> Inl Null_Deref
      | tr # _ \<Rightarrow>
          rbind (hex_id (file_id tr) 20) (\<lambda>fid.
          rbind (cmd_getsubstreams fid (d_offset c) (word_of_nat SUBSTREAM_SIZE) (200 * 1000)
                   Substream_Callback t c) (\<lambda>(r, t, c).
            Inr (if r \<noteq> 0 then -1 else 0, t, c))))"

text \<open>\<open>while (ds->dlstate == DL_FILLING_BUSY) shortsleep ();\<close>\<close>

fun wait_busy :: "env \<Rightarrow> table \<Rightarrow> client \<Rightarrow> (env \<times> table \<times> client) result" where
  "wait_busy [] t c = (if d_dlstate c = DL_FILLING_BUSY then Inl Blocked else Inr ([], t, c))"
| "wait_busy (e # es) t c =
     (if d_dlstate c = DL_FILLING_BUSY then rbind (e t c) (\<lambda>(t, c). wait_busy es t c)
      else Inr (e # es, t, c))"

definition start_filling :: "env \<Rightarrow> table \<Rightarrow> client \<Rightarrow> unit outcome" where
  "start_filling env t c =
     rbind (despotify_snd_read_stream t (c\<lparr>d_dlstate := DL_FILLING_BUSY\<rparr>)) (\<lambda>(_, t, c). Inr ((), env, t, c))"

definition snd_fill_fifo :: "env \<Rightarrow> table \<Rightarrow> client \<Rightarrow> unit outcome" where
  "snd_fill_fifo env t c =
     (if d_dlabort c then
        rbind (wait_busy env t c) (\<lambda>(env, t, c). Inr ((), env, t, c\<lparr>d_dlstate := DL_DRAINING\<rparr>))
      else case d_dlstate c of
        DL_DRAINING \<Rightarrow>
          (case d_fifo c of
             None \<Rightarrow> Inl Null_Deref
           | Some f \<Rightarrow> if totbytes f < watermark f then start_filling env t c else Inr ((), env, t, c))
      | DL_FILLING \<Rightarrow>
          (case d_fifo c of
             None \<Rightarrow> Inl Null_Deref
           | Some f \<Rightarrow>
               if totbytes f < maxbytes f - int SUBSTREAM_SIZE then start_filling env t c
               else Inr ((), env, t, c\<lparr>d_dlstate := DL_DRAINING\<rparr>))
      | _ \<Rightarrow> Inr ((), env, t, c))"

section \<open>Stopping and skipping\<close>

definition snd_stop :: "env \<Rightarrow> table \<Rightarrow> client \<Rightarrow> int outcome" where
  "snd_stop env t c =
     (let c = (if d_dlstate c = DL_FILLING \<or> d_dlstate c = DL_FILLING_BUSY then c\<lparr>d_dlabort := True\<rparr> else c)
      in rbind (wait_busy env t c) (\<lambda>(env, t, c).
           let c = c\<lparr>d_dlstate := DL_DRAINING\<rparr> in
           case d_fifo c of
             None \<Rightarrow> Inl Null_Deref
           | Some f \<Rightarrow>
               rbind (snd_reset (c\<lparr>d_fifo := Some (f\<lparr>buffers := []\<rparr>)\<rparr>)) (\<lambda>c.
                 Inr (0, env, t, c\<lparr>d_dlabort := False\<rparr>))))"

text \<open>The buffers in front of the next track go, and their lengths come off the count.\<close>

fun skip_track :: "snd_buffer list \<Rightarrow> int \<Rightarrow> snd_buffer list \<times> int" where
  "skip_track [] n = ([], n)"
| "skip_track (b # bs) n =
     (if sb_cmd b = SND_CMD_START then (b # bs, n) else skip_track bs (n - int (sb_length b)))"

definition snd_next :: "client \<Rightarrow> (int \<times> client) result" where
  "snd_next c =
     (case d_fifo c of
        None \<Rightarrow> Inl Null_Deref
      | Some f \<Rightarrow>
          let (bs, n) = skip_track (buffers f) (totbytes f);
              c = c\<lparr>d_fifo := Some (f\<lparr>buffers := bs, totbytes := n\<rparr>)\<rparr>
          in (case bs of
                [] \<Rightarrow> Inr (0, c)
              | b # _ \<Rightarrow> Inr (1, snd_reset_codec (notify (DESPOTIFY_NEW_TRACK (sb_ptr b)) c))))"

section \<open>Pushing\<close>

text \<open>
  The size of the first Ogg page: 28 and the entries of its segment table, whose number
  is byte 26.
\<close>

fun page_size :: "byte option list \<Rightarrow> nat \<Rightarrow> nat \<Rightarrow> nat result" where
  "page_size m 0 acc = Inr acc"
| "page_size m (Suc n) acc =
     rbind (page_size m n acc) (\<lambda>s. rbind (cell m (n + 27)) (\<lambda>b. Inr (s + unat b)))"

text \<open>
  The first page of a track is dropped when it is Spotify's own.  For a track mark,
  whose bytes are those of a \<open>struct ds_track\<close> with length 0, the condition
  \<open>offset < length\<close> never holds.
\<close>

definition drop_page :: "snd_buffer \<Rightarrow> snd_buffer result" where
  "drop_page b =
     (case sb_ptr b of
        Null \<Rightarrow> Inl Null_Deref
      | Track_Copy _ \<Rightarrow> Inr b
      | Cells m \<Rightarrow>
          rbind (cell m 5) (\<lambda>x.
            if x \<noteq> 6 then Inr b
            else
              rbind (cell m 26) (\<lambda>segments.
              rbind (page_size m (unat segments) 28) (\<lambda>offset.
                if offset < sb_length b then
                  rbind (slice m offset (sb_length b - offset)) (\<lambda>rest.
                    Inr (b\<lparr>sb_ptr := Cells (store_at m 0 rest), sb_length := sb_length b - offset\<rparr>))
                else Inr b))))"

definition snd_ioctl :: "snd_cmd \<Rightarrow> snd_data \<Rightarrow> nat \<Rightarrow> client \<Rightarrow> client result" where
  "snd_ioctl cmd data len c =
     (if cmd = SND_CMD_CHANNEL_END then
        Inr (if d_dlabort c then c\<lparr>d_dlstate := DL_DRAINING\<rparr>
             else if d_dlstate c \<noteq> DL_END_OF_LIST then c\<lparr>d_dlstate := DL_FILLING\<rparr> else c)
      else
        let c = (if cmd = SND_CMD_END \<and> d_track c = [] then c\<lparr>d_dlstate := DL_END_OF_LIST\<rparr> else c)
        in if d_dlabort c then Inr c
           else case d_fifo c of
             None \<Rightarrow> Inl Null_Deref
           | Some f \<Rightarrow>
               let buff = \<lparr>sb_length = len, sb_cmd = cmd, sb_consumed = 0, sb_ptr = data\<rparr>
               in rbind (if lastcmd f = SND_CMD_START then drop_page buff else Inr buff) (\<lambda>buff.
                    Inr (c\<lparr>d_fifo := Some (f\<lparr>buffers := buffers f @ [buff],
                       totbytes := totbytes f + int (sb_length buff), lastcmd := cmd\<rparr>)\<rparr>)))"

section \<open>Pulling\<close>

text \<open>What a consumer does with a piece at an offset; \<open>'p\<close> is what \<open>private\<close> points to.\<close>

type_synonym 'p consumer = "byte option list \<Rightarrow> 'p \<Rightarrow> nat \<Rightarrow> 'p result"

text \<open>The number of buffers bounds the turns between two waits.\<close>

definition queued :: "client \<Rightarrow> nat" where
  "queued c = (case d_fifo c of None \<Rightarrow> 0 | Some f \<Rightarrow> length (buffers f))"

text \<open>
  One turn of the loop over the first buffer \<open>b\<close>; the flag is \<open>loop\<close>.  A negative number
  of bytes would be undefined.  No \<open>case\<close> takes a \<open>SND_CMD_CHANNEL_END\<close>, which is never
  queued: the loop would spin on it.
\<close>

definition consume_turn ::
  "'p consumer \<Rightarrow> nat \<Rightarrow> nat \<Rightarrow> 'p \<Rightarrow> snd_fifo \<Rightarrow> snd_buffer \<Rightarrow> snd_buffer list \<Rightarrow> env \<Rightarrow> table \<Rightarrow> client
   \<Rightarrow> (bool \<times> nat \<times> 'p) outcome" where
  "consume_turn consumer req tot p f b bs env t c =
     (case sb_cmd b of
        SND_CMD_START \<Rightarrow>
          Inr ((True, tot, p), env, t,
            notify (DESPOTIFY_NEW_TRACK (sb_ptr b)) (c\<lparr>d_fifo := Some (f\<lparr>buffers := bs\<rparr>)\<rparr>))
      | SND_CMD_DATA \<Rightarrow>
          if sb_length b < sb_consumed b \<or> req < tot then Inl Undefined
          else
          let remaining = sb_length b - sb_consumed b;
              len = (if tot + remaining < req then remaining else req - tot)
          in rbind (case sb_ptr b of Cells m \<Rightarrow> slice m (sb_consumed b) len | _ \<Rightarrow> Inl Undefined) (\<lambda>d.
             rbind (consumer d p tot) (\<lambda>p.
               let b = b\<lparr>sb_consumed := sb_consumed b + len\<rparr>;
                   tot = tot + len;
                   f = (if sb_consumed b = sb_length b
                        then f\<lparr>buffers := bs, totbytes := totbytes f - int (sb_length b)\<rparr>
                        else f\<lparr>buffers := b # bs\<rparr>)
               in Inr ((\<not> (buffers f = [] \<or> tot = req), tot, p), env, t, c\<lparr>d_fifo := Some f\<rparr>)))
      | SND_CMD_END \<Rightarrow>
          if 0 < tot then Inr ((False, tot, p), env, t, c)
          else
            let c = c\<lparr>d_fifo := Some (f\<lparr>buffers := bs\<rparr>)\<rparr>
            in if bs = [] then
                 rbind (snd_stop env t c) (\<lambda>(_, env, t, c).
                   Inr ((False, tot, p), env, t, notify DESPOTIFY_END_OF_PLAYLIST c))
               else Inr ((False, tot, p), env, t, c)
      | SND_CMD_CHANNEL_END \<Rightarrow> Inl Blocked)"

lemma consume_turn_goes_on:
  assumes "consume_turn consumer req tot p f b bs env t c = Inr ((True, tot', p'), env', t', c')"
  shows "env' = env \<and> queued c' = length bs"
  using assms
  by (auto simp: consume_turn_def Let_def rbind_Inr_iff queued_def notify_def split: snd_cmd.splits if_splits)

function consume_loop ::
  "'p consumer \<Rightarrow> nat \<Rightarrow> nat \<Rightarrow> 'p \<Rightarrow> env \<Rightarrow> table \<Rightarrow> client \<Rightarrow> (nat \<times> 'p) outcome" where
  "consume_loop consumer req tot p env t c =
     (case d_fifo c of
        None \<Rightarrow> Inl Null_Deref
      | Some f \<Rightarrow>
          (case buffers f of
             [] \<Rightarrow>
               (case env of
                  [] \<Rightarrow> Inl Blocked
                | e # es \<Rightarrow>
                    rbind (e t c) (\<lambda>(t, c).
                      if queued c = 0 then Inr ((tot, p), es, t, c)
                      else consume_loop consumer req tot p es t c))
           | b # bs \<Rightarrow>
               rbind (consume_turn consumer req tot p f b bs env t c) (\<lambda>(r, env, t, c).
                 case r of (loop, tot, p) \<Rightarrow>
                   if loop then consume_loop consumer req tot p env t c else Inr ((tot, p), env, t, c))))"
  by pat_completeness auto

termination
  by (relation "measures [\<lambda>(consumer, req, tot, p, env, t, c). length env,
      \<lambda>(consumer, req, tot, p, env, t, c). queued c]")
    (auto dest: consume_turn_goes_on simp: queued_def)

declare consume_loop.simps [simp del]

definition snd_consume_data ::
  "nat \<Rightarrow> 'p \<Rightarrow> 'p consumer \<Rightarrow> env \<Rightarrow> table \<Rightarrow> client \<Rightarrow> (nat \<times> 'p) outcome" where
  "snd_consume_data req private consumer env t c = consume_loop consumer req 0 private env t c"

text \<open>
  The two consumers: the Ogg decoder's buffer is filled; the MPEG decoder, of which \<open>mf\<close> is the
  state, is fed, by a function of its library.
\<close>

definition vorbis_consume :: "byte option list consumer" where
  "vorbis_consume d p offset = (if offset + length d \<le> length p then Inr (store_at p offset d) else Inl Out_Of_Bounds)"

definition snd_ov_read_callback ::
  "byte option list \<Rightarrow> nat \<Rightarrow> nat \<Rightarrow> env \<Rightarrow> table \<Rightarrow> client \<Rightarrow> (nat \<times> byte option list) outcome" where
  "snd_ov_read_callback ptr sz nmemb env t c = snd_consume_data (sz * nmemb) ptr vorbis_consume env t c"

definition mpeg_consume :: "('m \<Rightarrow> byte option list \<Rightarrow> 'm) \<Rightarrow> 'm consumer" where
  "mpeg_consume mpg123_feed d mf offset = Inr (mpg123_feed mf d)"

definition snd_mpeg_feed_more_data ::
  "('m \<Rightarrow> byte option list \<Rightarrow> 'm) \<Rightarrow> 'm \<Rightarrow> env \<Rightarrow> table \<Rightarrow> client \<Rightarrow> (nat \<times> 'm) outcome" where
  "snd_mpeg_feed_more_data mpg123_feed mf env t c = snd_consume_data 4096 mf (mpeg_consume mpg123_feed) env t c"

text \<open>
  Whether a track starts as an Ogg stream: the queue must hold its mark and one buffer
  more.  The first four bytes of a \<open>struct ds_track\<close> are flags and an id, never \<open>OggS\<close>.
\<close>

fun wait_for_two :: "env \<Rightarrow> table \<Rightarrow> client \<Rightarrow> (env \<times> table \<times> client) result" where
  "wait_for_two [] t c = (if queued c < 2 then Inl Blocked else Inr ([], t, c))"
| "wait_for_two (e # es) t c =
     (if queued c < 2 then rbind (e t c) (\<lambda>(t, c). wait_for_two es t c) else Inr (e # es, t, c))"

definition snd_stream_is_vorbis :: "env \<Rightarrow> table \<Rightarrow> client \<Rightarrow> int outcome" where
  "snd_stream_is_vorbis env t c =
     rbind (wait_for_two env t c) (\<lambda>(env, t, c).
       case d_fifo c of
         None \<Rightarrow> Inl Null_Deref
       | Some f \<Rightarrow>
           (case buffers f of
              b_start # b_head # _ \<Rightarrow>
                if sb_cmd b_start \<noteq> SND_CMD_START then Inr (-1, env, t, c)
                else (case sb_ptr b_head of
                    Null \<Rightarrow> Inl Null_Deref
                  | Track_Copy _ \<Rightarrow> Inr (0, env, t, c)
                  | Cells m \<Rightarrow>
                      rbind (cell m 0) (\<lambda>b0. rbind (cell m 1) (\<lambda>b1.
                      rbind (cell m 2) (\<lambda>b2. rbind (cell m 3) (\<lambda>b3.
                        Inr (if [b0, b1, b2, b3] = bytes_of ''OggS'' then 1 else 0, env, t, c))))))
            | _ \<Rightarrow> Inl Blocked))"

section \<open>The queue as a stream\<close>

text \<open>What a reader of the queue meets: the mark of a track, its bytes, its end.\<close>

datatype item = Mark snd_data | Audio "byte option" | Finish

definition buf_items :: "snd_buffer \<Rightarrow> item list" where
  "buf_items b =
     (case sb_cmd b of
        SND_CMD_START \<Rightarrow> [Mark (sb_ptr b)]
      | SND_CMD_DATA \<Rightarrow>
          (case sb_ptr b of
             Cells m \<Rightarrow> map Audio (take (sb_length b - sb_consumed b) (drop (sb_consumed b) m))
           | _ \<Rightarrow> [])
      | SND_CMD_END \<Rightarrow> [Finish]
      | SND_CMD_CHANNEL_END \<Rightarrow> [])"

definition items :: "snd_buffer list \<Rightarrow> item list" where
  "items bs = concat (map buf_items bs)"

definition stream :: "client \<Rightarrow> item list" where
  "stream c = (case d_fifo c of None \<Rightarrow> [] | Some f \<Rightarrow> items (buffers f))"

text \<open>A buffer in order: a data buffer still has something to give.\<close>

definition buf_ok :: "snd_buffer \<Rightarrow> bool" where
  "buf_ok b =
     (case sb_cmd b of
        SND_CMD_START \<Rightarrow> sb_length b = 0
      | SND_CMD_DATA \<Rightarrow>
          (case sb_ptr b of Cells m \<Rightarrow> sb_consumed b < sb_length b \<and> sb_length b \<le> length m | _ \<Rightarrow> False)
      | SND_CMD_END \<Rightarrow> sb_length b = 0
      | SND_CMD_CHANNEL_END \<Rightarrow> False)"

text \<open>The byte count is that of the buffers in the queue.\<close>

definition fifo_ok :: "snd_fifo \<Rightarrow> bool" where
  "fifo_ok f \<longleftrightarrow> list_all buf_ok (buffers f) \<and> totbytes f = int (sum_list (map sb_length (buffers f)))"

definition client_ok :: "client \<Rightarrow> bool" where
  "client_ok c = (case d_fifo c of None \<Rightarrow> True | Some f \<Rightarrow> fifo_ok f)"

text \<open>
  The abstract reader: up to \<open>n\<close> bytes, over track marks, which are announced; it stops
  in front of an end of track if it has \<open>got\<close> bytes, and takes the end if it has none; it
  also stops when it has emptied the stream.  \<open>None\<close> is a reader that has to wait.  The
  result is the marks, the bytes, the rest, and whether an end was taken.
\<close>

fun pull :: "bool \<Rightarrow> nat \<Rightarrow> item list \<Rightarrow> (snd_data list \<times> byte option list \<times> item list \<times> bool) option" where
  "pull got n [] = None"
| "pull got n (Mark d # xs) = map_option (\<lambda>(ds, r). (d # ds, r)) (pull got n xs)"
| "pull got n (Audio b # xs) =
     (if n = 1 \<or> xs = [] then Some ([], [b], xs, False)
      else map_option (\<lambda>(ds, bs, r). (ds, b # bs, r)) (pull True (n - 1) xs))"
| "pull got n (Finish # xs) = Some ([], [], if got then Finish # xs else xs, \<not> got)"

lemma pull_audio:
  "\<lbrakk>ys \<noteq> []; 0 < n\<rbrakk> \<Longrightarrow> pull got n (map Audio ys @ xs) =
    (if n \<le> length ys then Some ([], take n ys, map Audio (drop n ys) @ xs, False)
     else if xs = [] then Some ([], ys, [], False)
     else map_option (\<lambda>(ds, bs, r). (ds, ys @ bs, r)) (pull True (n - length ys) xs))"
proof (induction ys arbitrary: got n)
  case (Cons y ys)
  show ?case
  proof (cases "ys = []")
    case True
    then show ?thesis using Cons.prems by (cases n) auto
  next
    case False
    then obtain k where n: "n = 1 \<or> n = Suc (Suc k)" using Cons.prems(2) by (cases n; cases "n - 1") auto
    with False Cons.IH [of "n - 1" True] show ?thesis
      by (auto simp: option.map_comp comp_def split_def)
  qed
qed simp

lemma items_simps [simp]: "items [] = []" "items (b # bs) = buf_items b @ items bs"
  by (simp_all add: items_def)

lemma buf_ok_data: "buf_ok b \<Longrightarrow> sb_cmd b = SND_CMD_DATA \<Longrightarrow> sb_consumed b < sb_length b"
  by (auto simp: buf_ok_def split: snd_data.splits)

lemma buf_items_nonempty: "buf_ok b \<Longrightarrow> buf_items b \<noteq> []"
  by (auto simp: buf_ok_def buf_items_def split: snd_cmd.splits snd_data.splits)

lemma items_Nil: "list_all buf_ok bs \<Longrightarrow> items bs = [] \<longleftrightarrow> bs = []"
  by (cases bs) (auto dest: buf_items_nonempty)

lemma store_at_store_at:
  "i + length d + length e \<le> length a \<Longrightarrow> store_at (store_at a i d) (i + length d) e = store_at a i (d @ e)"
  by (cases d) (auto simp: store_at_def min_def ac_simps)

lemma notify_frame [frame]:
  "d_fifo (notify s c) = d_fifo c" "d_dlstate (notify s c) = d_dlstate c" "d_callback (notify s c) = d_callback c"
  "d_vf (notify s c) = d_vf c" "d_mf (notify s c) = d_mf c"
  "d_signals (notify s c) = d_signals c @ (if d_callback c then [s] else [])"
  by (simp_all add: notify_def)

lemma codec_frame [frame]:
  "d_fifo (snd_reset_codec c) = d_fifo c" "d_signals (snd_reset_codec c) = d_signals c"
  "d_callback (snd_reset_codec c) = d_callback c" "d_dlstate (snd_reset_codec c) = d_dlstate c"
  "d_track (snd_reset_codec c) = d_track c" "d_offset (snd_reset_codec c) = d_offset c" "d_vf (snd_reset_codec c) = False"
  by (simp_all add: snd_reset_codec_def)

lemma wait_busy_idle: "d_dlstate c \<noteq> DL_FILLING_BUSY \<Longrightarrow> wait_busy env t c = Inr (env, t, c)"
  by (cases env) simp_all

text \<open>Stopping while nothing is being fetched.\<close>

lemma snd_stop_idle:
  assumes "d_fifo c = Some f" "d_dlstate c \<noteq> DL_FILLING_BUSY"
  shows "\<exists>c'. snd_stop env t c = Inr (0, env, t, c') \<and> stream c' = [] \<and> d_fifo c' = Some (f\<lparr>buffers := [], totbytes := 0\<rparr>) \<and>
    d_dlstate c' = DL_DRAINING \<and> \<not> d_dlabort c' \<and> d_signals c' = d_signals c \<and> d_callback c' = d_callback c \<and>
    \<not> d_vf c'"
  using assms by (simp add: snd_stop_def snd_reset_def wait_busy_idle frame Let_def stream_def)


text \<open>One turn, on each kind of buffer.\<close>

lemma turn_start:
  "sb_cmd b = SND_CMD_START \<Longrightarrow> consume_turn consumer req tot p f b bs env t c =
     Inr ((True, tot, p), env, t, notify (DESPOTIFY_NEW_TRACK (sb_ptr b)) (c\<lparr>d_fifo := Some (f\<lparr>buffers := bs\<rparr>)\<rparr>))"
  by (simp add: consume_turn_def)

lemma turn_data:
  assumes "sb_cmd b = SND_CMD_DATA" "sb_ptr b = Cells m" "sb_consumed b < sb_length b" "sb_length b \<le> length m"
    and "tot < req" "len = min (sb_length b - sb_consumed b) (req - tot)"
    and "consumer (take len (drop (sb_consumed b) m)) p tot = Inr p'"
  shows "consume_turn consumer req tot p f b bs env t c =
    (let f' = if len = sb_length b - sb_consumed b
              then f\<lparr>buffers := bs, totbytes := totbytes f - int (sb_length b)\<rparr>
              else f\<lparr>buffers := b\<lparr>sb_consumed := sb_consumed b + len\<rparr> # bs\<rparr>
     in Inr ((\<not> (buffers f' = [] \<or> tot + len = req), tot + len, p'), env, t, c\<lparr>d_fifo := Some f'\<rparr>))"
proof -
  have l: "(if tot + (sb_length b - sb_consumed b) < req then sb_length b - sb_consumed b else req - tot) = len"
    using assms(5,6) by (auto simp: min_def)
  have s: "slice m (sb_consumed b) len = Inr (take len (drop (sb_consumed b) m))"
    using assms(3,4,6) by (simp add: slice_def)
  have g: "\<not> (sb_length b < sb_consumed b \<or> req < tot)" using assms(3,5) by simp
  have e: "sb_consumed b + len = sb_length b \<longleftrightarrow> len = sb_length b - sb_consumed b" using assms(3) by auto
  show ?thesis
    unfolding consume_turn_def assms(1) snd_cmd.case Let_def if_not_P [OF g] l assms(2) snd_data.case s rbind.simps assms(7)
    using e by simp
qed

lemma loop_step:
  assumes "d_fifo c = Some f" "buffers f = b # bs"
  shows "consume_loop consumer req tot p env t c =
    rbind (consume_turn consumer req tot p f b bs env t c) (\<lambda>(r, env, t, c).
      case r of (loop, tot, p) \<Rightarrow>
        if loop then consume_loop consumer req tot p env t c else Inr ((tot, p), env, t, c))"
  by (subst consume_loop.simps) (simp add: assms)

definition announced :: "client \<Rightarrow> snd_data list \<Rightarrow> bool \<Rightarrow> signal list" where
  "announced c ds over =
     (if d_callback c then map DESPOTIFY_NEW_TRACK ds @ (if over then [DESPOTIFY_END_OF_PLAYLIST] else []) else [])"

text \<open>The client before and after a pull; \<open>over\<close> tells that the list has ended with it.\<close>

definition pulled :: "client \<Rightarrow> client \<Rightarrow> snd_data list \<Rightarrow> item list \<Rightarrow> bool \<Rightarrow> bool" where
  "pulled c c' ds rest over \<longleftrightarrow>
     stream c' = rest \<and> d_signals c' = d_signals c @ announced c ds over \<and> d_callback c' = d_callback c \<and>
     (\<exists>f. d_fifo c' = Some f \<and> list_all buf_ok (buffers f)) \<and> (d_vf c' \<longleftrightarrow> d_vf c \<and> \<not> over) \<and>
     (\<not> over \<longrightarrow> d_dlstate c' = d_dlstate c)"

text \<open>Pulling from the queue is pulling from the stream.\<close>

lemma consume_loop_pull:
  assumes "d_fifo c = Some f" "list_all buf_ok (buffers f)"
    and "d_dlstate c = DL_FILLING_BUSY \<Longrightarrow> \<not> (ended \<and> rest = [])"
    and "tot < req" "req \<le> length p"
    and "pull (0 < tot) (req - tot) (items (buffers f)) = Some (ds, out, rest, ended)"
  shows "\<exists>c'. consume_loop vorbis_consume req tot p env t c =
      Inr ((tot + length out, store_at p tot out), env, t, c') \<and>
    pulled c c' ds rest (ended \<and> rest = []) \<and> tot + length out \<le> req"
  using assms
proof (induction "buffers f" arbitrary: c f tot p ds out)
  case Nil
  then show ?case by simp
next
  case (Cons b bs)
  note step = loop_step [OF Cons.prems(1) Cons.hyps(2) [symmetric]]
  have ok: "buf_ok b" "list_all buf_ok bs" using Cons.prems(2) Cons.hyps(2) [symmetric] by simp_all
  note its = Cons.hyps(2) [symmetric]
  show ?case
  proof (cases "sb_cmd b")
    case SND_CMD_START
    let ?f = "f\<lparr>buffers := bs\<rparr>" and ?c = "c\<lparr>d_fifo := Some (f\<lparr>buffers := bs\<rparr>)\<rparr>"
    let ?c1 = "notify (DESPOTIFY_NEW_TRACK (sb_ptr b)) ?c"
    from Cons.prems(6) obtain ds1 where ds: "ds = sb_ptr b # ds1"
      and pl: "pull (0 < tot) (req - tot) (items bs) = Some (ds1, out, rest, ended)"
      by (auto simp: its buf_items_def SND_CMD_START)
    obtain c' where "consume_loop vorbis_consume req tot p env t ?c1 = Inr ((tot + length out, store_at p tot out), env, t, c')"
      "pulled ?c1 c' ds1 rest (ended \<and> rest = [])" "tot + length out \<le> req"
      using Cons.hyps(1) [of ?f ?c1 tot p ds1 out] Cons.prems pl ok(2) by (auto simp: frame)
    then show ?thesis
      unfolding step turn_start [OF SND_CMD_START] by (auto simp: pulled_def frame announced_def ds)
  next
    case SND_CMD_DATA
    then obtain m where m: "sb_ptr b = Cells m" "sb_consumed b < sb_length b" "sb_length b \<le> length m"
      using ok(1) by (auto simp: buf_ok_def split: snd_data.splits)
    let ?r = "sb_length b - sb_consumed b" and ?n = "req - tot"
    define ys where "ys = take ?r (drop (sb_consumed b) m)"
    have ly: "length ys = ?r" "ys \<noteq> []" using m by (auto simp: ys_def simp flip: length_greater_0_conv)
    have it: "items (buffers f) = map Audio ys @ items bs"
      by (simp add: its buf_items_def SND_CMD_DATA m(1) ys_def)
    have n0: "0 < ?n" using Cons.prems(4) by simp
    note pull = Cons.prems(6) [unfolded it pull_audio [OF ly(2) n0] ly(1)]
    let ?len = "min ?r ?n"
    have cons: "vorbis_consume (take ?len (drop (sb_consumed b) m)) p tot = Inr (store_at p tot (take ?len (drop (sb_consumed b) m)))"
      using Cons.prems(4,5) by (simp add: vorbis_consume_def)
    note turn = turn_data [where consumer = vorbis_consume, OF SND_CMD_DATA m Cons.prems(4) refl cons]
    show ?thesis
    proof (cases "?n \<le> ?r")
      case True
      then have l: "?len = ?n" by simp
      have out: "out = take ?n ys" "ds = []" "rest = map Audio (drop ?n ys) @ items bs" "\<not> ended"
        using pull True by simp_all
      have "items (buffers (if ?n = ?r then f\<lparr>buffers := bs, totbytes := totbytes f - int (sb_length b)\<rparr>
          else f\<lparr>buffers := b\<lparr>sb_consumed := sb_consumed b + ?n\<rparr> # bs\<rparr>)) = rest"
        using True ly(1) m by (auto simp: out buf_items_def SND_CMD_DATA ys_def drop_take ac_simps)
      moreover have "take ?n (drop (sb_consumed b) m) = out" using True by (simp add: out ys_def)
      moreover have "length out = ?n" using True ly by (simp add: out)
      ultimately show ?thesis
        unfolding step turn l Let_def using Cons.prems(4) out ok SND_CMD_DATA m True
          by (auto simp: pulled_def stream_def announced_def buf_ok_def)
    next
      case False
      then have l: "?len = ?r" by simp
      have t: "take ?r (drop (sb_consumed b) m) = ys" by (simp add: ys_def)
      have lt: "tot + ?r < req" using False by simp
      let ?f = "f\<lparr>buffers := bs, totbytes := totbytes f - int (sb_length b)\<rparr>"
      show ?thesis
      proof (cases "bs = []")
        case True
        with pull False have "out = ys" "ds = []" "rest = []" "\<not> ended" by simp_all
        then show ?thesis
          unfolding step turn l t Let_def using True ly(1) lt by (simp add: pulled_def stream_def announced_def)
      next
        case nonempty: False
        then have "items bs \<noteq> []" using items_Nil [OF ok(2)] by simp
        with pull False obtain out1 where out: "out = ys @ out1"
          and pl: "pull True (?n - ?r) (items bs) = Some (ds, out1, rest, ended)" by auto
        let ?p = "store_at p tot ys"
        have lp: "length ?p = length p" using lt ly(1) Cons.prems(5) by simp
        have pos: "0 < ?r" using m by simp
        have pl': "pull (0 < tot + ?r) (req - (tot + ?r)) (items (buffers ?f)) = Some (ds, out1, rest, ended)"
          using pl pos by simp
        obtain c' where c': "consume_loop vorbis_consume req (tot + ?r) ?p env t (c\<lparr>d_fifo := Some ?f\<rparr>) =
            Inr ((tot + ?r + length out1, store_at ?p (tot + ?r) out1), env, t, c')"
          "pulled c c' ds rest (ended \<and> rest = [])"
          "tot + ?r + length out1 \<le> req"
          using Cons.hyps(1) [of ?f "c\<lparr>d_fifo := Some ?f\<rparr>" "tot + ?r" ?p ds out1] Cons.prems pl' ok(2) lt lp
          by (auto simp: announced_def pulled_def)
        have "store_at ?p (tot + ?r) out1 = store_at p tot out"
          using store_at_store_at [of tot ys out1 p] c'(3) Cons.prems(5) ly(1) by (simp add: out)
        with c' show ?thesis
          unfolding step turn l t Let_def using nonempty lt ly(1) by (simp add: out ac_simps)
      qed
    qed
  next
    case SND_CMD_END
    have e: "out = []" "ds = []" "ended \<longleftrightarrow> tot = 0" "rest = (if 0 < tot then Finish # items bs else items bs)"
      using Cons.prems(6) by (auto simp: its buf_items_def SND_CMD_END)
    show ?thesis
    proof (cases "0 < tot")
      case True
      with e Cons.prems show ?thesis
        by (simp add: step consume_turn_def SND_CMD_END stream_def its buf_items_def announced_def pulled_def)
    next
      case False
      show ?thesis
      proof (cases "bs = []")
        case True
        let ?c = "c\<lparr>d_fifo := Some (f\<lparr>buffers := []\<rparr>)\<rparr>"
        have "d_dlstate c \<noteq> DL_FILLING_BUSY" using Cons.prems(3) e True False by auto
        then obtain c' where "snd_stop env t ?c = Inr (0, env, t, c')" "stream c' = []" "d_signals c' = d_signals c"
          "d_callback c' = d_callback c" "d_fifo c' = Some (f\<lparr>buffers := [], totbytes := 0\<rparr>)" "\<not> d_vf c'"
          using snd_stop_idle [of ?c "f\<lparr>buffers := []\<rparr>" env t] by auto
        with True False e Cons.prems(1) show ?thesis
          by (simp add: step consume_turn_def SND_CMD_END announced_def frame stream_def pulled_def)
      next
        case nonempty: False
        then have "rest \<noteq> []" using e False items_Nil [OF ok(2)] by simp
        with nonempty False e show ?thesis
          using ok(2)
          by (simp add: step consume_turn_def SND_CMD_END announced_def stream_def pulled_def)
      qed
    qed
  next
    case SND_CMD_CHANNEL_END
    with ok(1) show ?thesis by (simp add: buf_ok_def)
  qed
qed

section \<open>The byte count\<close>

lemma client_ok_codec [simp]: "client_ok (snd_reset_codec c) = client_ok c"
  by (simp add: client_ok_def frame)

lemma client_ok_notify [simp]: "client_ok (notify s c) = client_ok c"
  by (simp add: client_ok_def frame)

lemma client_ok_empty: "client_ok (c\<lparr>d_fifo := Some (f\<lparr>buffers := [], totbytes := 0\<rparr>)\<rparr>)"
  by (simp add: client_ok_def fifo_ok_def)

lemma wait_busy_keeps:
  assumes "\<And>t c dl. P t c \<Longrightarrow> P t (c\<lparr>d_dlstate := dl\<rparr>)" 
  shows "\<lbrakk>wait_busy env t c = Inr (env', t', c'); env_keeps P env; P t c\<rbrakk> \<Longrightarrow> env_keeps P env' \<and> P t' c'"
  by (induction env t c rule: wait_busy.induct)
    (auto simp: rbind_Inr_iff env_keeps_Cons split: if_splits)

abbreviation counted :: "table \<Rightarrow> client \<Rightarrow> bool" where
  "counted t c \<equiv> client_ok c"

lemma wait_busy_counted:
  "\<lbrakk>wait_busy env t c = Inr (env', t', c'); env_keeps counted env; client_ok c\<rbrakk> \<Longrightarrow>
   env_keeps counted env' \<and> client_ok c'"
  by (rule wait_busy_keeps [where P = counted]) (simp_all add: client_ok_def)

lemma snd_stop_counted:
  assumes "snd_stop env t c = Inr (r, env', t', c')" "env_keeps counted env" "client_ok c"
  shows "env_keeps counted env' \<and> client_ok c'"
proof -
  have "client_ok (c\<lparr>d_dlabort := b\<rparr>) = client_ok c" for b by (simp add: client_ok_def)
  with assms show ?thesis
    by (auto simp: snd_stop_def Let_def rbind_Inr_iff snd_reset_def client_ok_def fifo_ok_def frame
        dest!: wait_busy_counted split: if_splits option.splits)
qed

lemma skip_track_counted:
  "skip_track bs n = (bs', n') \<Longrightarrow> list_all buf_ok bs \<Longrightarrow> n = int (sum_list (map sb_length bs)) \<Longrightarrow>
   list_all buf_ok bs' \<and> n' = int (sum_list (map sb_length bs'))"
  by (induction bs n rule: skip_track.induct) (auto split: if_splits)

lemma snd_next_counted:
  assumes "snd_next c = Inr (r, c')" "client_ok c"
  shows "client_ok c'"
proof -
  obtain f where f: "d_fifo c = Some f" using assms(1) by (cases "d_fifo c") (simp_all add: snd_next_def)
  obtain bs n where e: "skip_track (buffers f) (totbytes f) = (bs, n)" by fastforce
  have "fifo_ok (f\<lparr>buffers := bs, totbytes := n\<rparr>)"
    using skip_track_counted [OF e] assms(2) by (simp add: f client_ok_def fifo_ok_def)
  with assms(1) show ?thesis
    by (auto simp: snd_next_def f e client_ok_def frame Let_def split: list.splits)
qed

lemma drop_page_ok:
  assumes "drop_page b = Inr b'" "buf_ok b" "sb_consumed b = 0"
  shows "buf_ok b'"
  using assms
  by (auto simp: drop_page_def buf_ok_def rbind_Inr_iff slice_Inr
      split: snd_data.splits if_splits snd_cmd.splits)

text \<open>What the callbacks push.\<close>

definition push_ok :: "snd_cmd \<Rightarrow> snd_data \<Rightarrow> nat \<Rightarrow> bool" where
  "push_ok cmd data len =
     (case cmd of
        SND_CMD_DATA \<Rightarrow> (case data of Cells m \<Rightarrow> 0 < len \<and> len \<le> length m | _ \<Rightarrow> False)
      | _ \<Rightarrow> len = 0)"

lemma snd_ioctl_counted:
  assumes "snd_ioctl cmd data len c = Inr c'" "push_ok cmd data len" "client_ok c"
  shows "client_ok c'"
proof -
  let ?b = "\<lparr>sb_length = len, sb_cmd = cmd, sb_consumed = 0, sb_ptr = data\<rparr>"
  have ok: "buf_ok ?b" if "cmd \<noteq> SND_CMD_CHANNEL_END"
    using assms(2) that by (auto simp: push_ok_def buf_ok_def split: snd_cmd.splits snd_data.splits)
  show ?thesis
    using assms(1,3) ok drop_page_ok [of ?b]
    by (auto simp: snd_ioctl_def Let_def rbind_Inr_iff client_ok_def fifo_ok_def split: if_splits option.splits)
qed

lemma read_stream_frame:
  assumes "despotify_snd_read_stream t c = Inr (r, t', c')"
  shows "d_fifo c' = d_fifo c \<and> d_dlstate c' = d_dlstate c"
  using assms
  by (auto simp: despotify_snd_read_stream_def cmd_getsubstreams_def write_buf_def Let_def rbind_Inr_iff split_def
      split: list.splits if_splits)

lemma snd_fill_fifo_counted:
  assumes "snd_fill_fifo env t c = Inr ((), env', t', c')" "env_keeps counted env" "client_ok c"
  shows "env_keeps counted env' \<and> client_ok c'"
  using assms
  by (auto simp: snd_fill_fifo_def start_filling_def rbind_Inr_iff client_ok_def
      dest!: wait_busy_counted [simplified client_ok_def] read_stream_frame
      split: if_splits option.splits dl_state.splits)


lemma consume_turn_counted:
  assumes "consume_turn consumer req tot p f b bs env t c = Inr (x, env', t', c')"
    and "d_fifo c = Some f" "buffers f = b # bs" "client_ok c" "env_keeps counted env"
  shows "env_keeps counted env' \<and> client_ok c'"
proof -
  have f: "buf_ok b" "list_all buf_ok bs" "totbytes f = int (sb_length b) + int (sum_list (map sb_length bs))"
    using assms(2-4) by (simp_all add: client_ok_def fifo_ok_def)
  show ?thesis
  proof (cases "sb_cmd b")
    case SND_CMD_START
    with assms(1,5) f show ?thesis
      by (auto simp: turn_start client_ok_def fifo_ok_def frame buf_ok_def)
  next
    case SND_CMD_DATA
    with assms(1,5) f show ?thesis
      by (auto simp: consume_turn_def Let_def rbind_Inr_iff client_ok_def fifo_ok_def buf_ok_def
          split: if_splits snd_data.splits)
  next
    case SND_CMD_END
    then have z: "sb_length b = 0" using f(1) by (simp add: buf_ok_def)
    show ?thesis
    proof (cases "tot = 0 \<and> bs = []")
      case True
      have "client_ok (c\<lparr>d_fifo := Some (f\<lparr>buffers := []\<rparr>)\<rparr>)"
        using f z True by (simp add: client_ok_def fifo_ok_def)
      with True assms(1,5) show ?thesis
        by (auto simp: consume_turn_def SND_CMD_END rbind_Inr_iff dest!: snd_stop_counted)
    next
      case False
      with assms(1,4,5) f z show ?thesis
        by (auto simp: consume_turn_def SND_CMD_END client_ok_def fifo_ok_def split: if_splits)
    qed
  next
    case SND_CMD_CHANNEL_END
    with assms(1) show ?thesis by (simp add: consume_turn_def)
  qed
qed

lemma consume_loop_counted:
  "\<lbrakk>consume_loop consumer req tot p env t c = Inr (x, env', t', c'); client_ok c; env_keeps counted env\<rbrakk> \<Longrightarrow>
   env_keeps counted env' \<and> client_ok c'"
proof (induction consumer req tot p env t c rule: consume_loop.induct)
  case (1 consumer req tot p env t c)
  note run = 1(3) [unfolded consume_loop.simps [of consumer req tot p env t c]]
  then obtain f where f: "d_fifo c = Some f" by (cases "d_fifo c") simp_all
  show ?case
  proof (cases "buffers f")
    case Nil
    with run f obtain e es t1 c1 where e: "env = e # es" "e t c = Inr (t1, c1)"
      by (cases env) (auto simp: rbind_Inr_iff)
    have k: "client_ok c1" "env_keeps counted es"
      using e 1(4,5) by (auto simp: env_keeps_Cons)
    show ?thesis
      using run f Nil e k 1(1) [OF f Nil e(1) e(2) refl] by (auto split: if_splits)
  next
    case (Cons b bs)
    with run f obtain l tot1 p1 env1 t1 c1
      where s: "consume_turn consumer req tot p f b bs env t c = Inr ((l, tot1, p1), env1, t1, c1)"
      by (auto simp: rbind_Inr_iff)
    have k: "env_keeps counted env1 \<and> client_ok c1"
      by (rule consume_turn_counted [OF s f Cons 1(4,5)])
    show ?thesis
      using run f Cons s k 1(2) [OF f Cons s refl refl refl refl refl] by (auto split: if_splits)
  qed
qed

text \<open>Pushing appends to the stream.\<close>

lemma page_size_bytes:
  "n + 27 \<le> length d \<Longrightarrow>
   page_size (map Some d @ junk) n acc = Inr (acc + sum_list (map unat (take n (drop 27 d))))"
  by (induction n) (simp_all add: cell_def fetch_def nth_append take_Suc_conv_app_nth ac_simps)

lemma snd_ioctl_stream:
  assumes "d_fifo c = Some f" "\<not> d_dlabort c" "cmd \<noteq> SND_CMD_CHANNEL_END"
    and "(if lastcmd f = SND_CMD_START
          then drop_page \<lparr>sb_length = len, sb_cmd = cmd, sb_consumed = 0, sb_ptr = data\<rparr>
          else Inr \<lparr>sb_length = len, sb_cmd = cmd, sb_consumed = 0, sb_ptr = data\<rparr>) = Inr b"
  shows "\<exists>c'. snd_ioctl cmd data len c = Inr c' \<and> stream c' = stream c @ buf_items b \<and>
    d_dlstate c' = (if cmd = SND_CMD_END \<and> d_track c = [] then DL_END_OF_LIST else d_dlstate c) \<and>
    d_fifo c' = Some (f\<lparr>buffers := buffers f @ [b], totbytes := totbytes f + int (sb_length b), lastcmd := cmd\<rparr>)"
proof -
  define c1 where "c1 = (if cmd = SND_CMD_END \<and> d_track c = [] then c\<lparr>d_dlstate := DL_END_OF_LIST\<rparr> else c)"
  have c1: "d_fifo c1 = Some f" "\<not> d_dlabort c1" using assms(1,2) by (simp_all add: c1_def)
  have "snd_ioctl cmd data len c = Inr (c1\<lparr>d_fifo := Some (f\<lparr>buffers := buffers f @ [b],
      totbytes := totbytes f + int (sb_length b), lastcmd := cmd\<rparr>)\<rparr>)"
    unfolding snd_ioctl_def Let_def c1_def [symmetric] using c1 assms(3) by (simp add: assms(4))
  then show ?thesis using assms(1) by (simp add: stream_def items_def c1_def)
qed

lemma drop_page_bytes:
  assumes "282 \<le> length d"
  shows "drop_page \<lparr>sb_length = length d, sb_cmd = SND_CMD_DATA, sb_consumed = 0, sb_ptr = Cells (map Some d @ junk)\<rparr> =
    (let offset = 28 + sum_list (map unat (take (unat (d ! 26)) (drop 27 d)))
     in if d ! 5 = 6 \<and> offset < length d
        then Inr \<lparr>sb_length = length d - offset, sb_cmd = SND_CMD_DATA, sb_consumed = 0,
                  sb_ptr = Cells (store_at (map Some d @ junk) 0 (map Some (drop offset d)))\<rparr>
        else Inr \<lparr>sb_length = length d, sb_cmd = SND_CMD_DATA, sb_consumed = 0, sb_ptr = Cells (map Some d @ junk)\<rparr>)"
proof -
  let ?off = "28 + sum_list (map unat (take (unat (d ! 26)) (drop 27 d)))"
  have c: "cell (map Some d @ junk) 5 = Inr (d ! 5)" "cell (map Some d @ junk) 26 = Inr (d ! 26)"
    using assms by (simp_all add: nth_append)
  have "unat (d ! 26) + 27 \<le> length d" using assms unat_u8_less [of "d ! 26"] by simp
  then have p: "page_size (map Some d @ junk) (unat (d ! 26)) 28 = Inr ?off" by (rule page_size_bytes)
  have s: "?off < length d \<Longrightarrow> slice (map Some d @ junk) ?off (length d - ?off) = Inr (map Some (drop ?off d))"
    by (simp add: slice_def drop_map)
  show ?thesis unfolding Let_def drop_page_def using c p s by simp
qed

section \<open>The threads together\<close>

text \<open>
  The entry points of the queue, and the runs of the program: any thread may enter any of
  them at any time, and whatever happens while one of them waits is itself such a run.
\<close>

datatype audio_op =
    Push snd_cmd snd_data nat
  | Pull nat "byte option list"
  | Skip
  | Stop
  | Fill

fun audio_run :: "audio_op \<Rightarrow> env \<Rightarrow> table \<Rightarrow> client \<Rightarrow> (env \<times> table \<times> client) result" where
  "audio_run (Push cmd data len) env t c = rbind (snd_ioctl cmd data len c) (\<lambda>c. Inr (env, t, c))"
| "audio_run (Pull n p) env t c = rbind (snd_ov_read_callback p 1 n env t c) (\<lambda>(_, s). Inr s)"
| "audio_run Skip env t c = rbind (snd_next c) (\<lambda>(_, c). Inr (env, t, c))"
| "audio_run Stop env t c = rbind (snd_stop env t c) (\<lambda>(_, s). Inr s)"
| "audio_run Fill env t c = rbind (snd_fill_fifo env t c) (\<lambda>(_, s). Inr s)"

fun op_ok :: "audio_op \<Rightarrow> bool" where
  "op_ok (Push cmd data len) = push_ok cmd data len"
| "op_ok _ = True"

inductive audio_runs :: "table \<times> client \<Rightarrow> table \<times> client \<Rightarrow> bool" where
  Start: "audio_runs s s"
| Enter: "\<lbrakk>audio_runs s (t, c); op_ok op;
     \<forall>e \<in> set env. \<forall>t c t' c'. e t c = Inr (t', c') \<longrightarrow> audio_runs (t, c) (t', c');
     audio_run op env t c = Inr (env', t', c')\<rbrakk> \<Longrightarrow> audio_runs s (t', c')"

inductive_cases audio_runsE: "audio_runs s (t', c')"

lemma audio_run_counted:
  assumes "audio_run op env t c = Inr (env', t', c')" "op_ok op" "client_ok c" "env_keeps counted env"
  shows "client_ok c'"
  using assms
  by (cases op)
    (auto simp: rbind_Inr_iff snd_ov_read_callback_def snd_consume_data_def
      dest: snd_ioctl_counted consume_loop_counted snd_next_counted snd_stop_counted snd_fill_fifo_counted)

lemma audio_runs_counted: "audio_runs s s' \<Longrightarrow> client_ok (snd s) \<Longrightarrow> client_ok (snd s')"
proof (induction rule: audio_runs.induct)
  case (Enter s t c op env env' t' c')
  from Enter.IH(2) have "env_keeps counted env" by (auto simp: env_keeps_def)
  with audio_run_counted [OF Enter.hyps(3) Enter.hyps(2)] Enter.IH(1) Enter.prems show ?case by simp
qed

lemma snd_init_ok: "client_ok (snd (snd_init c))"
  by (simp add: snd_init_def client_ok_def fifo_ok_def)

section \<open>Properties\<close>

text \<open>
  C21: The byte count that decides when more audio is fetched is right in every reachable
  state: however the network thread's pushes, the decoder's reads, skips, stops and fills
  interleave after \<open>snd_init\<close>, also while one of them waits, \<open>totbytes\<close> is the
  sum of the lengths of the queued buffers, and no data buffer is queued empty or used up.
\<close>

theorem queue_count_exact:
  assumes "audio_runs (t, snd (snd_init c)) (t', c')"
  shows "case d_fifo c' of None \<Rightarrow> True | Some f \<Rightarrow>
    totbytes f = int (sum_list (map sb_length (buffers f))) \<and>
    (\<forall>b \<in> set (buffers f). sb_cmd b = SND_CMD_DATA \<longrightarrow> sb_consumed b < sb_length b)"
proof -
  have "client_ok c'" using audio_runs_counted [OF assms] snd_init_ok by simp
  then show ?thesis
    by (auto simp: client_ok_def fifo_ok_def list_all_iff buf_ok_data split: option.splits)
qed

definition fresh_client :: client where
  "fresh_client = snd (snd_init (client_of empty_disk (conn_out [])))"

definition three_bytes :: snd_data where
  "three_bytes = Cells (map Some (replicate 6 1))"

lemma three_bytes_pushed:
  "audio_run (Push SND_CMD_DATA three_bytes 3) [] no_channels fresh_client =
     Inr ([], no_channels, fresh_client\<lparr>d_fifo := Some (the (d_fifo fresh_client)
       \<lparr>buffers := [\<lparr>sb_length = 3, sb_cmd = SND_CMD_DATA, sb_consumed = 0, sb_ptr = three_bytes\<rparr>],
        totbytes := 3, lastcmd := SND_CMD_DATA\<rparr>)\<rparr>)"
  by (simp add: snd_ioctl_def fresh_client_def snd_init_def client_of_def conn_out_def conn.defs client.defs
      drop_page_def three_bytes_def cell_def fetch_def Let_def)

theorem queue_count_exact_witness:
  "\<exists>c'. audio_runs (no_channels, fresh_client) (no_channels, c') \<and> totbytes (the (d_fifo c')) = 3 \<and>
     sum_list (map sb_length (buffers (the (d_fifo c')))) = 3"
proof -
  have "op_ok (Push SND_CMD_DATA three_bytes 3)" by (simp add: push_ok_def three_bytes_def)
  from audio_runs.Enter [OF audio_runs.Start this _ three_bytes_pushed]
  obtain c' where r: "audio_runs (no_channels, fresh_client) (no_channels, c')" and t: "totbytes (the (d_fifo c')) = 3"
    "d_fifo c' \<noteq> None" by fastforce
  from queue_count_exact [OF r [unfolded fresh_client_def]] t r show ?thesis by auto
qed

text \<open>
  C20: The queue is a stream.  A read of the decoder returns the next bytes pushed, at most
  as many as asked for; it runs over the mark of a track, which is announced to the client,
  stops in front of an end of track, and takes the end, with 0 bytes, if nothing precedes
  it; at the end of the last track the client is told that the list is over.
\<close>

theorem pull_refines_stream:
  assumes "d_fifo c = Some f" and "fifo_ok f" and "d_dlstate c \<noteq> DL_FILLING_BUSY"
    and "0 < sz * nmemb" and "sz * nmemb \<le> length ptr"
    and "pull False (sz * nmemb) (stream c) = Some (marks, bs, rest, ended)"
  shows "\<exists>c'. snd_ov_read_callback ptr sz nmemb env t c = Inr ((length bs, store_at ptr 0 bs), env, t, c') \<and>
    stream c' = rest \<and> length bs \<le> sz * nmemb \<and>
    d_signals c' = d_signals c @ announced c marks (ended \<and> rest = [])"
proof -
  have "list_all buf_ok (buffers f)" using assms(2) by (simp add: fifo_ok_def)
  with consume_loop_pull [OF assms(1), of ended rest 0 "sz * nmemb" ptr marks bs env t] assms(3-6)
  show ?thesis by (auto simp: pulled_def snd_ov_read_callback_def snd_consume_data_def stream_def assms(1))
qed


definition playing :: client where
  "playing = fresh_client\<lparr>d_fifo := Some \<lparr>totbytes = 3, maxbytes = 100, watermark = 10, lastcmd = SND_CMD_END,
     buffers = [\<lparr>sb_length = 0, sb_cmd = SND_CMD_START, sb_consumed = 0, sb_ptr = Track_Copy zero_track\<rparr>,
       \<lparr>sb_length = 3, sb_cmd = SND_CMD_DATA, sb_consumed = 0, sb_ptr = three_bytes\<rparr>,
       \<lparr>sb_length = 0, sb_cmd = SND_CMD_END, sb_consumed = 0, sb_ptr = Null\<rparr>]\<rparr>,
     d_callback := True\<rparr>"

theorem pull_refines_stream_witness:
  "\<exists>c'. snd_ov_read_callback (replicate 4 None) 1 4 [] no_channels playing =
     Inr ((3, [Some 1, Some 1, Some 1, None]), [], no_channels, c') \<and> stream c' = [Finish] \<and>
     d_signals c' = [DESPOTIFY_NEW_TRACK (Track_Copy zero_track)]"
proof -
  let ?f = "\<lparr>totbytes = 3, maxbytes = 100, watermark = 10, lastcmd = SND_CMD_END,
     buffers = [\<lparr>sb_length = 0, sb_cmd = SND_CMD_START, sb_consumed = 0, sb_ptr = Track_Copy zero_track\<rparr>,
       \<lparr>sb_length = 3, sb_cmd = SND_CMD_DATA, sb_consumed = 0, sb_ptr = three_bytes\<rparr>,
       \<lparr>sb_length = 0, sb_cmd = SND_CMD_END, sb_consumed = 0, sb_ptr = Null\<rparr>]\<rparr>"
  have p: "d_fifo playing = Some ?f" "d_dlstate playing \<noteq> DL_FILLING_BUSY" "d_signals playing = []" "d_callback playing"
    by (simp_all add: playing_def fresh_client_def snd_init_def client_of_def client.defs conn_out_def conn.defs)
  have ok: "fifo_ok ?f" by (simp add: fifo_ok_def buf_ok_def three_bytes_def)
  have st: "stream playing = [Mark (Track_Copy zero_track), Audio (Some 1), Audio (Some 1), Audio (Some 1), Finish]"
    by (simp add: stream_def p(1) buf_items_def three_bytes_def numeral_3_eq_3 eval_nat_numeral)
  have "pull False (1 * 4) (stream playing) =
      Some ([Track_Copy zero_track], [Some 1, Some 1, Some 1], [Finish], False)"
    by (simp add: st)
  from pull_refines_stream [OF p(1) ok p(2) _ _ this, of "replicate 4 None" "[]" no_channels] p
  show ?thesis by (auto simp: announced_def store_at_def eval_nat_numeral)
qed

text \<open>
  Pushing appends to the stream.  Audio is appended as it is, except the first
  packet of a track: if it starts with an Ogg page of the kind the code looks for, the
  page is cut off when the packet is longer than it.
\<close>

lemma push_appends:
  assumes "d_fifo c = Some f" and "\<not> d_dlabort c" and "282 \<le> length d"
  shows "\<exists>c'. snd_ioctl SND_CMD_DATA (Cells (map Some d @ junk)) (length d) c = Inr c' \<and>
    stream c' = stream c @ map (\<lambda>b. Audio (Some b))
      (let offset = 28 + sum_list (map unat (take (unat (d ! 26)) (drop 27 d)))
       in if lastcmd f = SND_CMD_START \<and> d ! 5 = 6 \<and> offset < length d then drop offset d else d)"
proof -
  let ?off = "28 + sum_list (map unat (take (unat (d ! 26)) (drop 27 d)))"
  let ?b = "\<lparr>sb_length = length d, sb_cmd = SND_CMD_DATA, sb_consumed = 0, sb_ptr = Cells (map Some d @ junk)\<rparr>"
  let ?cut = "\<lparr>sb_length = length d - ?off, sb_cmd = SND_CMD_DATA, sb_consumed = 0,
      sb_ptr = Cells (store_at (map Some d @ junk) 0 (map Some (drop ?off d)))\<rparr>"
  define b where "b = (if lastcmd f = SND_CMD_START \<and> d ! 5 = 6 \<and> ?off < length d then ?cut else ?b)"
  have b: "(if lastcmd f = SND_CMD_START then drop_page ?b else Inr ?b) = Inr b"
    using drop_page_bytes [OF assms(3), of junk] unfolding b_def Let_def by (auto split: if_splits)
  have "buf_items b = map (\<lambda>b. Audio (Some b))
      (if lastcmd f = SND_CMD_START \<and> d ! 5 = 6 \<and> ?off < length d then drop ?off d else d)"
    unfolding b_def by (auto simp: buf_items_def store_at_def)
  with snd_ioctl_stream [OF assms(1,2) _ b] show ?thesis unfolding Let_def by auto
qed


lemma push_appends_witness:
  "\<exists>c'. snd_ioctl SND_CMD_DATA (Cells (map Some (replicate 282 0) @ [])) (length (replicate 282 (0 :: byte))) fresh_client = Inr c' \<and>
     stream c' = map (\<lambda>b. Audio (Some b)) (replicate 282 0)"
proof -
  obtain f where f: "d_fifo fresh_client = Some f" "\<not> d_dlabort fresh_client" "stream fresh_client = []"
    by (simp add: fresh_client_def snd_init_def client_of_def client.defs conn_out_def conn.defs stream_def)
  have "\<not> (replicate 282 (0 :: byte) ! 5 = 6)" by (subst nth_replicate) simp_all
  with push_appends [OF f(1,2), of "replicate 282 0" "[]"] f(3) show ?thesis
    by (simp only: length_replicate Let_def simp_thms if_False append_Nil)
qed

end
