(* ===== verification/Handlers.thy ===== *)
theory Handlers
  imports Commands Xml
begin

text \<open>
  \<^verbatim>\<open>src/src/lib/handlers.c\<close>: what the client does with each packet the server
  sends, and the loop of the network thread in \<^verbatim>\<open>despotify.c\<close> that reads packets and
  hands them over.  A payload is the block \<open>packet_read\<close> allocated, four MAC bytes
  included; \<open>len\<close> is the length in the header.
\<close>

section \<open>The handlers\<close>

text \<open>\<open>handle_secret_block\<close>; the times in the first 16 bytes are only logged.\<close>

definition handle_secret_block ::
  "byte list \<Rightarrow> int \<Rightarrow> 'cb chan_table \<Rightarrow> 'z conn_scheme \<Rightarrow> ('cb, 'z) answer" where
  "handle_secret_block payload len t c =
     (if len \<noteq> 336 then Inr (-1, t, c)
      else rbind (slice payload 16 128) (\<lambda>k.
        if k \<noteq> rsa_pub_exp (sess c) then Inl Assert_Failed
        else cmd_send_cache_hash t c))"

text \<open>
  \<open>handle_ping\<close>: of the eight bytes of \<open>t\<close> four are copied, and \<open>ntohl\<close> looks at
  those alone.
\<close>

definition handle_ping ::
  "byte list \<Rightarrow> int \<Rightarrow> 'cb chan_table \<Rightarrow> 'z conn_scheme \<Rightarrow> ('cb, 'z) answer" where
  "handle_ping payload len t c =
     (if len \<noteq> 4 then Inl Assert_Failed
      else rbind (fetch_u32 payload 0) (\<lambda>now.
        cmd_ping_reply t (c\<lparr>sess := (sess c)\<lparr>user_info := (user_info (sess c))\<lparr>ui_last_ping := now\<rparr>\<rparr>\<rparr>)))"

definition handle_channel ::
  "('cb, 'w) runner \<Rightarrow> byte \<Rightarrow> byte list \<Rightarrow> u16 \<Rightarrow> 'cb chan_table \<Rightarrow> 'w
   \<Rightarrow> (int \<times> 'cb chan_table \<times> 'w) result" where
  "handle_channel run cmd payload len t w =
     channel_process run payload len (cmd = CMD_CHANNELERR) t w"

text \<open>
  \<open>handle_aeskey\<close>: the id is at offset 2, the key behind it; \<open>len - 4\<close> becomes an
  unsigned short.  Without a channel the returned \<open>ret\<close> was never set.
\<close>

definition handle_aeskey ::
  "('cb, 'w) runner \<Rightarrow> byte list \<Rightarrow> u16 \<Rightarrow> 'cb chan_table \<Rightarrow> 'w
   \<Rightarrow> (int \<times> 'cb chan_table \<times> 'w) result" where
  "handle_aeskey run payload len t w =
     rbind (fetch_u16 payload 2) (\<lambda>cid.
       case channel_by_id cid t of
         None \<Rightarrow> Inl Uninit
       | Some ch \<Rightarrow>
           rbind (slice payload 4 (unat (len - 4))) (\<lambda>k.
           rbind (run (ch_callback ch) ch k t w) (\<lambda>(ret, t, w).
           rbind (channel_unregister (ch_id ch) t) (\<lambda>t. Inr (ret, t, w)))))"

definition handle_aeskeyerr :: "byte list \<Rightarrow> int" where
  "handle_aeskeyerr payload = 0"

text \<open>
  \<open>handle_countrycode\<close>: the loop stops at four characters, the size of the field,
  and the terminator then goes to the index the loop stopped at.
\<close>

definition handle_countrycode ::
  "byte list \<Rightarrow> int \<Rightarrow> 'cb chan_table \<Rightarrow> 'z conn_scheme \<Rightarrow> ('cb, 'z) answer" where
  "handle_countrycode payload len t c =
     (let i = nat (min len 4) in
      rbind (slice payload 0 i) (\<lambda>d.
        if 4 \<le> i then Inl Out_Of_Bounds
        else Inr (0, t, c\<lparr>sess := (sess c)\<lparr>user_info := (user_info (sess c))\<lparr>ui_country :=
               map (\<lambda>b. char_of (unat b)) (takeWhile (\<lambda>b. b \<noteq> 0) d)\<rparr>\<rparr>\<rparr>)))"

definition handle_prodinfo ::
  "parser \<Rightarrow> byte list \<Rightarrow> int \<Rightarrow> 'cb chan_table \<Rightarrow> 'z conn_scheme \<Rightarrow> ('cb, 'z) answer" where
  "handle_prodinfo parse payload len t c =
     rbind (slice payload 0 (nat len)) (\<lambda>xml.
     rbind (xml_parse_prodinfo parse (user_info (sess c)) xml) (\<lambda>u.
       Inr (0, t, c\<lparr>sess := (sess c)\<lparr>user_info := u\<rparr>\<rparr>)))"

definition handle_welcome :: "'cb chan_table \<Rightarrow> 'z conn_scheme \<Rightarrow> ('cb, 'z) answer" where
  "handle_welcome t c = Inr (0, t, c\<lparr>login_cond := True\<rparr>)"

definition handle_packet ::
  "parser \<Rightarrow> ('cb, 'z conn_scheme) runner \<Rightarrow> byte \<Rightarrow> byte list \<Rightarrow> u16
   \<Rightarrow> 'cb chan_table \<Rightarrow> 'z conn_scheme \<Rightarrow> ('cb, 'z) answer" where
  "handle_packet parse run cmd payload len t c =
     (if cmd = CMD_SECRETBLK then handle_secret_block payload (uint len) t c
      else if cmd = CMD_PING then handle_ping payload (uint len) t c
      else if cmd = CMD_CHANNELDATA then handle_channel run cmd payload len t c
      else if cmd = CMD_CHANNELERR then handle_channel run cmd payload len t c
      else if cmd = CMD_AESKEY then handle_aeskey run payload len t c
      else if cmd = CMD_AESKEYERR then Inr (handle_aeskeyerr payload, t, c)
      else if cmd = CMD_SHAHASH then Inr (0, t, c)
      else if cmd = CMD_COUNTRYCODE then handle_countrycode payload (uint len) t c
      else if cmd = CMD_P2P_INITBLK then Inr (0, t, c)
      else if cmd = CMD_NOTIFY then Inr (0, t, c)
      else if cmd = CMD_PRODINFO then handle_prodinfo parse payload (uint len) t c
      else if cmd = CMD_WELCOME then handle_welcome t c
      else if cmd = CMD_PAUSE then Inr (0, t, c)
      else Inr (0, t, c))"

section \<open>The network thread\<close>

text \<open>
  One turn of the loop of \<open>despotify_thread\<close>; \<open>None\<close> is the \<open>break\<close>.  The result
  of \<open>handle_packet\<close> is not looked at.
\<close>

definition thread_step ::
  "parser \<Rightarrow> ('cb, 'z conn_scheme) runner \<Rightarrow> 'cb chan_table \<Rightarrow> 'z conn_scheme
   \<Rightarrow> (bool \<times> 'cb chan_table \<times> 'z conn_scheme) result" where
  "thread_step parse run t c =
     rbind (packet_read (sess c) (sock c)) (\<lambda>(p, s, n).
       let c = c\<lparr>sess := s, sock := n\<rparr> in
       case p of
         None \<Rightarrow> Inr (False, t, c)
       | Some (cmd, len, payload) \<Rightarrow>
           rbind (handle_packet parse run cmd payload len t c) (\<lambda>(_, t, c). Inr (True, t, c)))"

text \<open>
  The first \<open>fuel\<close> turns; the flag tells whether the thread has ended by then.
\<close>

fun despotify_thread ::
  "nat \<Rightarrow> parser \<Rightarrow> ('cb, 'z conn_scheme) runner \<Rightarrow> 'cb chan_table \<Rightarrow> 'z conn_scheme
   \<Rightarrow> (bool \<times> 'cb chan_table \<times> 'z conn_scheme) result" where
  "despotify_thread 0 parse run t c = Inr (False, t, c)"
| "despotify_thread (Suc fuel) parse run t c =
     rbind (thread_step parse run t c) (\<lambda>(goes_on, t, c).
       if goes_on then despotify_thread fuel parse run t c else Inr (True, t, c))"

lemmas command_bytes = CMD_SECRETBLK_def CMD_PING_def CMD_CHANNELDATA_def CMD_CHANNELERR_def
  CMD_AESKEY_def CMD_AESKEYERR_def CMD_SHAHASH_def CMD_COUNTRYCODE_def CMD_P2P_INITBLK_def
  CMD_NOTIFY_def CMD_PRODINFO_def CMD_WELCOME_def CMD_PAUSE_def

section \<open>The table through a packet\<close>

text \<open>Writing a packet does not touch the channels.\<close>

lemma write_buf_table: "write_buf cmd b t c = Inr (r, t', c') \<Longrightarrow> t' = t"
  by (auto simp: write_buf_def rbind_Inr_iff)

lemma cmd_ping_reply_table: "cmd_ping_reply t c = Inr (r, t', c') \<Longrightarrow> t' = t"
  by (auto simp: cmd_ping_reply_def rbind_Inr_iff)

lemma handlers_table:
  "handle_secret_block payload i t c = Inr (r, t', c') \<Longrightarrow> t' = t"
  "handle_ping payload i t c = Inr (r, t', c') \<Longrightarrow> t' = t"
  "handle_countrycode payload i t c = Inr (r, t', c') \<Longrightarrow> t' = t"
  "handle_prodinfo parse payload i t c = Inr (r, t', c') \<Longrightarrow> t' = t"
  "handle_welcome t c = Inr (r, t', c') \<Longrightarrow> t' = t"
  by (auto simp: handle_secret_block_def cmd_send_cache_hash_def handle_ping_def handle_countrycode_def
      handle_prodinfo_def handle_welcome_def Let_def rbind_Inr_iff
      dest: write_buf_table cmd_ping_reply_table split: if_splits)

context channel_callbacks
begin

lemma handle_aeskey_ok:
  assumes "handle_aeskey run payload len t w = Inr (r, t', w')" "table_ok t"
  shows "table_ok t'"
proof -
  from assms(1) obtain ch k t1 where r: "run (ch_callback ch) ch k t w = Inr (r, t1, w')"
    and u: "channel_unregister (ch_id ch) t1 = Inr t'"
    by (auto simp: handle_aeskey_def rbind_Inr_iff split: option.splits)
  show ?thesis by (rule channel_unregister_ok(1) [OF run_ok [OF r assms(2)] u])
qed

lemma handle_channel_ok:
  "handle_channel run cmd payload len t w = Inr (r, t', w') \<Longrightarrow> table_ok t \<Longrightarrow> table_ok t'"
  using process_ok unfolding handle_channel_def by blast

end

lemma handle_packet_table_ok:
  assumes "channel_callbacks run" and "handle_packet parse run cmd payload len t c = Inr (r, t', c')"
    and "table_ok t"
  shows "table_ok t'"
proof -
  have "t' = t \<or> handle_channel run cmd payload len t c = Inr (r, t', c') \<or>
      handle_aeskey run payload len t c = Inr (r, t', c')"
    using assms(2) unfolding handle_packet_def by (auto dest: handlers_table split: if_splits)
  then show ?thesis
    using channel_callbacks.handle_channel_ok [OF assms(1)]
      channel_callbacks.handle_aeskey_ok [OF assms(1)] assms(3) by blast
qed

lemma thread_step_table_ok:
  assumes "channel_callbacks run" and "thread_step parse run t c = Inr (goes_on, t', c')" and "table_ok t"
  shows "table_ok t'"
proof -
  from assms(2) obtain p s n where r: "packet_read (sess c) (sock c) = Inr (p, s, n)"
    and rest: "(let c = c\<lparr>sess := s, sock := n\<rparr> in
       case p of None \<Rightarrow> Inr (False, t, c)
       | Some (cmd, len, payload) \<Rightarrow>
           rbind (handle_packet parse run cmd payload len t c) (\<lambda>(_, t, c). Inr (True, t, c))) =
       Inr (goes_on, t', c')"
    unfolding thread_step_def by (cases "packet_read (sess c) (sock c)") auto
  show ?thesis
  proof (cases p)
    case None
    with rest assms(3) show ?thesis by simp
  next
    case (Some q)
    then obtain cmd len payload where p: "p = Some (cmd, len, payload)" by (cases q) auto
    from rest obtain r where
      "handle_packet parse run cmd payload len t (c\<lparr>sess := s, sock := n\<rparr>) = Inr (r, t', c')"
      unfolding p by (auto simp: rbind_Inr_iff)
    from handle_packet_table_ok [OF assms(1) this assms(3)] show ?thesis .
  qed
qed

lemma thread_table_ok:
  assumes "channel_callbacks run"
  shows "\<lbrakk>despotify_thread fuel parse run t c = Inr (ended, t', c'); table_ok t\<rbrakk> \<Longrightarrow> table_ok t'"
proof (induction fuel arbitrary: t c)
  case (Suc fuel)
  from Suc.prems(1) obtain goes_on t1 c1 where s: "thread_step parse run t c = Inr (goes_on, t1, c1)"
    and rest: "(if goes_on then despotify_thread fuel parse run t1 c1 else Inr (True, t1, c1)) =
      Inr (ended, t', c')"
    by (auto simp: rbind_Inr_iff)
  have "table_ok t1" by (rule thread_step_table_ok [OF assms s Suc.prems(2)])
  with rest Suc.IH show ?case by (auto split: if_splits)
qed simp

section \<open>Properties\<close>

text \<open>The same without the locale, for a runner of one's own.\<close>

lemma thread_keeps_table:
  assumes "\<And>cb ch d t w r t' w'. run cb ch d t w = Inr (r, t', w') \<Longrightarrow>
      table_ok t \<longrightarrow> table_ok t' \<and> set (head t) \<subseteq> set (head t')"
    and "despotify_thread fuel parse run t c = Inr (ended, t', c')" and "table_ok t"
  shows "table_ok t'"
proof -
  have "channel_callbacks run"
    by unfold_locales (use assms(1) in blast)+
  from thread_table_ok [OF this assms(2,3)] show ?thesis .
qed

text \<open>A connection on which the server has said something and then gone away.\<close>

definition conn_in :: "byte list \<Rightarrow> tx \<Rightarrow> conn" where
  "conn_in bs es = \<lparr>sess = zero_session, sock = \<lparr>rx_q = [Chunk bs, Eof], tx_q = es, wire = []\<rparr>,
     login_cond = False\<rparr>"

definition no_run :: "(unit, conn) runner" where
  "no_run cb ch d t w = Inr (0, t, w)"

lemma thread_after_eof:
  "despotify_thread (Suc 0) parse run no_channels (conn_in [] []) =
     Inr (True, no_channels, (conn_in [] [])\<lparr>sock := \<lparr>rx_q = [Eof], tx_q = [], wire = []\<rparr>\<rparr>)"
  by (simp add: thread_step_def packet_read_def block_read_def block_read_loop.simps conn_in_def)

lemma thread_keeps_table_witness:
  "\<exists>c'. despotify_thread (Suc 0) (\<lambda>_. None) no_run (no_channels :: unit chan_table) (conn_in [] []) =
     Inr (True, no_channels, c') \<and> table_ok (no_channels :: unit chan_table)"
proof -
  have "table_ok (no_channels :: unit chan_table)"
    by (rule thread_keeps_table [OF _ thread_after_eof [of "\<lambda>_. None" no_run]])
       (auto simp: no_run_def)
  with thread_after_eof [of "\<lambda>_. None" no_run] show ?thesis by blast
qed

text \<open>
  A ping is answered: the timestamp of the packet is recorded, and if the
  handler returns 0 exactly one \<open>CMD_PONG\<close> packet with four zero bytes has gone out.
\<close>

lemma ping_answered:
  assumes "4 \<le> length payload" and "handle_packet parse run CMD_PING payload 4 t c = Inr (0, t', c')"
  shows "t' = t \<and> wire (sock c') = wire (sock c) @ packet_bytes (sess c) 0x49 [0, 0, 0, 0] \<and>
    ui_last_ping (user_info (sess c')) =
      get_u32 (payload ! 0) (payload ! 1) (payload ! 2) (payload ! 3)"
proof -
  let ?now = "get_u32 (payload ! 0) (payload ! 1) (payload ! 2) (payload ! 3)"
  let ?s = "(sess c)\<lparr>user_info := (user_info (sess c))\<lparr>ui_last_ping := ?now\<rparr>\<rparr>"
  have f: "fetch_u32 payload 0 = Inr ?now" using assms(1)
    by (cases payload) (auto simp: fetch_u32_def fetch_def)
  have pong: "packet_write s n CMD_PONG (Some [0, 0, 0, 0, 0, 0, 0, 0]) 4 =
      packet_write s n 0x49 (Some [0, 0, 0, 0]) (word_of_nat (length [0 :: byte, 0, 0, 0]))" for s n
    by (simp add: packet_write_def CMD_PONG_def)
  from assms(2) obtain s n
    where w: "packet_write ?s (sock c) 0x49 (Some [0, 0, 0, 0]) (word_of_nat (length [0 :: byte, 0, 0, 0])) =
        Inr (0, s, n)"
    and e: "t' = t" "c' = c\<lparr>sess := s, sock := n\<rparr>"
    by (auto simp: handle_packet_def command_bytes handle_ping_def f cmd_ping_reply_def pong rbind_Inr_iff)
  have "packet_bytes ?s cmd body = packet_bytes (sess c) cmd body" for cmd body
    by (simp add: packet_bytes_def)
  moreover have "user_info (sent_state ?s cmd body) = user_info ?s" for cmd body
    by (simp add: sent_state_def Let_def)
  ultimately show ?thesis
    using packet_write_result [OF w] e by simp
qed

lemma ping_answered_witness:
  "\<exists>c'. handle_packet (\<lambda>_. None) no_run CMD_PING [1, 2, 3, 4, 0, 0, 0, 0] 4 no_channels (conn_out [Taken 100]) =
     Inr (0, no_channels, c') \<and> ui_last_ping (user_info (sess c')) = get_u32 1 2 3 4"
proof -
  let ?p = "[1, 2, 3, 4, 0, 0, 0, 0] :: byte list"
  let ?s = "zero_session\<lparr>user_info := (user_info zero_session)\<lparr>ui_last_ping := get_u32 1 2 3 4\<rparr>\<rparr>"
  let ?n = "\<lparr>rx_q = [], tx_q = [Taken 100], wire = []\<rparr>"
  have "packet_write ?s ?n 0x49 (Some [0, 0, 0, 0]) (word_of_nat (length [0 :: byte, 0, 0, 0])) =
      Inr (0, sent_state ?s 0x49 [0, 0, 0, 0],
        ?n\<lparr>tx_q := [], wire := wire ?n @ packet_bytes ?s 0x49 [0, 0, 0, 0]\<rparr>)"
    by (rule packet_write_taken [where k = 100]) simp_all
  then have w: "packet_write ?s ?n CMD_PONG (Some [0, 0, 0, 0, 0, 0, 0, 0]) 4 =
      Inr (0, sent_state ?s 0x49 [0, 0, 0, 0],
        ?n\<lparr>tx_q := [], wire := wire ?n @ packet_bytes ?s 0x49 [0, 0, 0, 0]\<rparr>)"
    by (simp add: packet_write_def CMD_PONG_def)
  obtain c' where r: "handle_packet (\<lambda>_. None) no_run CMD_PING ?p 4 no_channels (conn_out [Taken 100]) =
      Inr (0, no_channels, c')"
    using w by (simp add: handle_packet_def command_bytes handle_ping_def fetch_u32_def fetch_def
        cmd_ping_reply_def conn_out_def)
  have "4 \<le> length ?p" by simp
  from ping_answered [OF this r] r show ?thesis by simp
qed

lemma handle_countrycode_cases:
  assumes "n \<le> length payload" and "\<forall>b \<in> set (take n payload). b \<noteq> 0"
  shows "handle_countrycode payload (int n) t c =
    (if n < 4 then Inr (0, t, c\<lparr>sess := (sess c)\<lparr>user_info := (user_info (sess c))\<lparr>ui_country :=
       map (\<lambda>b. char_of (unat b)) (take n payload)\<rparr>\<rparr>\<rparr>)
     else Inl Out_Of_Bounds)"
proof -
  have m: "nat (min (int n) 4) = min n 4" by linarith
  have "takeWhile (\<lambda>b. b \<noteq> 0) (take n payload) = take n payload"
    using assms(2) by simp
  then have w: "map (\<lambda>b. char_of (unat b)) (takeWhile (\<lambda>b. b \<noteq> 0) (take n payload)) =
      (map (\<lambda>b. char_of (unat b)) (take n payload) :: string)" by (simp only:)
  show ?thesis
  proof (cases "n < 4")
    case True
    then have k: "min n 4 = n" by simp
    from True assms(1) show ?thesis
      unfolding handle_countrycode_def m k Let_def by (simp add: slice_def w [simplified])
  next
    case False
    then have k: "min n 4 = 4" by simp
    from False assms(1) show ?thesis
      unfolding handle_countrycode_def m k Let_def by (simp add: slice_def)
  qed
qed

text \<open>
  A country code of up to three characters is stored; a longer one writes its
  terminator past the end of the field.
\<close>

lemma countrycode_fits_or_overflows:
  assumes "unat len \<le> length payload" and "\<forall>b \<in> set (take (unat len) payload). b \<noteq> 0"
  shows "handle_packet parse run CMD_COUNTRYCODE payload len t c =
    (if unat len < 4 then Inr (0, t, c\<lparr>sess := (sess c)\<lparr>user_info := (user_info (sess c))\<lparr>ui_country :=
       map (\<lambda>b. char_of (unat b)) (take (unat len) payload)\<rparr>\<rparr>\<rparr>)
     else Inl Out_Of_Bounds)"
proof -
  have h: "handle_packet parse run CMD_COUNTRYCODE payload len t c =
      handle_countrycode payload (int (unat len)) t c"
    by (simp add: handle_packet_def command_bytes)
  show ?thesis unfolding h by (rule handle_countrycode_cases [OF assms])
qed

lemma countrycode_fits_or_overflows_witness:
  "handle_packet (\<lambda>_. None) no_run CMD_COUNTRYCODE [83, 69, 83, 69, 0, 0, 0, 0] 4 no_channels (conn_in [] []) =
     Inl Out_Of_Bounds"
  using countrycode_fits_or_overflows [of 4 "[83, 69, 83, 69, 0, 0, 0, 0]" "\<lambda>_. None" no_run no_channels]
  by simp

text \<open>
  The answer to a key request.  The packet with the channel's id hands the
  bytes behind it, and nothing else, to the callback once, and the channel is gone;
  with an id nobody has registered the handler returns a variable it never set.
\<close>

lemma aeskey_delivered:
  assumes "table_ok t" and "length mac = 4" and "length k + 4 < 65536"
  shows "handle_aeskey log_run ([x, y] @ put_u16 cid @ k @ mac) (word_of_nat (length k + 4)) t w =
    (case find_ch (uint cid) t of
       None \<Rightarrow> Inl Uninit
     | Some ch \<Rightarrow>
         rbind (channel_unregister (uint cid) t) (\<lambda>t'.
           Inr (0, t', w @ [(ch_callback ch, uint cid, ch_state ch, ch_header_id ch, k)])))"
proof -
  let ?p = "[x, y] @ put_u16 cid @ k @ mac"
  have f: "fetch_u16 ?p 2 = Inr cid"
    by (rule fetch_u16_put_at) simp
  have "(word_of_nat (length k + 4) - 4 :: u16) = word_of_nat (length k)" by simp
  then have l: "unat (word_of_nat (length k + 4) - 4 :: u16) = length k"
    using assms(3) by (simp add: u16_nat)
  have s: "slice ?p 4 (length k) = Inr k" by (simp add: slice_def)
  show ?thesis
    unfolding handle_aeskey_def f rbind.simps channel_by_id_def l s
    using find_ch_Some [of "uint cid" t] by (auto simp: log_run_def split: option.splits)
qed

lemma aeskey_delivered_witness:
  "handle_aeskey log_run ([0, 0] @ put_u16 7 @ [1, 2] @ [0, 0, 0, 0]) (word_of_nat (length [1, 2 :: byte] + 4))
     two_channels [] = Inl Uninit"
  using aeskey_delivered [OF two_channels(1), of "[0, 0, 0, 0]" "[1, 2]" 0 0 7 "[]"]
  by (simp add: two_channels_def channel_register_def Let_def find_ch_def)

end
