(* ===== verification/Player.thy ===== *)
theory Player
  imports Sndqueue Aes Handlers
begin

text \<open>
  The playback part of \<^verbatim>\<open>src/src/lib/despotify.c\<close>: the callbacks of its channels, which
  receive the key of a track, decrypt and queue the audio and collect the other answers,
  and starting, skipping and stopping.

  Proved here: what is queued of a track is the AES-CTR decryption of the received bytes, put back
  in order, from its key on; the callbacks keep to the contract of the channel table, so that the network
  thread runs safely with them; and how a stream that fails leaves the player.
\<close>

section \<open>The key of a track\<close>

definition initial_IV :: "byte list" where
  "initial_IV = [0x72, 0xe0, 0x67, 0xfb, 0xdd, 0xcb, 0xcf, 0x77,
                 0xeb, 0xe8, 0xbc, 0x64, 0x3f, 0x63, 0x0d, 0x93]"

text \<open>
  The key schedule reads 16 bytes of the copy of the answer.  The mark in the queue
  carries a copy of the track.
\<close>

definition despotify_aes_callback ::
  "ds_callback channel \<Rightarrow> byte list \<Rightarrow> table \<Rightarrow> client \<Rightarrow> (int \<times> table \<times> client) result" where
  "despotify_aes_callback ch buf t c =
     (if ch_state ch \<noteq> CHANNEL_DATA then Inr (0, t, c)
      else case d_track c of
        [] \<Rightarrow> Inl Null_Deref
      | tr # ts \<Rightarrow>
          let tr = tr\<lparr>key := Some buf\<rparr>
          in rbind (slice buf 0 16) (\<lambda>k.
             let c = c\<lparr>d_track := tr # ts, d_aes_state := fst (rijndaelKeySetupEnc k 128), d_IV := initial_IV\<rparr>
             in rbind (snd_ioctl SND_CMD_START (Track_Copy tr) 0 c) (\<lambda>c. Inr (0, t, c))))"

section \<open>The audio\<close>

text \<open>Four pieces of 256 bytes, taken in turns.\<close>

definition deinterleave :: "byte list \<Rightarrow> byte list" where
  "deinterleave w = concat (map (\<lambda>i. [w ! i, w ! (256 + i), w ! (512 + i), w ! (768 + i)]) [0..<256])"

text \<open>\<open>for (j = 15; j >= 0; j--)\<close> with the carry; \<open>bump iv 16\<close> starts at byte 15.\<close>

fun bump :: "byte list \<Rightarrow> nat \<Rightarrow> byte list" where
  "bump iv 0 = iv"
| "bump iv (Suc j) = (let iv = iv[j := iv ! j + 1] in if iv ! j \<noteq> 0 then iv else bump iv j)"

text \<open>
  \<open>n\<close> turns of the loop over 16 bytes: the plaintext, the counter and the last key stream
  block.
\<close>

fun decrypt_turns ::
  "u32 list \<Rightarrow> byte list \<Rightarrow> byte list \<Rightarrow> nat \<Rightarrow> byte list \<Rightarrow> byte list \<times> byte list \<times> byte list" where
  "decrypt_turns st iv ks 0 data = ([], iv, ks)"
| "decrypt_turns st iv ks (Suc n) data =
     (let ks = rijndaelEncrypt st 10 iv;
          (pt, iv, ks') = decrypt_turns st (bump iv 16) ks n (drop 16 data)
      in (map2 (XOR) (take 16 data) ks @ pt, iv, ks'))"

text \<open>\<open>n\<close> blocks of 1024 bytes.\<close>

fun decrypt_blocks ::
  "u32 list \<Rightarrow> byte list \<Rightarrow> byte list \<Rightarrow> nat \<Rightarrow> byte list \<Rightarrow> byte list \<times> byte list \<times> byte list" where
  "decrypt_blocks st iv ks 0 buf = ([], iv, ks)"
| "decrypt_blocks st iv ks (Suc n) buf =
     (let (pt, iv, ks) = decrypt_turns st iv ks 64 (deinterleave (take 1024 buf));
          (rest, iv, ks) = decrypt_blocks st iv ks n (drop 1024 buf)
      in (pt @ rest, iv, ks))"

text \<open>
  The case \<open>CHANNEL_DATA\<close>.  Of the allocated \<open>len + 1024\<close> bytes only those of whole blocks
  are written.
\<close>

definition substream_data :: "byte list \<Rightarrow> client \<Rightarrow> client result" where
  "substream_data buf c =
     (let n = length buf div 1024;
          (pt, iv, ks) = decrypt_blocks (d_aes_state c) (d_IV c) (d_keystream c) n buf;
          plaintext = map Some pt @ replicate (length buf + 1024 - n * 1024) None
      in snd_ioctl SND_CMD_DATA (Cells plaintext) (length buf) (c\<lparr>d_IV := iv, d_keystream := ks\<rparr>))"

text \<open>\<open>do ds->track = ds->track->next; while (ds->track && !ds->track->playable);\<close>\<close>

definition next_playable :: "ds_track list \<Rightarrow> ds_track list result" where
  "next_playable ts = (case ts of [] \<Rightarrow> Inl Null_Deref | _ # ts \<Rightarrow> Inr (dropWhile (\<lambda>tr. \<not> playable tr) ts))"

text \<open>The two ids a key is requested with.\<close>

definition request_key :: "table \<Rightarrow> client \<Rightarrow> (int \<times> table \<times> client) result" where
  "request_key t c =
     (case d_track c of
        [] \<Rightarrow> Inl Null_Deref
      | tr # _ \<Rightarrow>
          rbind (hex_id (file_id tr) 20) (\<lambda>fid.
          rbind (hex_id (track_id tr) 16) (\<lambda>tid.
            cmd_aeskey fid tid Aes_Callback t c)))"

text \<open>A stream that ends short was the last of its track.\<close>

definition substream_end :: "ds_callback channel \<Rightarrow> table \<Rightarrow> client \<Rightarrow> (int \<times> table \<times> client) result" where
  "substream_end ch t c =
     (let c = c\<lparr>d_errorcount := 0, d_offset := d_offset c + ch_total_data_len ch\<rparr>
      in rbind (if unat (ch_total_data_len ch) < SUBSTREAM_SIZE then
                  rbind (next_playable (d_track c)) (\<lambda>ts.
                  rbind (snd_ioctl SND_CMD_END Null 0 (c\<lparr>d_track := ts\<rparr>)) (\<lambda>c.
                    let c = c\<lparr>d_offset := 0\<rparr>
                    in if d_track c \<noteq> [] \<and> d_play_as_list c
                       then rbind (request_key t c) (\<lambda>(_, t, c). Inr (t, c))
                       else Inr (t, c)))
                else Inr (t, c)) (\<lambda>(t, c).
         rbind (snd_ioctl SND_CMD_CHANNEL_END Null 0 c) (\<lambda>c. Inr (0, t, c))))"

definition despotify_substream_callback ::
  "ds_callback channel \<Rightarrow> byte list \<Rightarrow> table \<Rightarrow> client \<Rightarrow> (int \<times> table \<times> client) result" where
  "despotify_substream_callback ch buf t c =
     (case ch_state ch of
        CHANNEL_HEADER \<Rightarrow> Inr (0, t, c)
      | CHANNEL_DATA \<Rightarrow> rbind (substream_data buf c) (\<lambda>c. Inr (0, t, c))
      | CHANNEL_ERROR \<Rightarrow>
          let c = c\<lparr>d_errorcount := d_errorcount c + 1\<rparr>
          in if 3 < d_errorcount c then Inl (Process_Exit (-1)) else Inr (0, t, c)
      | CHANNEL_END \<Rightarrow> substream_end ch t c)"

section \<open>Other answers\<close>

text \<open>The waiter of \<open>sync_cond\<close> is signalled.\<close>

definition tell_done :: "client \<Rightarrow> client" where
  "tell_done c = c\<lparr>d_synced := d_synced c + 1\<rparr>"

definition append_response :: "byte list \<Rightarrow> client \<Rightarrow> client result" where
  "append_response d c =
     (case d_response c of
        None \<Rightarrow> Inl Null_Deref
      | Some b \<Rightarrow> rbind (buf_append_checked b d) (\<lambda>b. Inr (c\<lparr>d_response := Some b\<rparr>)))"

definition despotify_plain_callback ::
  "ds_callback channel \<Rightarrow> byte list \<Rightarrow> table \<Rightarrow> client \<Rightarrow> (int \<times> table \<times> client) result" where
  "despotify_plain_callback ch buf t c =
     (case ch_state ch of
        CHANNEL_DATA \<Rightarrow> rbind (append_response buf c) (\<lambda>c. Inr (0, t, c))
      | CHANNEL_ERROR \<Rightarrow> Inr (0, t, tell_done c)
      | CHANNEL_END \<Rightarrow> Inr (0, t, tell_done c)
      | _ \<Rightarrow> Inr (0, t, c))"

text \<open>Of the first ten bytes of the answer, the gzip header, none is kept.\<close>

definition despotify_gzip_callback ::
  "ds_callback channel \<Rightarrow> byte list \<Rightarrow> table \<Rightarrow> client \<Rightarrow> (int \<times> table \<times> client) result" where
  "despotify_gzip_callback ch buf t c =
     (case ch_state ch of
        CHANNEL_DATA \<Rightarrow>
          let skip = (if ch_total_data_len ch < 10 then 10 - unat (ch_total_data_len ch) else 0)
          in if ch_total_data_len ch < 10 \<and> drop skip buf = [] then Inr (0, t, c)
             else rbind (append_response (drop skip buf) c) (\<lambda>c. Inr (0, t, c))
      | CHANNEL_ERROR \<Rightarrow> Inr (0, t, tell_done c)
      | CHANNEL_END \<Rightarrow> Inr (0, t, tell_done c)
      | _ \<Rightarrow> Inr (0, t, c))"

text \<open>Calling a callback of the client.\<close>

definition ds_run :: "(ds_callback, client) runner" where
  "ds_run cb ch buf t c =
     (case cb of
        Dump_Generic \<Rightarrow>
          let (r, fs) = dump_generic (may_write (d_disk c)) ch buf (files (d_disk c))
          in Inr (r, t, c\<lparr>d_disk := (d_disk c)\<lparr>files := fs\<rparr>\<rparr>)
      | Aes_Callback \<Rightarrow> despotify_aes_callback ch buf t c
      | Substream_Callback \<Rightarrow> despotify_substream_callback ch buf t c
      | Plain_Callback \<Rightarrow> despotify_plain_callback ch buf t c
      | Gzip_Callback \<Rightarrow> despotify_gzip_callback ch buf t c)"

section \<open>Control\<close>

definition despotify_is_track_restricted :: "ds_track \<Rightarrow> string \<Rightarrow> bool" where
  "despotify_is_track_restricted tr country =
     (let allowed = (case allowed tr of None \<Rightarrow> True | Some s \<Rightarrow> strstr s country);
          forbidden = (case forbidden tr of None \<Rightarrow> False | Some s \<Rightarrow> strstr s country)
      in \<not> allowed \<or> forbidden)"

text \<open>How \<open>despotify_play\<close> and \<open>despotify_next\<close> begin.\<close>

definition stop_or_init :: "env \<Rightarrow> table \<Rightarrow> client \<Rightarrow> (env \<times> table \<times> client) result" where
  "stop_or_init env t c =
     (case d_fifo c of
        Some _ \<Rightarrow> rbind (snd_stop env t c) (\<lambda>(_, env, t, c). Inr (env, t, c\<lparr>d_offset := 0\<rparr>))
      | None \<Rightarrow> Inr (env, t, snd (snd_init c)))"

definition despotify_play :: "ds_track list \<Rightarrow> bool \<Rightarrow> env \<Rightarrow> table \<Rightarrow> client \<Rightarrow> bool outcome" where
  "despotify_play tr play_as_list env t c =
     rbind (stop_or_init env t c) (\<lambda>(env, t, c).
     rbind (cmd_token_notify t c) (\<lambda>(r, t, c).
       if r \<noteq> 0 then Inr (False, env, t, c)
       else rbind (request_key t (c\<lparr>d_track := tr, d_play_as_list := play_as_list\<rparr>)) (\<lambda>(r, t, c).
              Inr (r = 0, env, t, c))))"

fun to_next_playable :: "ds_track list \<Rightarrow> ds_track list result" where
  "to_next_playable [] = Inr []"
| "to_next_playable (tr # ts) =
     (case ts of
        [] \<Rightarrow> Inl Null_Deref
      | tr' # _ \<Rightarrow> if playable tr' then Inr ts else to_next_playable ts)"

definition despotify_next :: "env \<Rightarrow> table \<Rightarrow> client \<Rightarrow> unit outcome" where
  "despotify_next env t c =
     rbind (stop_or_init env t c) (\<lambda>(env, t, c).
     rbind (snd_next c) (\<lambda>(r, c).
       if r \<noteq> 0 then Inr ((), env, t, c)
       else rbind (to_next_playable (d_track c)) (\<lambda>ts.
              let c = c\<lparr>d_track := ts\<rparr>
              in if ts = [] then Inr ((), env, t, c)
                 else rbind (despotify_play ts (d_play_as_list c) env t c) (\<lambda>(_, env, t, c).
                        Inr ((), env, t, c)))))"

definition despotify_stop :: "env \<Rightarrow> table \<Rightarrow> client \<Rightarrow> bool outcome" where
  "despotify_stop env t c =
     (case d_fifo c of
        None \<Rightarrow> Inr (False, env, t, c)
      | Some _ \<Rightarrow> rbind (snd_stop env t c) (\<lambda>(_, env, t, c). Inr (True, env, t, c\<lparr>d_offset := 0\<rparr>)))"

definition despotify_get_current_track :: "client \<Rightarrow> ds_track option" where
  "despotify_get_current_track c = (case d_track c of [] \<Rightarrow> None | tr # _ \<Rightarrow> Some tr)"

text \<open>\<open>despotify_set_buffer_size\<close>, \<open>despotify_set_watermark\<close>.\<close>

definition despotify_set_buffer_size :: "int \<Rightarrow> client \<Rightarrow> client" where
  "despotify_set_buffer_size sz c =
     (let c = (if d_fifo c = None then snd (snd_init c) else c)
      in c\<lparr>d_fifo := map_option (\<lambda>f. f\<lparr>maxbytes := sz\<rparr>) (d_fifo c)\<rparr>)"

definition despotify_set_watermark :: "int \<Rightarrow> client \<Rightarrow> client" where
  "despotify_set_watermark w c =
     (let c = (if d_fifo c = None then snd (snd_init c) else c)
      in c\<lparr>d_fifo := map_option (\<lambda>f. f\<lparr>watermark := w\<rparr>) (d_fifo c)\<rparr>)"

section \<open>The key stream as a specification\<close>

text \<open>
  AES in counter mode: block \<open>n\<close> of the key stream is the encryption of the 128-bit
  number \<open>IV0 + n\<close>, most significant byte first.  Byte \<open>p\<close> of the text meets byte
  \<open>p mod 16\<close> of block \<open>p div 16\<close>.
\<close>

fun to_le :: "nat \<Rightarrow> nat \<Rightarrow> byte list" where
  "to_le 0 v = []"
| "to_le (Suc n) v = word_of_nat v # to_le n (v div 256)"

definition counter :: "nat \<Rightarrow> byte list" where
  "counter v = rev (to_le 16 v)"

definition IV0 :: nat where
  "IV0 = 0x72e067fbddcbcf77ebe8bc643f630d93"

definition ctr_block :: "byte list \<Rightarrow> nat \<Rightarrow> byte list" where
  "ctr_block k n = AES k 4 (counter (IV0 + n))"

definition ctr :: "byte list \<Rightarrow> nat \<Rightarrow> byte list \<Rightarrow> byte list" where
  "ctr k n d = map (\<lambda>p. d ! p XOR ctr_block k (n + p div 16) ! (p mod 16)) [0..<length d]"

text \<open>The received bytes in their order again, for \<open>n\<close> blocks.\<close>

fun deinterleaved :: "nat \<Rightarrow> byte list \<Rightarrow> byte list" where
  "deinterleaved 0 buf = []"
| "deinterleaved (Suc n) buf = deinterleave (take 1024 buf) @ deinterleaved n (drop 1024 buf)"

section \<open>Counter mode\<close>

fun inc :: "byte list \<Rightarrow> byte list" where
  "inc [] = []"
| "inc (b # bs) = (if b + 1 \<noteq> 0 then (b + 1) # bs else 0 # inc bs)"

lemma bump_inc: "bump (xs @ ys) (length xs) = rev (inc (rev xs)) @ ys"
  by (induction xs arbitrary: ys rule: rev_induct) (simp_all add: nth_append list_update_append Let_def)

lemma byte_succ: "(word_of_nat v :: byte) + 1 = word_of_nat (v + 1)"
  by simp

lemma byte_zero_iff: "(word_of_nat v :: byte) = 0 \<longleftrightarrow> v mod 256 = 0"
  by (simp add: word_of_nat_eq_0_iff dvd_eq_mod_eq_0)

lemma inc_to_le: "inc (to_le n v) = to_le n (v + 1)"
proof (induction n arbitrary: v)
  case (Suc n)
  show ?case
  proof (cases "(v + 1) mod 256 = 0")
    case True
    then have "(v + 1) div 256 = v div 256 + 1" by (simp add: div_Suc)
    with True Suc byte_zero_iff [of "v + 1"] show ?thesis by (simp add: byte_succ del: of_nat_Suc of_nat_add)
  next
    case False
    then have "(v + 1) div 256 = v div 256" by (simp add: div_Suc)
    with False byte_zero_iff [of "v + 1"] show ?thesis by (simp add: byte_succ del: of_nat_Suc of_nat_add)
  qed
qed simp

lemma length_to_le [simp]: "length (to_le n v) = n"
  by (induction n arbitrary: v) simp_all

lemma bump_counter: "bump (counter v) 16 = counter (v + 1)"
  using bump_inc [of "counter v" "[]"] by (simp add: counter_def inc_to_le)

lemma to_le_numeral: "to_le (numeral n) v = word_of_nat v # to_le (pred_numeral n) (v div 256)"
  unfolding numeral_eq_Suc [of n] by (simp only: to_le.simps)

lemma initial_counter: "initial_IV = counter IV0"
  by (simp add: initial_IV_def counter_def IV0_def to_le_numeral)

lemma ctr_append:
  assumes "length a = 16 * m"
  shows "ctr k n (a @ b) = ctr k n a @ ctr k (n + m) b"
proof (rule nth_equalityI)
  show "length (ctr k n (a @ b)) = length (ctr k n a @ ctr k (n + m) b)" by (simp add: ctr_def)
  fix p assume "p < length (ctr k n (a @ b))"
  then have p: "p < length a + length b" by (simp add: ctr_def)
  show "ctr k n (a @ b) ! p = (ctr k n a @ ctr k (n + m) b) ! p"
  proof (cases "p < length a")
    case True
    with p show ?thesis by (simp add: ctr_def nth_append)
  next
    case False
    then obtain q where q: "p = 16 * m + q" using assms by (metis le_Suc_ex not_less)
    with p assms show ?thesis by (simp add: ctr_def nth_append ac_simps)
  qed
qed

lemma ctr_one: "length a = 16 \<Longrightarrow> ctr k n a = map2 (XOR) a (ctr_block k n)"
  by (rule nth_equalityI) (simp_all add: ctr_def ctr_block_def)

lemma length_ctr [simp]: "length (ctr k n d) = length d"
  by (simp add: ctr_def)

definition key_state :: "byte list \<Rightarrow> u32 list" where
  "key_state k = fst (rijndaelKeySetupEnc k 128)"

lemma key_stream: "rijndaelEncrypt (key_state k) 10 (counter (IV0 + n)) = ctr_block k n"
  using rijndael_aes [of 4 k] by (simp add: key_state_def ctr_block_def)

lemma decrypt_turns_ctr:
  "16 * m \<le> length d \<Longrightarrow> \<exists>ks'. decrypt_turns (key_state k) (counter (IV0 + n)) ks m d =
     (ctr k n (take (16 * m) d), counter (IV0 + n + m), ks')"
proof (induction m arbitrary: n ks d)
  case 0
  then show ?case by (simp add: ctr_def)
next
  case (Suc m)
  have l: "length (take 16 d) = 16" and le: "16 * m \<le> length (drop 16 d)" using Suc.prems by simp_all
  have "ctr k n (take 16 d @ take (16 * m) (drop 16 d)) = map2 (XOR) (take 16 d) (ctr_block k n) @ ctr k (n + 1) (take (16 * m) (drop 16 d))"
    using ctr_append [of "take 16 d" 1] ctr_one [OF l] l by simp
  moreover have "take 16 d @ take (16 * m) (drop 16 d) = take (16 * Suc m) d"
    by (simp add: take_add [symmetric])
  moreover obtain ks' where "decrypt_turns (key_state k) (counter (IV0 + (n + 1))) (ctr_block k n) m (drop 16 d) =
      (ctr k (n + 1) (take (16 * m) (drop 16 d)), counter (IV0 + (n + 1) + m), ks')"
    using Suc.IH [OF le, of "n + 1" "ctr_block k n"] by blast
  ultimately show ?case
    using bump_counter [of "IV0 + n"] by (simp add: key_stream Let_def)
qed

lemma length_deinterleave [simp]: "length (deinterleave w) = 1024"
  by (simp add: deinterleave_def length_concat comp_def sum_list_triv)

lemma length_deinterleaved [simp]: "length (deinterleaved n buf) = 1024 * n"
  by (induction n arbitrary: buf) simp_all

lemma decrypt_blocks_ctr:
  "1024 * m \<le> length d \<Longrightarrow> \<exists>ks'. decrypt_blocks (key_state k) (counter (IV0 + n)) ks m d =
     (ctr k n (deinterleaved m d), counter (IV0 + n + 64 * m), ks')"
proof (induction m arbitrary: n ks d)
  case 0
  then show ?case by (simp add: ctr_def)
next
  case (Suc m)
  have le: "1024 * m \<le> length (drop 1024 d)" using Suc.prems by simp
  obtain ks1 where t: "decrypt_turns (key_state k) (counter (IV0 + n)) ks 64 (deinterleave (take 1024 d)) =
      (ctr k n (deinterleave (take 1024 d)), counter (IV0 + n + 64), ks1)"
    using decrypt_turns_ctr [of 64 "deinterleave (take 1024 d)" k n ks] by auto
  obtain ks2 where r: "decrypt_blocks (key_state k) (counter (IV0 + (n + 64))) ks1 m (drop 1024 d) =
      (ctr k (n + 64) (deinterleaved m (drop 1024 d)), counter (IV0 + (n + 64) + 64 * m), ks2)"
    using Suc.IH [OF le, of "n + 64" ks1] by blast
  have "ctr k n (deinterleave (take 1024 d) @ deinterleaved m (drop 1024 d)) =
      ctr k n (deinterleave (take 1024 d)) @ ctr k (n + 64) (deinterleaved m (drop 1024 d))"
    by (rule ctr_append) simp
  with r show ?case by (simp add: t ac_simps)
qed

text \<open>
  What a packet adds to the stream, with the key stream from block \<open>n\<close> on: its whole
  blocks of 1024 bytes decrypted, and one cell that was never written for each byte left.
\<close>

definition packet_items :: "byte list \<Rightarrow> nat \<Rightarrow> byte list \<Rightarrow> item list" where
  "packet_items k n d =
     map Audio (map Some (ctr k n (deinterleaved (length d div 1024) d)) @ replicate (length d mod 1024) None)"

fun packets_items :: "byte list \<Rightarrow> nat \<Rightarrow> byte list list \<Rightarrow> item list" where
  "packets_items k n [] = []"
| "packets_items k n (d # ds) = packet_items k n d @ packets_items k (n + 64 * (length d div 1024)) ds"

text \<open>In the middle of a track: the key is there, the counter stands at block \<open>n\<close>.\<close>

definition receiving :: "byte list \<Rightarrow> nat \<Rightarrow> client \<Rightarrow> bool" where
  "receiving k n c \<longleftrightarrow> d_aes_state c = key_state k \<and> d_IV c = counter (IV0 + n) \<and> \<not> d_dlabort c \<and>
     (\<exists>f. d_fifo c = Some f \<and> lastcmd f = SND_CMD_DATA)"

lemma substream_data_stream:
  assumes "receiving k n c"
  shows "\<exists>c'. substream_data d c = Inr c' \<and> stream c' = stream c @ packet_items k n d \<and>
    receiving k (n + 64 * (length d div 1024)) c'"
proof -
  let ?m = "length d div 1024" and ?r = "length d mod 1024"
  obtain f where f: "d_fifo c = Some f" "lastcmd f = SND_CMD_DATA" "\<not> d_dlabort c"
    using assms by (auto simp: receiving_def)
  have le: "1024 * ?m \<le> length d" by simp
  obtain ks where b: "decrypt_blocks (d_aes_state c) (d_IV c) (d_keystream c) ?m d =
      (ctr k n (deinterleaved ?m d), counter (IV0 + n + 64 * ?m), ks)"
    using decrypt_blocks_ctr [OF le, of k n "d_keystream c"] assms by (auto simp: receiving_def)
  let ?pt = "ctr k n (deinterleaved ?m d)"
  let ?cells = "map Some ?pt @ replicate (length d + 1024 - ?m * 1024) None"
  let ?b = "\<lparr>sb_length = length d, sb_cmd = SND_CMD_DATA, sb_consumed = 0, sb_ptr = Cells ?cells\<rparr>"
  have run: "substream_data d c = Inr (c\<lparr>d_IV := counter (IV0 + n + 64 * ?m), d_keystream := ks,
      d_fifo := Some (f\<lparr>buffers := buffers f @ [?b], totbytes := totbytes f + int (length d), lastcmd := SND_CMD_DATA\<rparr>)\<rparr>)"
    using f by (simp add: substream_data_def b Let_def snd_ioctl_def)
  have "length d - 1024 * ?m = ?r" by (simp add: minus_mult_div_eq_mod)
  moreover have "?r \<le> length d + 1024 - ?m * 1024" using calculation by linarith
  ultimately have "take (length d) ?cells = map Some ?pt @ replicate ?r None"
    using le by simp
  then have "buf_items ?b = packet_items k n d"
    by (simp add: buf_items_def packet_items_def)
  then have "stream (c\<lparr>d_IV := counter (IV0 + n + 64 * ?m), d_keystream := ks,
      d_fifo := Some (f\<lparr>buffers := buffers f @ [?b], totbytes := totbytes f + int (length d), lastcmd := SND_CMD_DATA\<rparr>)\<rparr>) =
      stream c @ packet_items k n d"
    using f(1) by (simp only: stream_def items_def) simp
  moreover have "receiving k (n + 64 * ?m) (c\<lparr>d_IV := counter (IV0 + n + 64 * ?m), d_keystream := ks,
      d_fifo := Some (f\<lparr>buffers := buffers f @ [?b], totbytes := totbytes f + int (length d), lastcmd := SND_CMD_DATA\<rparr>)\<rparr>)"
    using assms by (simp add: receiving_def add.assoc)
  ultimately show ?thesis using run by blast
qed

text \<open>
  The packets of the audio channels in the order they come in; a track is fetched in several
  substreams, each on a channel of its own.
\<close>

fun stream_packets :: "(ds_callback channel \<times> byte list) list \<Rightarrow> table \<Rightarrow> client \<Rightarrow> (table \<times> client) result" where
  "stream_packets [] t c = Inr (t, c)"
| "stream_packets ((ch, d) # ps) t c =
     rbind (ds_run Substream_Callback ch d t c) (\<lambda>(_, t, c). stream_packets ps t c)"

lemma stream_packets_items:
  assumes "\<forall>p \<in> set ps. ch_state (fst p) = CHANNEL_DATA" "receiving k n c"
  shows "\<exists>c'. stream_packets ps t c = Inr (t, c') \<and> stream c' = stream c @ packets_items k n (map snd ps)"
  using assms
proof (induction ps arbitrary: n c)
  case (Cons p ps)
  obtain ch d where p: "p = (ch, d)" by (cases p)
  obtain c1 where c1: "substream_data d c = Inr c1" "stream c1 = stream c @ packet_items k n d"
    "receiving k (n + 64 * (length d div 1024)) c1"
    using substream_data_stream [OF Cons.prems(2)] by blast
  from Cons.IH [OF _ c1(3)] c1 Cons.prems(1) show ?case
    by (auto simp: p ds_run_def despotify_substream_callback_def)
qed simp

text \<open>The size of an Ogg page at the beginning of \<open>pt\<close>, and how much of \<open>pt\<close> is cut off for it.\<close>

definition page_length :: "byte list \<Rightarrow> nat" where
  "page_length pt = 28 + sum_list (map unat (take (unat (pt ! 26)) (drop 27 pt)))"

definition cut_off :: "nat \<Rightarrow> byte list \<Rightarrow> nat" where
  "cut_off len pt = (if pt ! 5 = 6 \<and> page_length pt < len then page_length pt else 0)"

lemma drop_page_cells:
  assumes "282 \<le> length pt" "len \<le> length (map Some pt @ junk)"
  shows "\<exists>b. drop_page \<lparr>sb_length = len, sb_cmd = SND_CMD_DATA, sb_consumed = 0, sb_ptr = Cells (map Some pt @ junk)\<rparr> = Inr b \<and>
    buf_items b = map Audio (drop (cut_off len pt) (take len (map Some pt @ junk)))"
proof -
  let ?m = "map Some pt @ junk" and ?off = "page_length pt"
  have c: "cell ?m 5 = Inr (pt ! 5)" "cell ?m 26 = Inr (pt ! 26)" using assms(1) by (simp_all add: nth_append)
  have "unat (pt ! 26) + 27 \<le> length pt" using assms(1) unat_u8_less [of "pt ! 26"] by simp
  then have p: "page_size ?m (unat (pt ! 26)) 28 = Inr ?off" unfolding page_length_def by (rule page_size_bytes)
  show ?thesis
  proof (cases "pt ! 5 = 6 \<and> ?off < len")
    case True
    then have "slice ?m ?off (len - ?off) = Inr (take (len - ?off) (drop ?off ?m))"
      using assms(2) unfolding slice_Inr by simp
    moreover have "take (len - n) (store_at m 0 (take (len - n) (drop n m))) = drop n (take len m)"
      if "len \<le> length m" "n < len" for n and m :: "byte option list"
      using that by (simp add: store_at_def drop_take)
    from this [OF assms(2) conjunct2 [OF True]]
    have "take (len - ?off) (store_at ?m 0 (take (len - ?off) (drop ?off ?m))) = drop ?off (take len ?m)" .
    ultimately show ?thesis using True c p by (simp add: drop_page_def buf_items_def cut_off_def)
  next
    case False
    then show ?thesis using c p by (auto simp: drop_page_def buf_items_def cut_off_def)
  qed
qed

text \<open>After the key of a track has come: nothing of the track is queued but its mark.\<close>

definition starting :: "byte list \<Rightarrow> client \<Rightarrow> bool" where
  "starting k c \<longleftrightarrow> d_aes_state c = key_state k \<and> d_IV c = counter IV0 \<and> \<not> d_dlabort c \<and>
     (\<exists>f. d_fifo c = Some f \<and> lastcmd f = SND_CMD_START)"

lemma key_starts:
  assumes "ch_state ch = CHANNEL_DATA" "16 \<le> length answer" "d_track c = tr # ts" "d_fifo c = Some f" "\<not> d_dlabort c"
  shows "\<exists>c'. ds_run Aes_Callback ch answer t c = Inr (0, t, c') \<and> starting (take 16 answer) c' \<and>
    stream c' = stream c @ [Mark (Track_Copy (tr\<lparr>key := Some answer\<rparr>))]"
proof -
  let ?b = "\<lparr>sb_length = 0, sb_cmd = SND_CMD_START, sb_consumed = 0, sb_ptr = Track_Copy (tr\<lparr>key := Some answer\<rparr>)\<rparr>"
  let ?c = "c\<lparr>d_track := tr\<lparr>key := Some answer\<rparr> # ts, d_aes_state := key_state (take 16 answer), d_IV := initial_IV\<rparr>"
  have s: "slice answer 0 16 = Inr (take 16 answer)" using assms(2) by (simp add: slice_def)
  have "(if lastcmd f = SND_CMD_START then drop_page ?b else Inr ?b) = Inr ?b" by (simp add: drop_page_def)
  then have "snd_ioctl SND_CMD_START (Track_Copy (tr\<lparr>key := Some answer\<rparr>)) 0 ?c =
      Inr (?c\<lparr>d_fifo := Some (f\<lparr>buffers := buffers f @ [?b], totbytes := totbytes f + int (sb_length ?b), lastcmd := SND_CMD_START\<rparr>)\<rparr>)"
    using assms(4,5) unfolding snd_ioctl_def Let_def by simp
  then have "ds_run Aes_Callback ch answer t c =
      Inr (0, t, ?c\<lparr>d_fifo := Some (f\<lparr>buffers := buffers f @ [?b], totbytes := totbytes f + int (sb_length ?b), lastcmd := SND_CMD_START\<rparr>)\<rparr>)"
    using assms(1,3) s by (simp add: ds_run_def despotify_aes_callback_def key_state_def Let_def)
  then show ?thesis using assms(4,5)
    by (intro exI [of _ "?c\<lparr>d_fifo := Some (f\<lparr>buffers := buffers f @ [?b], totbytes := totbytes f + int (sb_length ?b),
        lastcmd := SND_CMD_START\<rparr>)\<rparr>"])
      (simp add: starting_def initial_counter stream_def items_def buf_items_def)
qed

lemma first_packet:
  assumes "starting k c"
  shows "1024 \<le> length d \<Longrightarrow> \<exists>c'. substream_data d c = Inr c' \<and>
      stream c' = stream c @ drop (cut_off (length d) (ctr k 0 (deinterleaved (length d div 1024) d))) (packet_items k 0 d) \<and>
      receiving k (64 * (length d div 1024)) c'"
    and "length d < 1024 \<Longrightarrow> substream_data d c = Inl Uninit"
proof -
  let ?m = "length d div 1024"
  obtain f where f: "d_fifo c = Some f" "lastcmd f = SND_CMD_START" "\<not> d_dlabort c" "d_IV c = counter (IV0 + 0)"
    "d_aes_state c = key_state k"
    using assms by (auto simp: starting_def)
  have le: "1024 * ?m \<le> length d" by simp
  obtain ks where b: "decrypt_blocks (d_aes_state c) (d_IV c) (d_keystream c) ?m d =
      (ctr k 0 (deinterleaved ?m d), counter (IV0 + 0 + 64 * ?m), ks)"
    using decrypt_blocks_ctr [OF le, of k 0 "d_keystream c"] unfolding f(4,5) by auto
  let ?pt = "ctr k 0 (deinterleaved ?m d)" and ?junk = "replicate (length d + 1024 - ?m * 1024) None :: byte option list"
  let ?c = "c\<lparr>d_IV := counter (IV0 + 0 + 64 * ?m), d_keystream := ks\<rparr>"
  have run: "substream_data d c = snd_ioctl SND_CMD_DATA (Cells (map Some ?pt @ ?junk)) (length d) ?c"
    by (simp add: substream_data_def b Let_def)
  show "\<exists>c'. substream_data d c = Inr c' \<and> stream c' = stream c @ drop (cut_off (length d) ?pt) (packet_items k 0 d) \<and>
      receiving k (64 * ?m) c'" if big: "1024 \<le> length d"
  proof -
    have "1 \<le> ?m" using big by (simp add: Suc_le_eq div_greater_zero_iff)
    then have "282 \<le> length ?pt" by simp
    moreover have "length d - 1024 * ?m = length d mod 1024" by (simp add: minus_mult_div_eq_mod)
    moreover have "take (length d) (map Some ?pt @ ?junk) = map Some ?pt @ replicate (length d mod 1024) None"
      using le calculation(2) by simp
    moreover have "length d \<le> length (map Some ?pt @ ?junk)" using le by simp
    ultimately obtain b where "drop_page \<lparr>sb_length = length d, sb_cmd = SND_CMD_DATA, sb_consumed = 0,
        sb_ptr = Cells (map Some ?pt @ ?junk)\<rparr> = Inr b"
      "buf_items b = drop (cut_off (length d) ?pt) (packet_items k 0 d)"
      using drop_page_cells [of ?pt "length d" ?junk] by (auto simp: packet_items_def drop_map)
    moreover have c: "d_fifo ?c = Some f" "\<not> d_dlabort ?c" "stream ?c = stream c" using f by (simp_all add: stream_def)
    ultimately have "snd_ioctl SND_CMD_DATA (Cells (map Some ?pt @ ?junk)) (length d) ?c =
        Inr (?c\<lparr>d_fifo := Some (f\<lparr>buffers := buffers f @ [b], totbytes := totbytes f + int (sb_length b), lastcmd := SND_CMD_DATA\<rparr>)\<rparr>)"
      using f(2) by (simp add: snd_ioctl_def)
    moreover have "stream (?c\<lparr>d_fifo := Some (f\<lparr>buffers := buffers f @ [b], totbytes := totbytes f + int (sb_length b),
        lastcmd := SND_CMD_DATA\<rparr>)\<rparr>) = stream c @ drop (cut_off (length d) ?pt) (packet_items k 0 d)"
      using f(1) \<open>buf_items b = _\<close> by (simp only: stream_def items_def) simp
    moreover have "receiving k (64 * ?m) (?c\<lparr>d_fifo := Some (f\<lparr>buffers := buffers f @ [b],
        totbytes := totbytes f + int (sb_length b), lastcmd := SND_CMD_DATA\<rparr>)\<rparr>)"
      using f by (simp add: receiving_def)
    ultimately show ?thesis unfolding run by blast
  qed
  show "substream_data d c = Inl Uninit" if small: "length d < 1024"
  proof -
    have m: "?m = 0" using small by simp
    have "cell (replicate (length d + 1024) (None :: byte option)) 5 = Inl Uninit" by (simp add: cell_def fetch_def)
    then show ?thesis using f unfolding run m
      by (simp add: ctr_def snd_ioctl_def drop_page_def)
  qed
qed

lemma packets_items_whole:
  "\<forall>d \<in> set ds. 1024 dvd length d \<Longrightarrow> packets_items k n ds =
   map (\<lambda>b. Audio (Some b)) (ctr k n (concat (map (\<lambda>d. deinterleaved (length d div 1024) d) ds)))"
proof (induction ds arbitrary: n)
  case (Cons d ds)
  let ?m = "length d div 1024"
  have "ctr k n (deinterleaved ?m d @ concat (map (\<lambda>d. deinterleaved (length d div 1024) d) ds)) =
      ctr k n (deinterleaved ?m d) @ ctr k (n + 64 * ?m) (concat (map (\<lambda>d. deinterleaved (length d div 1024) d) ds))"
    by (rule ctr_append) simp
  with Cons show ?case by (simp add: packet_items_def)
qed (simp add: ctr_def)

section \<open>The callbacks and the channel table\<close>

lemma cmd_aeskey_table:
  assumes "cmd_aeskey fid tid cb t c = Inr (r, t', c')" "table_ok t"
  shows "table_ok t' \<and> set (head t) \<subseteq> set (head t')"
proof -
  from assms(1) obtain f where f: "slice fid 0 20 = Inr f" by (auto simp: cmd_aeskey_def rbind_Inr_iff)
  obtain ch t1 where reg: "channel_register (Some (''key-'' @ hex_bytes_to_ascii f 20)) cb t = (ch, t1)"
    by fastforce
  from assms(1) have t': "t' = upd_ch (ch_id ch) (\<lambda>ch. ch\<lparr>ch_state := CHANNEL_DATA\<rparr>) t1"
    using reg by (auto simp: cmd_aeskey_def f Let_def rbind_Inr_iff dest!: write_buf_table)
  note ok = channel_register_ok [OF assms(2) reg]
  have "set (head t) \<subseteq> set (head t')"
  proof
    fix d assume d: "d \<in> set (head t)"
    then have "ch_id d \<noteq> ch_id ch" using ok(4) unfolding ids_def by (metis imageI)
    with d ok(2) show "d \<in> set (head t')" unfolding t' by (intro others_upd) simp_all
  qed
  with ok(1) show ?thesis by (simp add: t')
qed

lemma ds_run_table:
  assumes "ds_run cb ch d t c = Inr (r, t', c')"
  shows "t' = t \<or> (\<exists>fid tid c1 r c2. cmd_aeskey fid tid Aes_Callback t (c1 :: client) = Inr (r, t', c2))"
proof (cases cb)
  case Substream_Callback
  with assms have "despotify_substream_callback ch d t c = Inr (r, t', c')" by (simp add: ds_run_def)
  then consider "t' = t" | "substream_end ch t c = Inr (r, t', c')"
    by (auto simp: despotify_substream_callback_def rbind_Inr_iff Let_def split: channel_state.splits if_splits)
  then show ?thesis
  proof cases
    case 2
    show ?thesis
    proof (rule disjCI)
      assume none: "\<nexists>fid tid c1 r c2. cmd_aeskey fid tid Aes_Callback t (c1 :: client) = Inr (r, t', c2)"
      from 2 show "t' = t"
        by (auto simp: substream_end_def request_key_def Let_def rbind_Inr_iff split_def
            split: if_splits list.splits) (use none in blast)+
    qed
  qed simp
qed (use assms in \<open>auto simp: ds_run_def dump_generic_def despotify_aes_callback_def despotify_plain_callback_def
    despotify_gzip_callback_def Let_def rbind_Inr_iff split: channel_state.splits if_splits list.splits prod.splits\<close>)

interpretation client: channel_callbacks ds_run
proof
  fix cb ch d t t' and c c' :: client and r
  assume r: "ds_run cb ch d t c = Inr (r, t', c')" and ok: "table_ok t"
  show "table_ok t'" using ds_run_table [OF r] cmd_aeskey_table [OF _ ok] ok by blast
  show "set (head t) \<subseteq> set (head t')" using ds_run_table [OF r] cmd_aeskey_table [OF _ ok] by blast
qed

section \<open>Properties\<close>


definition data_channel :: "ds_callback channel" where
  "data_channel = \<lparr>ch_id = 3, ch_header_id = 0, ch_state = CHANNEL_DATA, ch_total_header_len = 0,
     ch_total_data_len = 0, ch_name = [], ch_callback = Substream_Callback\<rparr>"

definition midway :: "byte list \<Rightarrow> client" where
  "midway k = fresh_client\<lparr>d_aes_state := key_state k, d_IV := counter (IV0 + 0),
     d_fifo := Some \<lparr>totbytes = 0, maxbytes = 0, watermark = 0, lastcmd = SND_CMD_DATA, buffers = []\<rparr>\<rparr>"

lemma midway_receiving: "receiving k 0 (midway k)" "stream (midway k) = []"
  by (simp_all add: receiving_def midway_def stream_def fresh_client_def snd_init_def client_of_def
      client.defs conn.defs conn_out_def)


text \<open>
  C25: With the client's own callbacks the network thread keeps the channel table in order,
  whatever the server sends and however long it runs: the callbacks meet the contract the
  dispatch asks for.
\<close>

theorem client_thread_keeps_table:
  assumes "despotify_thread fuel parse ds_run t c = Inr (ended, t', c')" and "table_ok t"
  shows "table_ok t'"
  by (rule thread_table_ok [OF client.channel_callbacks_axioms assms])

lemma thread_at_eof:
  "\<exists>c'. despotify_thread (Suc 0) parse ds_run no_channels (client_of empty_disk (conn_in [] [])) = Inr (True, no_channels, c')"
  by (simp add: thread_step_def packet_read_def block_read_def block_read_loop.simps conn_in_def client_of_def
      client.defs conn.defs)

theorem client_thread_keeps_table_witness:
  "\<exists>c'. despotify_thread (Suc 0) (\<lambda>_. None) ds_run no_channels (client_of empty_disk (conn_in [] [])) =
     Inr (True, no_channels, c') \<and> table_ok (no_channels :: table)"
proof -
  obtain c' where r: "despotify_thread (Suc 0) (\<lambda>_. None) ds_run no_channels (client_of empty_disk (conn_in [] [])) =
      Inr (True, no_channels, c')"
    using thread_at_eof by blast
  from client_thread_keeps_table [OF r] r show ?thesis by simp
qed

text \<open>
  A stream the server refuses leaves the player stuck.  The error is counted and the
  state stays \<open>DL_FILLING_BUSY\<close>: nothing more is ever fetched, and stopping waits until some
  other thread changes the state, which none of the callbacks does without a new stream.
\<close>

lemma refused_stream_stalls:
  assumes "ch_state ch = CHANNEL_ERROR" and "d_errorcount c < 3"
    and "d_dlstate c = DL_FILLING_BUSY" and "\<not> d_dlabort c"
  shows "\<exists>c'. ds_run Substream_Callback ch d t c = Inr (0, t, c') \<and> d_dlstate c' = DL_FILLING_BUSY \<and>
    snd_fill_fifo env t c' = Inr ((), env, t, c') \<and> snd_stop [] t c' = Inl Blocked"
  using assms
  by (simp add: ds_run_def despotify_substream_callback_def Let_def snd_fill_fifo_def snd_stop_def)

lemma refused_stream_stalls_witness:
  "\<exists>c'. ds_run Substream_Callback (data_channel\<lparr>ch_state := CHANNEL_ERROR\<rparr>) [] no_channels
       (fresh_client\<lparr>d_dlstate := DL_FILLING_BUSY\<rparr>) = Inr (0, no_channels, c') \<and>
     snd_stop [] no_channels c' = Inl Blocked"
  using refused_stream_stalls [of "data_channel\<lparr>ch_state := CHANNEL_ERROR\<rparr>"
      "fresh_client\<lparr>d_dlstate := DL_FILLING_BUSY\<rparr>" "[]" no_channels "[]"]
  by (auto simp: fresh_client_def snd_init_def client_of_def client.defs conn.defs conn_out_def)

text \<open>
  The end of a track.  A stream that ends short marks the end in the queue and moves on
  to the next playable track, from its beginning.  Without one the state becomes
  \<open>DL_END_OF_LIST\<close>; with one it becomes \<open>DL_FILLING\<close>, also when only the one track was to be
  played: no key is requested then, the cipher keeps the old one, and the next fill fetches
  the following track.
\<close>

lemma short_stream_ends_track:
  assumes "ch_state ch = CHANNEL_END" and "unat (ch_total_data_len ch) < SUBSTREAM_SIZE"
    and "d_track c = tr # ts" and "d_fifo c = Some f" and "\<not> d_dlabort c" and "lastcmd f \<noteq> SND_CMD_START"
    and "d_dlstate c \<noteq> DL_END_OF_LIST"
    and "\<not> d_play_as_list c \<or> dropWhile (\<lambda>tr. \<not> playable tr) ts = []"
  shows "\<exists>c'. ds_run Substream_Callback ch d t c = Inr (0, t, c') \<and> stream c' = stream c @ [Finish] \<and>
    d_track c' = dropWhile (\<lambda>tr. \<not> playable tr) ts \<and> d_offset c' = 0 \<and> d_errorcount c' = 0 \<and>
    d_dlstate c' = (if d_track c' = [] then DL_END_OF_LIST else DL_FILLING) \<and>
    d_aes_state c' = d_aes_state c \<and> sock c' = sock c \<and>
    (d_track c' \<noteq> [] \<and> totbytes f < maxbytes f - int SUBSTREAM_SIZE \<longrightarrow>
       snd_fill_fifo env t c' = start_filling env t c')"
proof -
  define nx where "nx = dropWhile (\<lambda>tr. \<not> playable tr) ts"
  let ?b = "\<lparr>sb_length = 0, sb_cmd = SND_CMD_END, sb_consumed = 0, sb_ptr = Null\<rparr>"
  let ?f = "f\<lparr>buffers := buffers f @ [?b], totbytes := totbytes f, lastcmd := SND_CMD_END\<rparr>"
  let ?c = "\<lambda>dl. c\<lparr>d_errorcount := 0, d_offset := 0, d_track := nx, d_dlstate := dl, d_fifo := Some ?f\<rparr>"
  have n: "next_playable (d_track c) = Inr nx" using assms(3) by (simp add: next_playable_def nx_def)
  have key: "nx \<noteq> [] \<Longrightarrow> \<not> d_play_as_list c" using assms(8) by (auto simp: nx_def)
  have e: "ds_run Substream_Callback ch d t c = substream_end ch t c"
    using assms(1) by (simp add: ds_run_def despotify_substream_callback_def)
  have run: "ds_run Substream_Callback ch d t c = Inr (0, t, ?c (if nx = [] then DL_END_OF_LIST else DL_FILLING))"
    unfolding e substream_end_def Let_def
    using assms(2,4-7) key by (cases "nx = []") (simp_all add: n snd_ioctl_def)
  have st: "stream (?c dl) = stream c @ [Finish]" for dl
    using assms(4) by (simp add: stream_def items_def buf_items_def)
  show ?thesis
    unfolding run nx_def [symmetric] using st assms(4,5) by (simp add: snd_fill_fifo_def)
qed

lemma short_stream_ends_track_witness:
  "\<exists>c'. ds_run Substream_Callback (data_channel\<lparr>ch_state := CHANNEL_END\<rparr>) [] no_channels
       ((midway (replicate 16 7))\<lparr>d_track := [zero_track, zero_track, zero_track\<lparr>playable := True\<rparr>]\<rparr>) =
     Inr (0, no_channels, c') \<and> stream c' = [Finish] \<and> d_track c' = [zero_track\<lparr>playable := True\<rparr>] \<and>
     d_dlstate c' = DL_FILLING"
proof -
  let ?c = "(midway (replicate 16 7))\<lparr>d_track := [zero_track, zero_track, zero_track\<lparr>playable := True\<rparr>]\<rparr>"
  have c: "d_fifo ?c = Some \<lparr>totbytes = 0, maxbytes = 0, watermark = 0, lastcmd = SND_CMD_DATA, buffers = []\<rparr>"
    "\<not> d_dlabort ?c" "d_dlstate ?c \<noteq> DL_END_OF_LIST" "\<not> d_play_as_list ?c" "stream ?c = []"
    by (simp_all add: midway_def stream_def fresh_client_def snd_init_def client_of_def client.defs conn.defs conn_out_def)
  have "unat (ch_total_data_len (data_channel\<lparr>ch_state := CHANNEL_END\<rparr>)) < SUBSTREAM_SIZE"
    by (simp add: data_channel_def SUBSTREAM_SIZE_def)
  with short_stream_ends_track [of "data_channel\<lparr>ch_state := CHANNEL_END\<rparr>" ?c zero_track _ _ "[]" no_channels "[]", OF _ _ _ c(1-2) _ c(3)]
    c(4,5)
  show ?thesis by (auto simp: zero_track_def)
qed

end
