(* ===== verification/Sha1.thy ===== *)
theory Sha1
  imports Prelude "HOL-Library.Monad_Syntax"
begin

text \<open>
  \<^verbatim>\<open>src/src/lib/sha1.c\<close> and \<^verbatim>\<open>src/src/lib/hmac.c\<close>: the hash that the login, the puzzle
  and the track cache use, as the incremental code computes it; and next to it
  the definition of the standard.  The code keeps 16 words of the message
  schedule in a ring and the unfinished block in a buffer; what it computes is
  shown to be the standard's value, for pieces of less than \<open>2 ^ 29\<close> bytes: the
  lengths are \<open>u_int\<close>, and above that the carry into the second word of the
  bit count is computed wrongly.
\<close>

section \<open>The code\<close>

record SHA1_CTX =
  state :: "u32 list"
  count0 :: u32
  count1 :: u32
  buffer :: "byte list"

definition rol :: "u32 \<Rightarrow> nat \<Rightarrow> u32" where
  "rol v n = (push_bit n v OR drop_bit (32 - n) v)"

text \<open>
  The working variables in the order the macros take them, and the ring.  The
  macros \<open>R0\<close> to \<open>R4\<close> are called with the five variables rotated by one each
  time, which is what \<open>sha1_round\<close> does with the tuple.
\<close>

type_synonym work = "u32 \<times> u32 \<times> u32 \<times> u32 \<times> u32"

definition blk :: "u32 list \<Rightarrow> nat \<Rightarrow> u32" where
  "blk block i =
     rol (block ! ((i + 13) mod 16) XOR block ! ((i + 8) mod 16) XOR block ! ((i + 2) mod 16)
          XOR block ! (i mod 16)) 1"

definition round_f :: "nat \<Rightarrow> u32 \<Rightarrow> u32 \<Rightarrow> u32 \<Rightarrow> u32" where
  "round_f i w x y =
     (if i < 20 then (w AND (x XOR y)) XOR y
      else if i < 40 then w XOR x XOR y
      else if i < 60 then ((w OR x) AND y) OR (w AND x)
      else w XOR x XOR y)"

definition round_k :: "nat \<Rightarrow> u32" where
  "round_k i =
     (if i < 20 then 0x5A827999 else if i < 40 then 0x6ED9EBA1
      else if i < 60 then 0x8F1BBCDC else 0xCA62C1D6)"

definition sha1_round :: "work \<times> u32 list \<Rightarrow> nat \<Rightarrow> work \<times> u32 list" where
  "sha1_round s i =
     (let ((v, w, x, y, z), block) = s;
          block = (if i < 16 then block else block[i mod 16 := blk block i]);
          z = z + (round_f i w x y + block ! (i mod 16) + round_k i + rol v 5)
      in ((z, v, rol w 30, x, y), block))"

text \<open>The block as 16 big-endian words: \<open>blk0\<close> on a little-endian machine.\<close>

fun be_words :: "byte list \<Rightarrow> u32 list" where
  "be_words (a # b # c # d # bs) = get_u32 a b c d # be_words bs"
| "be_words _ = []"

definition SHA1Transform :: "u32 list \<Rightarrow> byte list \<Rightarrow> u32 list" where
  "SHA1Transform st buf =
     (let ((a, b, c, d, e), block) =
        foldl sha1_round ((st ! 0, st ! 1, st ! 2, st ! 3, st ! 4), be_words buf) [0..<80]
      in [st ! 0 + a, st ! 1 + b, st ! 2 + c, st ! 3 + d, st ! 4 + e])"

definition H0 :: "u32 list" where
  "H0 = [0x67452301, 0xEFCDAB89, 0x98BADCFE, 0x10325476, 0xC3D2E1F0]"

definition SHA1Init :: "SHA1_CTX \<Rightarrow> SHA1_CTX" where
  "SHA1Init c = c\<lparr>state := H0, count0 := 0, count1 := 0\<rparr>"

text \<open>The loop over whole blocks of the data; the bytes that are left.\<close>

function sha1_blocks :: "u32 list \<Rightarrow> byte list \<Rightarrow> u32 list \<times> byte list" where
  "sha1_blocks st data =
     (if 63 < length data then sha1_blocks (SHA1Transform st (take 64 data)) (drop 64 data)
      else (st, data))"
  by pat_completeness auto
termination by (relation "measure (length \<circ> snd)") auto

declare sha1_blocks.simps [simp del]

definition SHA1Update :: "SHA1_CTX \<Rightarrow> byte list \<Rightarrow> SHA1_CTX" where
  "SHA1Update c data =
     (let len = (word_of_nat (length data) :: u32);
          old = count0 c;
          c = c\<lparr>count0 := old + push_bit 3 len\<rparr>;
          c = (if count0 c < old then c\<lparr>count1 := count1 c + (drop_bit 29 len + 1)\<rparr> else c);
          j = unat (drop_bit 3 old AND 63)
      in if 63 < j + length data then
           let i = 64 - j;
               c = c\<lparr>buffer := store_at (buffer c) j (take i data)\<rparr>;
               (st, rest) = sha1_blocks (SHA1Transform (state c) (buffer c)) (drop i data)
           in c\<lparr>state := st, buffer := store_at (buffer c) 0 rest\<rparr>
         else c\<lparr>buffer := store_at (buffer c) j data\<rparr>)"

text \<open>The padding loop of \<open>SHA1Final\<close>, with fuel; 64 turns are enough.\<close>

fun pad_zeros :: "nat \<Rightarrow> SHA1_CTX \<Rightarrow> SHA1_CTX option" where
  "pad_zeros 0 c = None"
| "pad_zeros (Suc n) c =
     (if count0 c AND 504 \<noteq> 448 then pad_zeros n (SHA1Update c [0]) else Some c)"

definition SHA1Final :: "SHA1_CTX \<Rightarrow> (byte list \<times> SHA1_CTX) option" where
  "SHA1Final c =
     (let finalcount = put_u32 (count1 c) @ put_u32 (count0 c) in
      map_option (\<lambda>c. let c = SHA1Update c finalcount in (concat (map put_u32 (state c)), c))
        (pad_zeros 64 (SHA1Update c [0x80])))"

text \<open>
  Hashing some pieces, on a context \<open>ctx\<close> of which nothing is known but its size.
  The digest, and the context, which \<open>sha1_hmac\<close> uses again.
\<close>

definition sha1_of :: "SHA1_CTX \<Rightarrow> byte list list \<Rightarrow> (byte list \<times> SHA1_CTX) option" where
  "sha1_of ctx pieces = SHA1Final (foldl SHA1Update (SHA1Init ctx) pieces)"

text \<open>The loop that pads the key; the two pads start filled with one byte each.\<close>

definition xor_key :: "byte list \<Rightarrow> byte list \<Rightarrow> byte list" where
  "xor_key pad key = map2 (XOR) (take (length key) pad) key @ drop (length key) pad"

definition sha1_hmac :: "SHA1_CTX \<Rightarrow> byte list \<Rightarrow> byte list \<Rightarrow> byte list option" where
  "sha1_hmac ctx inputkey inputmsg =
     do { (key, ctx) \<leftarrow> (if 64 < length inputkey then sha1_of ctx [inputkey] else Some (inputkey, ctx));
          let ipad = xor_key (replicate 64 0x36) key;
          let opad = xor_key (replicate 64 0x5c) key;
          (dst, ctx) \<leftarrow> sha1_of ctx [ipad, inputmsg];
          (dst, ctx) \<leftarrow> sha1_of ctx [opad, dst];
          Some dst }"

section \<open>The standard\<close>

text \<open>FIPS 180-1: message schedule, compression, padding, digest.\<close>

function W :: "u32 list \<Rightarrow> nat \<Rightarrow> u32" where
  "W m t =
     (if t < 16 then m ! t
      else rol (W m (t - 3) XOR W m (t - 8) XOR W m (t - 14) XOR W m (t - 16)) 1)"
  by pat_completeness auto
termination by (relation "measure snd") auto

declare W.simps [simp del]

definition fips_f :: "nat \<Rightarrow> u32 \<Rightarrow> u32 \<Rightarrow> u32 \<Rightarrow> u32" where
  "fips_f t b c d =
     (if t < 20 then (b AND c) OR (NOT b AND d)
      else if t < 40 then b XOR c XOR d
      else if t < 60 then (b AND c) OR (b AND d) OR (c AND d)
      else b XOR c XOR d)"

definition fips_step :: "u32 list \<Rightarrow> work \<Rightarrow> nat \<Rightarrow> work" where
  "fips_step m s t =
     (let (a, b, c, d, e) = s
      in (rol a 5 + fips_f t b c d + e + W m t + round_k t, a, rol b 30, c, d))"

definition fips_compress :: "u32 list \<Rightarrow> byte list \<Rightarrow> u32 list" where
  "fips_compress st buf =
     (let (a, b, c, d, e) = foldl (fips_step (be_words buf)) (st ! 0, st ! 1, st ! 2, st ! 3, st ! 4) [0..<80]
      in [st ! 0 + a, st ! 1 + b, st ! 2 + c, st ! 3 + d, st ! 4 + e])"

definition fips_pad :: "byte list \<Rightarrow> byte list" where
  "fips_pad m =
     m @ [0x80] @ replicate ((119 - length m mod 64) mod 64) 0 @
     put_u32 (word_of_nat (8 * length m div 2 ^ 32)) @ put_u32 (word_of_nat (8 * length m))"

fun fips_blocks :: "nat \<Rightarrow> u32 list \<Rightarrow> byte list \<Rightarrow> u32 list" where
  "fips_blocks 0 st m = st"
| "fips_blocks (Suc n) st m = fips_blocks n (fips_compress st (take 64 m)) (drop 64 m)"

definition fips_sha1 :: "byte list \<Rightarrow> byte list" where
  "fips_sha1 m =
     concat (map put_u32 (fips_blocks (length (fips_pad m) div 64) H0 (fips_pad m)))"

text \<open>RFC 2104, with a block of 64 bytes.\<close>

definition rfc_key :: "byte list \<Rightarrow> byte list" where
  "rfc_key k = (let k = (if 64 < length k then fips_sha1 k else k) in k @ replicate (64 - length k) 0)"

definition rfc_hmac :: "byte list \<Rightarrow> byte list \<Rightarrow> byte list" where
  "rfc_hmac k m =
     fips_sha1 (map (\<lambda>b. b XOR 0x5c) (rfc_key k) @ fips_sha1 (map (\<lambda>b. b XOR 0x36) (rfc_key k) @ m))"

section \<open>One block\<close>

lemma round_f_fips: "round_f i w x y = fips_f i w x y"
  unfolding round_f_def fips_f_def by (auto intro!: bit_word_eqI simp: bit_simps)

text \<open>Before round \<open>i\<close> the ring holds the last 16 words of the schedule.\<close>

definition ring_ok :: "u32 list \<Rightarrow> nat \<Rightarrow> u32 list \<Rightarrow> bool" where
  "ring_ok m i block \<longleftrightarrow> length block = 16 \<and>
     (\<forall>t. t < max 16 i \<and> max 16 i \<le> t + 16 \<longrightarrow> block ! (t mod 16) = W m t)"

lemma length_be_words: "length bs = 4 * n \<Longrightarrow> length (be_words bs) = n"
proof (induction n arbitrary: bs)
  case (Suc n)
  then obtain a b c d cs where "bs = a # b # c # d # cs"
    by (cases bs; cases "tl bs"; cases "tl (tl bs)"; cases "tl (tl (tl bs))") auto
  with Suc show ?case by simp
qed simp

lemma ring_start: "length m = 16 \<Longrightarrow> ring_ok m 0 m"
  by (auto simp: ring_ok_def W.simps)

lemma ring_step:
  assumes "ring_ok m i block"
  defines "block' \<equiv> if i < 16 then block else block[i mod 16 := blk block i]"
  shows "ring_ok m (Suc i) block'" "block' ! (i mod 16) = W m i"
proof -
  have len: "length block = 16" and ring: "\<And>t. t < max 16 i \<Longrightarrow> max 16 i \<le> t + 16 \<Longrightarrow> block ! (t mod 16) = W m t"
    using assms(1) by (simp_all add: ring_ok_def)
  show "ring_ok m (Suc i) block'" "block' ! (i mod 16) = W m i"
  proof (atomize (full), cases "i < 16")
    case True
    then show "ring_ok m (Suc i) block' \<and> block' ! (i mod 16) = W m i"
      using len ring by (auto simp: block'_def ring_ok_def max_def not_le)
  next
    case False
    then obtain k where k: "i = k + 16" by (metis add.commute le_Suc_ex not_less)
    have m3: "(i + 13) mod 16 = (k + 13) mod 16" "(i + 8) mod 16 = (k + 8) mod 16"
      "(i + 2) mod 16 = (k + 2) mod 16" "i mod 16 = k mod 16"
      unfolding k by (metis add.assoc add.commute mod_add_self2)+
    have r: "block ! ((k + 13) mod 16) = W m (k + 13)" "block ! ((k + 8) mod 16) = W m (k + 8)"
      "block ! ((k + 2) mod 16) = W m (k + 2)" "block ! (k mod 16) = W m k"
      by (rule ring; simp add: k)+
    have "W m i = rol (W m (k + 13) XOR W m (k + 8) XOR W m (k + 2) XOR W m k) 1"
      by (subst W.simps) (simp add: k add.commute)
    then have b: "blk block i = W m i" unfolding blk_def m3 r by simp
    have other: "block ! (t mod 16) = W m t" if "t < i" "i < t + 16" for t
      using ring [of t] that k by simp
    have ne: "t mod 16 \<noteq> i mod 16" if "t < i" "i < t + 16" for t
    proof
      assume "t mod 16 = i mod 16"
      then have "16 dvd i - t" using that(1) mod_eq_dvd_iff_nat [of t i 16] by simp
      then show False using that nat_dvd_not_less [of "i - t" 16] by simp
    qed
    have e: "block' = block[i mod 16 := W m i]" using False b by (simp add: block'_def)
    have at: "block' ! (i mod 16) = W m i" using len by (simp add: e)
    have "block' ! (t mod 16) = W m t" if "t < Suc i" "Suc i \<le> t + 16" for t
    proof (cases "t = i")
      case True
      with at show ?thesis by simp
    next
      case False
      with that have "t < i" "i < t + 16" by simp_all
      then show ?thesis unfolding e using ne [of t] other [of t] by simp
    qed
    with at len show "ring_ok m (Suc i) block' \<and> block' ! (i mod 16) = W m i"
      by (simp add: ring_ok_def e k)
  qed
qed

lemma rounds_fips:
  assumes "length m = 16"
  shows "\<exists>block. foldl sha1_round (s, m) [0..<n] = (foldl (fips_step m) s [0..<n], block) \<and> ring_ok m n block"
proof (induction n)
  case 0
  then show ?case using ring_start [OF assms] by simp
next
  case (Suc n)
  then obtain block where f: "foldl sha1_round (s, m) [0..<n] = (foldl (fips_step m) s [0..<n], block)"
    and ok: "ring_ok m n block" by blast
  obtain v w x y z where s: "foldl (fips_step m) s [0..<n] = (v, w, x, y, z)" by (metis prod.exhaust)
  let ?b = "if n < 16 then block else block[n mod 16 := blk block n]"
  have "sha1_round ((v, w, x, y, z), block) n = (fips_step m (v, w, x, y, z) n, ?b)"
    using ring_step(2) [OF ok]
    by (simp only: sha1_round_def fips_step_def Let_def split round_f_fips) (simp add: ac_simps)
  then show ?case
    using ring_step(1) [OF ok] f s by (simp only: upt_Suc_append foldl_append foldl.simps) blast
qed

lemma transform_fips: "length buf = 64 \<Longrightarrow> SHA1Transform st buf = fips_compress st buf"
  using rounds_fips [of "be_words buf" "(st ! 0, st ! 1, st ! 2, st ! 3, st ! 4)" 80]
    length_be_words [of buf 16]
  by (auto simp: SHA1Transform_def fips_compress_def Let_def split: prod.splits)

section \<open>The incremental code\<close>

text \<open>What \<open>sha1_blocks\<close> makes of a message is all a context has to remember.\<close>

lemma sha1_blocks_rest: "snd (sha1_blocks st m) = drop (64 * (length m div 64)) m"
proof (induction st m rule: sha1_blocks.induct)
  case (1 st m)
  show ?case
  proof (cases "63 < length m")
    case True
    then have "length m div 64 = Suc ((length m - 64) div 64)" by (simp add: le_div_geq)
    with 1 True show ?thesis by (subst sha1_blocks.simps) (simp add: add.commute)
  next
    case False
    then show ?thesis by (subst sha1_blocks.simps) simp
  qed
qed

lemma length_sha1_rest: "length (snd (sha1_blocks st m)) = length m mod 64"
  unfolding sha1_blocks_rest by (simp add: minus_mult_div_eq_mod)

lemma sha1_blocks_append:
  "sha1_blocks st (m @ d) = sha1_blocks (fst (sha1_blocks st m)) (snd (sha1_blocks st m) @ d)"
proof (induction st m rule: sha1_blocks.induct)
  case (1 st m)
  show ?case
  proof (cases "63 < length m")
    case True
    with 1 show ?thesis
      by (subst sha1_blocks.simps, subst (2 3) sha1_blocks.simps) simp
  next
    case False
    then show ?thesis by (subst (2 3) sha1_blocks.simps) simp
  qed
qed

lemma sha1_blocks_short: "length m < 64 \<Longrightarrow> sha1_blocks st m = (st, m)"
  by (subst sha1_blocks.simps) simp

lemma sha1_blocks_block:
  "length b = 64 \<Longrightarrow> sha1_blocks st (b @ d) = sha1_blocks (SHA1Transform st b) d"
  by (subst sha1_blocks.simps) simp

definition ctx_holds :: "SHA1_CTX \<Rightarrow> byte list \<Rightarrow> bool" where
  "ctx_holds c m \<longleftrightarrow>
     length (buffer c) = 64 \<and>
     sha1_blocks H0 m = (state c, take (length m mod 64) (buffer c)) \<and>
     count0 c = word_of_nat (8 * length m) \<and>
     count1 c = word_of_nat (8 * length m div 2 ^ 32)"

lemma ctx_holds_init: "length (buffer c) = 64 \<Longrightarrow> ctx_holds (SHA1Init c) []"
  by (simp add: ctx_holds_def SHA1Init_def sha1_blocks_short)

text \<open>The bit counter, in two words.\<close>

lemma carry_nat:
  fixes a b M :: nat
  assumes "b < M"
  shows "(a + b) mod M < a mod M \<Longrightarrow> (a + b) div M = Suc (a div M)"
    and "\<not> (a + b) mod M < a mod M \<Longrightarrow> (a + b) div M = a div M"
proof -
  have M: "0 < M" and r: "a mod M < M" using assms by simp_all
  have d: "(a + b) div M = a div M + (a mod M + b) div M"
    by (metis assms div_add1_eq div_less add.right_neutral mod_less)
  have m: "(a + b) mod M = (a mod M + b) mod M" by (simp add: mod_add_left_eq)
  show "(a + b) div M = Suc (a div M)" if "(a + b) mod M < a mod M"
  proof -
    have "M \<le> a mod M + b" using that m by (metis mod_less not_less le_add1)
    then have "(a mod M + b) div M = 1" using add_strict_mono [OF r assms] by (intro div_nat_eqI) simp_all
    with d show ?thesis by simp
  qed
  show "(a + b) div M = a div M" if "\<not> (a + b) mod M < a mod M"
  proof -
    have "a mod M + b < M"
    proof (rule ccontr)
      assume "\<not> a mod M + b < M"
      then have "(a mod M + b) mod M = a mod M + b - M"
        using add_strict_mono [OF r assms] by (simp add: le_mod_geq)
      with that m assms show False using \<open>\<not> a mod M + b < M\<close> by linarith
    qed
    with d show ?thesis by simp
  qed
qed

lemma bits_mod: "8 * n mod 2 ^ 32 = 8 * (n mod 2 ^ 29 :: nat)"
  using mult_mod_right [of 8 n "2 ^ 29"] by simp

lemma count_step:
  fixes n d :: nat
  assumes "d < 2 ^ 29"
  defines "old \<equiv> word_of_nat (8 * n) :: u32" and "len \<equiv> word_of_nat d :: u32"
  shows "old + push_bit 3 len = word_of_nat (8 * (n + d))"
    and "(if old + push_bit 3 len < old then word_of_nat (8 * n div 2 ^ 32) + (drop_bit 29 len + 1)
          else word_of_nat (8 * n div 2 ^ 32)) = (word_of_nat (8 * (n + d) div 2 ^ 32) :: u32)"
    and "unat (drop_bit 3 old AND 63) = n mod 64"
proof -
  have push: "push_bit 3 len = word_of_nat (8 * d)"
    by (simp add: len_def push_bit_eq_mult)
  show sum: "old + push_bit 3 len = word_of_nat (8 * (n + d))"
    unfolding push by (simp add: old_def algebra_simps)
  have "unat (drop_bit 29 len) = 0"
    using assms(1) unfolding len_def unsigned_drop_bit_eq unsigned_of_nat
    by (simp add: take_bit_eq_mod drop_bit_eq_div)
  then have drop: "drop_bit 29 len = 0" by (simp add: unat_eq_0)
  have less: "old + push_bit 3 len < old \<longleftrightarrow> (8 * n + 8 * d) mod 2 ^ 32 < 8 * n mod 2 ^ 32"
    unfolding sum unfolding old_def word_less_nat_alt unsigned_of_nat take_bit_eq_mod
    by (simp add: distrib_left)
  have d: "8 * d < 2 ^ 32" using assms(1) by simp
  show "(if old + push_bit 3 len < old then word_of_nat (8 * n div 2 ^ 32) + (drop_bit 29 len + 1)
          else word_of_nat (8 * n div 2 ^ 32)) = (word_of_nat (8 * (n + d) div 2 ^ 32) :: u32)"
    unfolding less drop using carry_nat [OF d, of "8 * n"]
    by (simp only: distrib_left add_0_left of_nat_Suc split: if_split) (simp add: add.commute)
  show "unat (drop_bit 3 old AND 63) = n mod 64"
  proof -
    have m: "(x::nat) AND 63 = x mod 64" for x
      using take_bit_eq_mask [of 6 x] by (simp add: take_bit_eq_mod mask_eq_exp_minus_1)
    have "unat (drop_bit 3 old AND 63) = 8 * n mod 2 ^ 32 div 2 ^ 3 mod 64"
      unfolding old_def unsigned_and_eq unsigned_drop_bit_eq unsigned_of_nat take_bit_eq_mod
      by (simp add: m drop_bit_eq_div)
    also have "8 * n mod 2 ^ 32 = 8 * (n mod 2 ^ 29)" by (rule bits_mod)
    finally show ?thesis by (simp add: mod_mod_cancel)
  qed
qed

section \<open>The context after an update\<close>

lemma SHA1Update_counts:
  "count0 (SHA1Update c data) = count0 c + push_bit 3 (word_of_nat (length data))"
  "count1 (SHA1Update c data) =
     (if count0 c + push_bit 3 (word_of_nat (length data)) < count0 c
      then count1 c + (drop_bit 29 (word_of_nat (length data)) + 1) else count1 c)"
  by (simp_all only: SHA1Update_def Let_def split_def split: if_split) simp_all

lemma SHA1Update_buffers:
  assumes "unat (drop_bit 3 (count0 c) AND 63) = j"
  shows "63 < j + length data \<Longrightarrow>
      sha1_blocks (SHA1Transform (state c) (store_at (buffer c) j (take (64 - j) data)))
        (drop (64 - j) data) = (st, rest) \<Longrightarrow>
      state (SHA1Update c data) = st \<and>
      buffer (SHA1Update c data) = store_at (store_at (buffer c) j (take (64 - j) data)) 0 rest"
    and "\<not> 63 < j + length data \<Longrightarrow>
      state (SHA1Update c data) = state c \<and> buffer (SHA1Update c data) = store_at (buffer c) j data"
  by (simp_all only: SHA1Update_def Let_def assms split_def split: if_split) simp_all

lemma store_front:
  "length b = 64 \<Longrightarrow> length r < 64 \<Longrightarrow>
     length (store_at b 0 r) = 64 \<and> take (length r) (store_at b 0 r) = r"
  by (simp add: store_at_def)

lemma ctx_holds_update:
  assumes ok: "ctx_holds c m" and d: "length data < 2 ^ 29"
  shows "ctx_holds (SHA1Update c data) (m @ data)"
proof -
  let ?n = "length m" let ?j = "length m mod 64" let ?d = "length data"
  have buf: "length (buffer c) = 64" and blocks: "sha1_blocks H0 m = (state c, take ?j (buffer c))"
    and c0: "count0 c = word_of_nat (8 * ?n)" and c1: "count1 c = word_of_nat (8 * ?n div 2 ^ 32)"
    using ok by (simp_all add: ctx_holds_def)
  note cs = count_step [OF d, of ?n]
  define c' where "c' = SHA1Update c data"
  have count: "count0 c' = word_of_nat (8 * length (m @ data))"
    "count1 c' = word_of_nat (8 * length (m @ data) div 2 ^ 32)"
    using cs(1,2) by (simp_all only: c'_def SHA1Update_counts c0 c1 length_append)
  have data: "sha1_blocks H0 (m @ data) = sha1_blocks (state c) (take ?j (buffer c) @ data)"
    by (subst sha1_blocks_append) (simp add: blocks)
  have "length (buffer c') = 64 \<and>
    sha1_blocks H0 (m @ data) = (state c', take (length (m @ data) mod 64) (buffer c'))"
  proof (cases "63 < ?j + ?d")
    case True
    let ?i = "64 - ?j"
    let ?buf = "store_at (buffer c) ?j (take ?i data)"
    have "?j < 64" by simp
    then have full: "?buf = take ?j (buffer c) @ take ?i data" and l: "length ?buf = 64"
      using True buf by (simp_all add: store_at_def)
    obtain st rest where r: "sha1_blocks (SHA1Transform (state c) ?buf) (drop ?i data) = (st, rest)"
      by fastforce
    have upd: "state c' = st" "buffer c' = store_at ?buf 0 rest"
      using SHA1Update_buffers(1) [OF cs(3) [folded c0] True r] by (simp_all add: c'_def)
    have "take ?j (buffer c) @ data = ?buf @ drop ?i data" unfolding full by simp
    then have blocks': "sha1_blocks H0 (m @ data) = (st, rest)"
      unfolding data using sha1_blocks_block [OF l] r by simp
    then have rest: "length rest = length (m @ data) mod 64"
      using length_sha1_rest [of H0 "m @ data"] by simp
    then have "length rest < 64" by simp
    then have "length (store_at ?buf 0 rest) = 64"
      "take (length rest) (store_at ?buf 0 rest) = rest"
      using store_front [OF l] by simp_all
    then show ?thesis unfolding upd blocks' rest [symmetric] by simp
  next
    case False
    then have upd: "state c' = state c" "buffer c' = store_at (buffer c) ?j data"
      using SHA1Update_buffers(2) [OF cs(3) [folded c0] False] by (simp_all add: c'_def)
    have mod: "length (m @ data) mod 64 = ?j + ?d"
      using False by (simp add: mod_add_left_eq [of ?n 64 ?d, symmetric])
    have t: "take (?j + ?d) (store_at (buffer c) ?j data) = take ?j (buffer c) @ data"
      using False buf by (intro take_store_at) simp
    have "sha1_blocks H0 (m @ data) = (state c, take ?j (buffer c) @ data)"
      unfolding data using False buf by (intro sha1_blocks_short) simp
    then show ?thesis unfolding upd mod t using False buf by simp
  qed
  with count show ?thesis by (simp add: ctx_holds_def c'_def)
qed

lemma ctx_holds_pieces:
  assumes "ctx_holds c m" "\<forall>p\<in>set pieces. length p < 2 ^ 29"
  shows "ctx_holds (foldl SHA1Update c pieces) (m @ concat pieces)"
  using assms
proof (induction pieces arbitrary: c m)
  case (Cons p pieces)
  then show ?case using ctx_holds_update [of c m p] by (simp flip: append_assoc)
qed simp

section \<open>Padding\<close>

lemma ctx_count_bits:
  assumes "ctx_holds c m"
  shows "count0 c AND 504 = word_of_nat (8 * (length m mod 64))"
proof -
  have "x AND 63 = x mod 64" for x :: nat
    using take_bit_eq_mask [of 6 x] by (simp add: take_bit_eq_mod mask_eq_exp_minus_1)
  then have m: "8 * x AND 504 = 8 * (x mod 64)" for x :: nat
    using push_bit_and [of 3 x 63] by (simp add: push_bit_eq_mult mult.commute)
  have "unat (count0 c AND 504) = 8 * length m mod 2 ^ 32 AND 504"
    using assms unfolding ctx_holds_def
    by (simp only: unsigned_and_eq unsigned_of_nat take_bit_eq_mod) simp
  also have "\<dots> = 8 * (length m mod 64)"
    unfolding bits_mod using m [of "length m mod 2 ^ 29"] by (simp add: mod_mod_cancel)
  finally have "word_of_nat (unat (count0 c AND 504)) = (word_of_nat (8 * (length m mod 64)) :: u32)"
    by (simp only:)
  then show ?thesis by (simp only: of_nat_unat ucast_id)
qed

lemma count_full_iff:
  assumes "ctx_holds c m"
  shows "count0 c AND 504 = 448 \<longleftrightarrow> length m mod 64 = 56"
proof -
  have "8 * (length m mod 64) < 2 ^ 32"
    by (rule less_le_trans [of _ "8 * 64"]) simp_all
  then have "(word_of_nat (8 * (length m mod 64)) :: u32) = word_of_nat 448 \<longleftrightarrow> 8 * (length m mod 64) = 448"
    by (simp only: word_of_nat_eq_iff take_bit_nat_eq_self_iff) (simp add: take_bit_eq_mod)
  then show ?thesis unfolding ctx_count_bits [OF assms] by simp
qed

definition pad_len :: "nat \<Rightarrow> nat" where
  "pad_len r = (if r \<le> 56 then 56 - r else 120 - r)"

lemma pad_len_step: "r \<noteq> 56 \<Longrightarrow> r < 64 \<Longrightarrow> pad_len r = Suc (pad_len (if Suc r = 64 then 0 else Suc r))"
  by (auto simp: pad_len_def)

lemma pad_len_fips: "(119 - n mod 64) mod 64 = pad_len (Suc n mod 64)"
proof -
  define r where "r = n mod 64"
  have "r < 64" by (simp add: r_def)
  moreover have "(119 - r) mod 64 = pad_len (if Suc r = 64 then 0 else Suc r)" if "r < 64"
  proof (cases "r \<le> 55")
    case True
    then have "119 - r = 64 + (55 - r)" by simp
    then have "(119 - r) mod 64 = (55 - r) mod 64" by (metis mod_add_self1)
    with True show ?thesis by (simp add: pad_len_def)
  next
    case False
    with that show ?thesis by (auto simp: pad_len_def)
  qed
  ultimately show ?thesis by (simp add: mod_Suc flip: r_def)
qed

lemma pad_zeros_fills:
  assumes "ctx_holds c m" "pad_len (length m mod 64) = k" "k < n"
  shows "\<exists>c'. pad_zeros n c = Some c' \<and> ctx_holds c' (m @ replicate k 0)"
  using assms
proof (induction n arbitrary: c m k)
  case (Suc n)
  show ?case
  proof (cases "length m mod 64 = 56")
    case True
    then have "k = 0" using Suc.prems(2) by (simp add: pad_len_def)
    with True show ?thesis using Suc.prems count_full_iff [OF Suc.prems(1)] by auto
  next
    case False
    then have k: "0 < k" "pad_len (Suc (length m) mod 64) = k - 1"
      using Suc.prems(2) pad_len_step [of "length m mod 64"] by (simp_all add: mod_Suc)
    have "ctx_holds (SHA1Update c [0]) (m @ [0])" by (rule ctx_holds_update [OF Suc.prems(1)]) simp
    from Suc.IH [OF this, of "k - 1"] k Suc.prems(3)
    have "\<exists>c'. pad_zeros n (SHA1Update c [0]) = Some c' \<and> ctx_holds c' (m @ [0] @ replicate (k - 1) 0)"
      by (cases k) simp_all
    then obtain c' where "pad_zeros n (SHA1Update c [0]) = Some c'" "ctx_holds c' (m @ [0] @ replicate (k - 1) 0)"
      by blast
    moreover have "m @ [0] @ replicate (k - 1) 0 = m @ replicate k 0"
      using k(1) by (cases k) simp_all
    ultimately show ?thesis using False count_full_iff [OF Suc.prems(1)] by simp
  qed
qed simp

lemma fips_blocks_sha1_blocks:
  "length m = 64 * n \<Longrightarrow> fips_blocks n st m = fst (sha1_blocks st m)"
proof (induction n arbitrary: st m)
  case 0
  then show ?case by (simp add: sha1_blocks_short)
next
  case (Suc n)
  have "length (take 64 m) = 64" using Suc.prems by simp
  then show ?case
    using Suc sha1_blocks_block [of "take 64 m" st "drop 64 m"] transform_fips [of "take 64 m" st] by simp
qed

lemma fips_pad_blocks: "length (fips_pad m) mod 64 = 0"
proof -
  have "length (fips_pad m) = Suc (length m) + pad_len (Suc (length m) mod 64) + 8"
    by (simp add: fips_pad_def put_u32_def pad_len_fips)
  also have "\<dots> mod 64 = (Suc (length m) mod 64 + pad_len (Suc (length m) mod 64) + 8) mod 64"
    by (simp only: mod_add_left_eq add.assoc)
  also have "\<dots> = 0"
    using mod_less_divisor [of 64 "Suc (length m)"] by (auto simp: pad_len_def)
  finally show ?thesis .
qed

lemma SHA1Final_fips:
  assumes "ctx_holds c m"
  shows "\<exists>c'. SHA1Final c = Some (fips_sha1 m, c') \<and> length (buffer c') = 64"
proof -
  let ?k = "(119 - length m mod 64) mod 64"
  let ?fin = "put_u32 (count1 c) @ put_u32 (count0 c)"
  have l: "length ?fin < 2 ^ 29" by (simp add: put_u32_def)
  have fin: "?fin = put_u32 (word_of_nat (8 * length m div 2 ^ 32)) @ put_u32 (word_of_nat (8 * length m))"
    using assms by (simp add: ctx_holds_def)
  have one: "ctx_holds (SHA1Update c [0x80]) (m @ [0x80])"
    by (rule ctx_holds_update [OF assms]) simp
  have "pad_len (length (m @ [0x80 :: byte]) mod 64) = ?k" by (simp add: pad_len_fips)
  from pad_zeros_fills [OF one this, of 64] obtain c'
    where c': "pad_zeros 64 (SHA1Update c [0x80]) = Some c'"
      "ctx_holds c' ((m @ [0x80]) @ replicate ?k 0)" by auto
  from ctx_holds_update [OF c'(2) l] have ok: "ctx_holds (SHA1Update c' ?fin) (fips_pad m)"
    unfolding fin by (simp add: fips_pad_def)
  have "length (fips_pad m) mod 64 = 0" by (rule fips_pad_blocks)
  then have "length (fips_pad m) = 64 * (length (fips_pad m) div 64)" by auto
  from fips_blocks_sha1_blocks [OF this, of H0] ok
  have "fips_blocks (length (fips_pad m) div 64) H0 (fips_pad m) = state (SHA1Update c' ?fin)"
    by (simp add: ctx_holds_def)
  moreover have "length (buffer (SHA1Update c' ?fin)) = 64" using ok by (simp add: ctx_holds_def)
  ultimately show ?thesis by (simp add: SHA1Final_def Let_def c'(1) fips_sha1_def)
qed

lemma sha1_of_fips:
  assumes "length (buffer ctx) = 64" "\<forall>p\<in>set pieces. length p < 2 ^ 29"
  shows "\<exists>ctx'. sha1_of ctx pieces = Some (fips_sha1 (concat pieces), ctx') \<and> length (buffer ctx') = 64"
  unfolding sha1_of_def
  using SHA1Final_fips [OF ctx_holds_pieces [OF ctx_holds_init [OF assms(1)] assms(2)]] by simp

lemma length_transform: "length (SHA1Transform st b) = 5"
  by (simp add: SHA1Transform_def Let_def split: prod.split)

lemma length_concat_put_u32: "length (concat (map put_u32 ws)) = 4 * length ws"
  by (induction ws) (simp_all add: put_u32_def)

lemma length_fips_blocks: "length st = 5 \<Longrightarrow> length (fips_blocks n st m) = 5"
  by (induction n arbitrary: st m) (auto simp: fips_compress_def split: prod.split)

lemma length_fips_sha1: "length (fips_sha1 m) = 20"
  by (simp add: fips_sha1_def length_concat_put_u32 length_fips_blocks H0_def)

lemma xor_key_rfc:
  assumes "length key \<le> 64"
  shows "xor_key (replicate 64 x) key = map (\<lambda>b. b XOR x) (key @ replicate (64 - length key) 0)"
  using assms by (auto simp: xor_key_def map2_map_map map_zip_map xor.commute min_def
      intro!: nth_equalityI simp: nth_append)

lemma sha1_hmac_rfc:
  assumes "length (buffer ctx) = 64" "length key < 2 ^ 29" "length m < 2 ^ 29"
  shows "sha1_hmac ctx key m = Some (rfc_hmac key m)"
proof -
  obtain k c where k: "(if 64 < length key then sha1_of ctx [key] else Some (key, ctx)) = Some (k, c)"
    and kc: "k @ replicate (64 - length k) 0 = rfc_key key" "length k \<le> 64" "length (buffer c) = 64"
    using sha1_of_fips [OF assms(1), of "[key]"] assms
    by (cases "64 < length key") (auto simp: rfc_key_def length_fips_sha1)
  have pad: "xor_key (replicate 64 x) k = map (\<lambda>b. b XOR x) (rfc_key key)" for x
    using xor_key_rfc [OF kc(2)] kc(1) by simp
  have "length (rfc_key key) = 64" using kc(1,2) by (metis le_add_diff_inverse length_append length_replicate)
  with sha1_of_fips [OF kc(3), of "[map (\<lambda>b. b XOR 0x36) (rfc_key key), m]"] assms(3)
  obtain c2 where c2: "sha1_of c [map (\<lambda>b. b XOR 0x36) (rfc_key key), m] =
      Some (fips_sha1 (map (\<lambda>b. b XOR 0x36) (rfc_key key) @ m), c2)" "length (buffer c2) = 64"
    by auto
  let ?d = "fips_sha1 (map (\<lambda>b. b XOR 0x36) (rfc_key key) @ m)"
  have "length ?d = 20" by (rule length_fips_sha1)
  with sha1_of_fips [OF c2(2), of "[map (\<lambda>b. b XOR 0x5c) (rfc_key key), ?d]"] \<open>length (rfc_key key) = 64\<close>
  obtain c3 where "sha1_of c2 [map (\<lambda>b. b XOR 0x5c) (rfc_key key), ?d] = Some (rfc_hmac key m, c3)"
    by (auto simp: rfc_hmac_def)
  with c2 show ?thesis by (simp add: sha1_hmac_def k pad)
qed

section \<open>Properties\<close>

text \<open>
  C7: The incremental SHA-1 is the hash of the standard: whatever the buffer of
  the context holds, and however the message is cut into pieces of less than
  \<open>2 ^ 29\<close> bytes, \<open>SHA1Init\<close>, one \<open>SHA1Update\<close> for each piece and a final
  \<open>SHA1Final\<close> end (the padding loop too) and give the digest of FIPS 180-1 of the
  whole message.
\<close>

theorem sha1_is_fips:
  assumes "length (buffer ctx) = 64" "\<forall>p\<in>set pieces. length p < 2 ^ 29"
  shows "map_option fst (SHA1Final (foldl SHA1Update (SHA1Init ctx) pieces)) =
    Some (fips_sha1 (concat pieces))"
  using sha1_of_fips [OF assms] by (auto simp: sha1_of_def)

lemma sha1_is_fips_witness:
  "map_option fst (SHA1Final (foldl SHA1Update
      (SHA1Init \<lparr>state = [], count0 = 7, count1 = 9, buffer = replicate 64 42\<rparr>) [[0x61, 0x62], [], [0x63]])) =
    Some (fips_sha1 [0x61, 0x62, 0x63])"
  using sha1_is_fips [of "\<lparr>state = [], count0 = 7, count1 = 9, buffer = replicate 64 42\<rparr>"
      "[[0x61, 0x62], [], [0x63]]"] by simp

text \<open>
  C30: \<open>sha1_hmac\<close> is HMAC-SHA-1 of RFC 2104 for every key and message of less
  than \<open>2 ^ 29\<close> bytes, keys longer than a block included; one context serves its three hashes.
\<close>

theorem sha1_hmac_is_rfc2104:
  assumes "length (buffer ctx) = 64" "length key < 2 ^ 29" "length m < 2 ^ 29"
  shows "sha1_hmac ctx key m = Some (rfc_hmac key m)"
  using sha1_hmac_rfc [OF assms] .

lemma sha1_hmac_is_rfc2104_witness:
  "sha1_hmac \<lparr>state = [], count0 = 0, count1 = 0, buffer = replicate 64 1\<rparr> (replicate 65 0xaa) [1, 2] =
     Some (rfc_hmac (replicate 65 0xaa) [1, 2])"
  by (rule sha1_hmac_is_rfc2104) simp_all

end
