(* ===== verification/Keyexchange.thy ===== *)
theory Keyexchange
  imports Session Sha1
begin

text \<open>
  \<^verbatim>\<open>src/src/lib/keyexchange.c\<close>: the first packet of each side, in the clear, and
  the keys both sides derive from them.

  Proved here: the layout of the client's packet and its length field; that the
  server's packet is taken apart as it was put together and kept byte for byte
  for the authentication; the refusal codes; and the derivation of the keys as a
  chain of HMACs.
\<close>

section \<open>The client's packet\<close>

text \<open>
  \<open>username\<close> is an array of 256 bytes; behind the name \<open>strncpy\<close> has filled it
  with zeros.
\<close>

definition username_bytes :: "session \<Rightarrow> byte list" where
  "username_bytes s = take 256 (bytes_of (username s) @ replicate 256 0)"

definition initial_packet :: "session \<Rightarrow> buf" where
  "initial_packet s =
     (let b = buf_append_u16 buf_new 3;
          len_idx = buf_len b;
          b = buf_append_u16 b 0;
          b = buf_append_u32 b 0x00000300;
          b = buf_append_u32 b 0x00030c00;
          b = buf_append_u32 b (ucast (client_revision s));
          b = buf_append_u32 b 0;
          b = buf_append_u32 b 0x01000000;
          b = buf_append_data b (client_id s);
          b = buf_append_u32 b 0;
          b = buf_append_data b (client_random_16 s);
          b = buf_append_data b (my_pub_key s);
          b = buf_append_data b (rsa_pub_exp s);
          b = buf_append_u8 b 0;
          b = buf_append_u8 b (username_len s);
          b = buf_append_u16 b 0x0100;
          b = buf_append_data b (take (unat (username_len s)) (username_bytes s));
          b = buf_append_u8 b 0x40
      in b\<lparr>buf_ptr := (buf_ptr b)
             [len_idx := Some (word_of_nat (buf_len b div 256)),
              len_idx + 1 := Some (word_of_nat (buf_len b))]\<rparr>)"

text \<open>
  The modulus of the RSA key is written from the start of its array of 128 bytes.
\<close>

definition send_client_initial_packet :: "session \<Rightarrow> net \<Rightarrow> (int \<times> session \<times> net) result" where
  "send_client_initial_packet s n =
     (if length (rsa_pub_exp s) < length (BN_bn2bin (rsa_n s)) then Inl Out_Of_Bounds
      else
        let s = s\<lparr>rsa_pub_exp := store_at (rsa_pub_exp s) 0 (BN_bn2bin (rsa_n s))\<rparr>;
            b = initial_packet s
        in rbind (sock_send (tx_q n) (buf_bytes b)) (\<lambda>(ret, out, tx').
             let n = n\<lparr>tx_q := tx', wire := wire n @ out\<rparr> in
             if ret \<le> 0 then Inr (-1, s, n)
             else if ret \<noteq> int (buf_len b) then Inr (-1, s, n)
             else Inr (0, s\<lparr>init_client_packet := Some b\<rparr>, n)))"

section \<open>The server's packet\<close>

text \<open>
  \<open>read_into n k\<close>: a \<open>block_read\<close> of \<open>k\<close> bytes, its result, the bytes it stored,
  and the rest of the input.
\<close>

definition read_into :: "net \<Rightarrow> nat \<Rightarrow> (int \<times> byte list \<times> net) result" where
  "read_into n k = rbind (block_read (rx_q n) k) (\<lambda>(ret, d, rx'). Inr (ret, d, n\<lparr>rx_q := rx'\<rparr>))"

definition refusal :: "byte \<Rightarrow> int" where
  "refusal c =
     (if c = 1 then -11 else if c = 3 then -13 else if c = 4 then -14
      else if c = 6 then -16 else if c = 9 then -19 else -91)"

text \<open>A byte of an allocated block, of which some were never written.\<close>

definition peek :: "byte option list \<Rightarrow> nat \<Rightarrow> byte result" where
  "peek cells i = rbind (fetch cells i) (\<lambda>x. case x of None \<Rightarrow> Inl Uninit | Some v \<Rightarrow> Inr v)"

text \<open>
  The last part: the four challenges as one block of \<open>totlen\<close> bytes.  \<open>b\<close> is the
  temporary buffer, \<open>save\<close> the copy of everything read so far.
\<close>

definition read_puzzle ::
  "session \<Rightarrow> net \<Rightarrow> buf \<Rightarrow> byte list \<Rightarrow> (int \<times> session \<times> net) result" where
  "read_puzzle s n save chalen =
     (let puzzle_len = unat (get_u16 (chalen ! 0) (chalen ! 1));
          len1 = unat (get_u16 (chalen ! 2) (chalen ! 3));
          len2 = unat (get_u16 (chalen ! 4) (chalen ! 5));
          len3 = unat (get_u16 (chalen ! 6) (chalen ! 7));
          totlen = puzzle_len + len1 + len2 + len3;
          b = buf_extend buf_new totlen
      in rbind (read_into n totlen) (\<lambda>(ret, d, n).
           if ret \<noteq> int totlen then Inr (-101, s, n)
           else
             let save = buf_append_data save d;
                 cells = store_at (buf_ptr b) 0 (map Some d)
             in rbind (peek cells 0) (\<lambda>tag.
                  if tag = 1 then
                    rbind (peek cells 1) (\<lambda>den.
                    rbind (peek cells 2) (\<lambda>m3. rbind (peek cells 3) (\<lambda>m2.
                    rbind (peek cells 4) (\<lambda>m1. rbind (peek cells 5) (\<lambda>m0.
                      Inr (0, s\<lparr>puzzle_denominator := den, puzzle_magic := get_u32 m3 m2 m1 m0,
                                init_server_packet := Some save\<rparr>, n))))))
                  else Inr (-102, s, n))))"

text \<open>
  Up to the public key, the random block and the salt.  The result is the number
  the function returns, or 0 to go on, with the copy of what was read.
\<close>

definition read_server_fixed :: "session \<Rightarrow> net \<Rightarrow> (int \<times> session \<times> net \<times> buf) result" where
  "read_server_fixed s n =
     (let save = buf_new in
      rbind (read_into n 2) (\<lambda>(ret, d, n).
      let s = s\<lparr>server_random_16 := store_at (server_random_16 s) 0 d\<rparr> in
      if ret < 2 then Inr (-90, s, n, save)
      else if server_random_16 s ! 0 \<noteq> 0 then Inr (refusal (server_random_16 s ! 1), s, n, save)
      else rbind (read_into n 14) (\<lambda>(ret, d, n).
      let s = s\<lparr>server_random_16 := store_at (server_random_16 s) 2 d\<rparr> in
      if ret < 14 then Inr (-92, s, n, save)
      else
        let save = buf_append_data save (server_random_16 s) in
      rbind (read_into n 96) (\<lambda>(ret, d, n).
      let s = s\<lparr>remote_pub_key := store_at (remote_pub_key s) 0 d\<rparr> in
      if ret \<noteq> 96 then Inr (-93, s, n, save)
      else
        let save = buf_append_data save (remote_pub_key s) in
      rbind (read_into n 256) (\<lambda>(ret, d, n).
      let s = s\<lparr>random_256 := store_at (random_256 s) 0 d\<rparr> in
      if ret \<noteq> 256 then Inr (-94, s, n, save)
      else
        let save = buf_append_data save (random_256 s) in
      rbind (read_into n 10) (\<lambda>(ret, d, n).
      let s = s\<lparr>salt := store_at (salt s) 0 d\<rparr> in
      if ret \<noteq> 10 then Inr (-95, s, n, save)
      else Inr (0, s, n, buf_append_data save (salt s))))))))"

text \<open>
  The parts of variable length.  The name overwrites the user's; its NUL goes
  behind it.  When a read fails the bytes that did arrive stay in the array; the
  name is then the text up to the first NUL, old bytes included.
\<close>

definition c_string :: "byte list \<Rightarrow> string" where
  "c_string bs = map (\<lambda>b. char_of (unat b)) (takeWhile (\<lambda>b. b \<noteq> 0) bs)"

definition read_server_variable :: "session \<Rightarrow> net \<Rightarrow> buf \<Rightarrow> (int \<times> session \<times> net) result" where
  "read_server_variable s n save =
     rbind (read_into n 1) (\<lambda>(ret, d, n).
     if ret \<noteq> 1 then Inr (-96, s, n)
     else
       let padlen = d ! 0 in
     if padlen = 0 then Inl Assert_Failed
     else
       let save = buf_append_u8 save padlen in
     rbind (read_into n 1) (\<lambda>(ret, d, n).
     if ret \<noteq> 1 then Inr (-97, s, n)
     else
       let s = s\<lparr>username_len := d ! 0\<rparr>;
           save = buf_append_u8 save (username_len s) in
     rbind (read_into n 8) (\<lambda>(ret, chalen, n).
     if ret \<noteq> 8 then Inr (-98, s, n)
     else
       let save = buf_append_data save chalen in
     rbind (read_into n (unat padlen)) (\<lambda>(ret, pad, n).
     if ret \<noteq> int (unat padlen) then Inr (-99, s, n)
     else
       let save = buf_append_data save pad in
     rbind (read_into n (unat (username_len s))) (\<lambda>(ret, name, n).
     let arr = store_at (username_bytes s) 0 name in
     if ret \<noteq> int (unat (username_len s)) then Inr (-100, s\<lparr>username := c_string arr\<rparr>, n)
     else
       let save = buf_append_data save name;
           s = s\<lparr>username := c_string (arr[unat (username_len s) := 0])\<rparr>
       in read_puzzle s n save chalen)))))"

definition read_server_initial_packet :: "session \<Rightarrow> net \<Rightarrow> (int \<times> session \<times> net) result" where
  "read_server_initial_packet s n =
     rbind (read_server_fixed s n) (\<lambda>(ret, s, n, save).
       if ret < 0 then Inr (ret, s, n) else read_server_variable s n save)"

definition do_key_exchange :: "session \<Rightarrow> net \<Rightarrow> (int \<times> session \<times> net) result" where
  "do_key_exchange s n =
     rbind (send_client_initial_packet s n) (\<lambda>(ret, s, n).
       if ret \<noteq> 0 then Inr (-1, s, n)
       else rbind (read_server_initial_packet s n) (\<lambda>(ret, s, n).
              if ret < 0 then Inr (ret, s, n) else Inr (0, s, n)))"

section \<open>Keys\<close>

text \<open>
  \<open>hmac_chain\<close> is the loop of \<open>key_init\<close>: \<open>message\<close> and the output so far.  \<open>ctx\<close>
  stands for the stack frame of \<open>sha1_hmac\<close>.
\<close>

fun hmac_chain :: "SHA1_CTX \<Rightarrow> byte list \<Rightarrow> nat list \<Rightarrow> byte list \<Rightarrow> byte list \<Rightarrow> byte list option" where
  "hmac_chain ctx key [] message out = Some out"
| "hmac_chain ctx key (i # is) message out =
     (let message = message[52 := word_of_nat i] in
      case sha1_hmac ctx key message of None \<Rightarrow> None
      | Some h \<Rightarrow> hmac_chain ctx key is (store_at message 0 (take 20 h)) (out @ h))"

text \<open>
  \<open>DH_compute_key pub priv\<close> is OpenSSL's: the shared secret as bytes without
  leading zeros, or nothing if it fails.  It is stored from the start of its array.
\<close>

definition key_init ::
  "(nat \<Rightarrow> nat \<Rightarrow> byte list option) \<Rightarrow> SHA1_CTX \<Rightarrow> session \<Rightarrow> (int \<times> session) result" where
  "key_init DH_compute_key ctx s =
     (case DH_compute_key (BN_bin2bn (remote_pub_key s)) (dh_priv s) of
        None \<Rightarrow> Inr (-1, s)
      | Some z \<Rightarrow>
          if length (shared_key s) < length z then Inl Out_Of_Bounds
          else
            let s = s\<lparr>shared_key := store_at (shared_key s) 0 z\<rparr>;
                message = auth_hash s @ client_random_16 s @ server_random_16 s @ [0]
            in (case hmac_chain ctx (shared_key s) [1..<6] message [] of
                 None \<Rightarrow> Inl Blocked
               | Some hmac_output \<Rightarrow>
                   let s = s\<lparr>key_send := take 32 (drop 20 hmac_output),
                             key_recv := take 32 (drop 52 hmac_output)\<rparr>
                   in Inr (0, s\<lparr>shn_send := shn_key (shn_send s) (key_send s),
                                shn_recv := shn_key (shn_recv s) (key_recv s),
                                key_send_IV := 0, key_recv_IV := 0,
                                key_hmac := take 20 hmac_output\<rparr>)))"

section \<open>The client's packet, byte for byte\<close>

lemma buf_bytes_patch:
  assumes "buf_inv b" "i < buf_len b"
  shows "buf_bytes (b\<lparr>buf_ptr := (buf_ptr b)[i := Some x]\<rparr>) = (buf_bytes b)[i := x]"
    and "buf_inv (b\<lparr>buf_ptr := (buf_ptr b)[i := Some x]\<rparr>)"
  using assms
  by (auto simp: buf_bytes_def buf_inv_def take_update_swap map_update dest!: set_update_subset_insert [THEN subsetD])

lemma put_u16_of_nat:
  "n < 65536 \<Longrightarrow> put_u16 (word_of_nat n) = [word_of_nat (n div 256), word_of_nat n]"
  unfolding put_u16_def ucast_and_ff
  by (auto intro!: bit_word_eqI simp: bit_simps bit_push_bit_iff drop_bit_eq_div [of 8 n, symmetric, simplified])

lemma header_patch: "([a, b, c, d] @ r)[2 := x, 3 := y] = [a, b, x, y] @ r"
  by (simp add: numeral_2_eq_2 numeral_3_eq_3)

lemma header_nth: "([a, b, c, d] @ r) ! 2 = c" "([a, b, c, d] @ r) ! 3 = d"
  by (simp_all add: numeral_2_eq_2 numeral_3_eq_3)

definition username_shown :: "session \<Rightarrow> byte list" where
  "username_shown s = take (unat (username_len s)) (username_bytes s)"

lemma username_shown_short: "length (username_shown s) < 256"
  using unat_u8_less [of "username_len s"] by (simp add: username_shown_def min_def)

definition session_arrays :: "session \<Rightarrow> bool" where
  "session_arrays s \<longleftrightarrow>
     length (client_id s) = 4 \<and> length (client_random_16 s) = 16 \<and> length (server_random_16 s) = 16 \<and>
     length (my_pub_key s) = 96 \<and> length (rsa_pub_exp s) = 128 \<and> length (remote_pub_key s) = 96 \<and>
     length (random_256 s) = 256 \<and> length (salt s) = 10 \<and> length (shared_key s) = 96 \<and>
     length (auth_hash s) = 20"

definition initial_packet_bytes :: "session \<Rightarrow> byte list" where
  "initial_packet_bytes s =
     put_u16 3 @ put_u16 (word_of_nat (277 + length (username_shown s))) @
     put_u32 0x300 @ put_u32 0x30c00 @ put_u32 (client_revision s) @ put_u32 0 @ put_u32 0x01000000 @
     client_id s @ put_u32 0 @ client_random_16 s @ my_pub_key s @ rsa_pub_exp s @
     [0, username_len s, 1, 0] @ username_shown s @ [0x40]"

lemma initial_packet_body:
  assumes "session_arrays s"
  shows "buf_bytes (initial_packet s) = initial_packet_bytes s"
    and "buf_len (initial_packet s) = 277 + length (username_shown s)"
    and "buf_inv (initial_packet s)"
proof -
  define b where "b =
     (let b = buf_append_u16 buf_new 3;
          b = buf_append_u16 b 0;
          b = buf_append_u32 b 0x00000300;
          b = buf_append_u32 b 0x00030c00;
          b = buf_append_u32 b (ucast (client_revision s));
          b = buf_append_u32 b 0;
          b = buf_append_u32 b 0x01000000;
          b = buf_append_data b (client_id s);
          b = buf_append_u32 b 0;
          b = buf_append_data b (client_random_16 s);
          b = buf_append_data b (my_pub_key s);
          b = buf_append_data b (rsa_pub_exp s);
          b = buf_append_u8 b 0;
          b = buf_append_u8 b (username_len s);
          b = buf_append_u16 b 0x0100;
          b = buf_append_data b (take (unat (username_len s)) (username_bytes s))
      in buf_append_u8 b 0x40)"
  have inv: "buf_inv b" by (simp add: b_def Let_def)
  let ?rest = "put_u32 0x300 @ put_u32 0x30c00 @ put_u32 (client_revision s) @ put_u32 0 @
     put_u32 0x01000000 @ client_id s @ put_u32 0 @ client_random_16 s @ my_pub_key s @
     rsa_pub_exp s @ [0, username_len s, 1, 0] @ username_shown s @ [0x40]"
  have rev: "(ucast (ucast (client_revision s) :: u64) :: u32) = client_revision s"
    by (rule bit_word_eqI) (auto simp: bit_simps)
  have "put_u16 0x0100 = [1, 0]" by (simp add: put_u16_def)
  then have bytes: "buf_bytes b = put_u16 3 @ put_u16 0 @ ?rest"
    by (simp add: b_def Let_def username_shown_def rev)
  have len: "buf_len b = 277 + length (username_shown s)"
    using length_buf_bytes [OF inv] assms unfolding bytes by (simp add: session_arrays_def)
  have len2: "buf_len (buf_append_u16 buf_new 3) = 2" by (simp add: buf_append_u16_def Let_def buf_new_def)
  have pkt: "initial_packet s = b\<lparr>buf_ptr := (buf_ptr b)
      [2 := Some (word_of_nat (buf_len b div 256)), 3 := Some (word_of_nat (buf_len b))]\<rparr>"
    unfolding initial_packet_def b_def by (simp add: Let_def len2)
  define b1 where "b1 = b\<lparr>buf_ptr := (buf_ptr b)[2 := Some (word_of_nat (buf_len b div 256))]\<rparr>"
  have b1: "buf_inv b1" "buf_bytes b1 = (buf_bytes b)[2 := word_of_nat (buf_len b div 256)]"
    "buf_len b1 = buf_len b"
    unfolding b1_def using buf_bytes_patch [OF inv, of 2] len by simp_all
  have pkt1: "initial_packet s = b1\<lparr>buf_ptr := (buf_ptr b1)[3 := Some (word_of_nat (buf_len b))]\<rparr>"
    unfolding pkt b1_def by simp
  have u: "length (username_shown s) < 256"
    by (rule username_shown_short)
  have two: "put_u16 (3::u16) = [0, 3]" "put_u16 (0::u16) = [0, 0]" by (simp_all add: put_u16_def)
  show "buf_bytes (initial_packet s) = initial_packet_bytes s"
  proof -
    have "buf_bytes (initial_packet s) =
        ([0, 3, 0, 0] @ ?rest)[2 := word_of_nat (buf_len b div 256), 3 := word_of_nat (buf_len b)]"
      unfolding pkt1 using buf_bytes_patch(1) [OF b1(1), of 3] b1(2,3) len
      by (simp only: bytes two append.simps)
    also have "\<dots> = put_u16 3 @ put_u16 (word_of_nat (buf_len b)) @ ?rest"
      using u unfolding header_patch len by (subst put_u16_of_nat) (simp_all add: two)
    finally show ?thesis by (simp only: len initial_packet_bytes_def)
  qed
  show "buf_inv (initial_packet s)" unfolding pkt1 using buf_bytes_patch(2) [OF b1(1), of 3] b1(3) len by simp
  show "buf_len (initial_packet s) = 277 + length (username_shown s)" using len by (simp add: pkt)
qed

lemma client_packet_sent:
  assumes "session_arrays s" "length (BN_bn2bin (rsa_n s)) \<le> 128" "tx_q n = Taken k # es"
  defines "s' \<equiv> s\<lparr>rsa_pub_exp := store_at (rsa_pub_exp s) 0 (BN_bn2bin (rsa_n s))\<rparr>"
  defines "msg \<equiv> initial_packet_bytes s'"
  shows "length msg = unat (get_u16 (msg ! 2) (msg ! 3)) \<and>
    (if length msg \<le> k
     then \<exists>s1 n1 b. send_client_initial_packet s n = Inr (0, s1, n1) \<and> wire n1 = wire n @ msg \<and>
            s1 = s'\<lparr>init_client_packet := Some b\<rparr> \<and> buf_bytes b = msg \<and> buf_inv b \<and> rx_q n1 = rx_q n \<and> tx_q n1 = es
     else \<exists>n1. send_client_initial_packet s n = Inr (-1, s', n1) \<and> wire n1 = wire n @ take k msg)"
proof -
  have arr: "session_arrays s'" using assms(1,2) by (simp add: session_arrays_def s'_def)
  have u: "length (username_shown s') < 256"
    by (rule username_shown_short)
  have len: "length msg = 277 + length (username_shown s')"
    using initial_packet_body [OF arr] length_buf_bytes by (metis msg_def)
  have two: "put_u16 (3::u16) = [0, 3]" by (simp add: put_u16_def)
  have field: "msg ! 2 = word_of_nat (length msg div 256)" "msg ! 3 = word_of_nat (length msg)"
  proof -
    have "\<exists>r. msg = [0, 3, word_of_nat (length msg div 256), word_of_nat (length msg)] @ r"
      unfolding len unfolding msg_def initial_packet_bytes_def two
      using u by (subst put_u16_of_nat) simp_all
    then show "msg ! 2 = word_of_nat (length msg div 256)" "msg ! 3 = word_of_nat (length msg)"
      using header_nth by metis+
  qed
  have "get_u16 (msg ! 2) (msg ! 3) = word_of_nat (length msg)"
    unfolding field by (rule get_put_u16, rule put_u16_of_nat) (use len u in simp)
  moreover have "unat (word_of_nat (length msg) :: u16) = length msg"
    by (rule unat_word_of_nat_u16) (use len u in simp)
  ultimately have 1: "length msg = unat (get_u16 (msg ! 2) (msg ! 3))"
    by (simp only:)
  have fits: "\<not> length (rsa_pub_exp s) < length (BN_bn2bin (rsa_n s))"
    using assms(1,2) by (simp add: session_arrays_def)
  note body = initial_packet_body [OF arr, folded msg_def]
  have "if length msg \<le> k
     then \<exists>s1 n1 b. send_client_initial_packet s n = Inr (0, s1, n1) \<and> wire n1 = wire n @ msg \<and>
            s1 = s'\<lparr>init_client_packet := Some b\<rparr> \<and> buf_bytes b = msg \<and> buf_inv b \<and> rx_q n1 = rx_q n \<and> tx_q n1 = es
     else \<exists>n1. send_client_initial_packet s n = Inr (-1, s', n1) \<and> wire n1 = wire n @ take k msg"
    using body len fits assms(3)
    by (auto simp: send_client_initial_packet_def Let_def s'_def [symmetric] min_def)
  with 1 show ?thesis by blast
qed

text \<open>
  The client's first packet.  When the RSA modulus fits its array and the one
  \<open>send\<close> takes all of it, the bytes on the wire are the protocol version, the
  length of the whole packet (this field included), the fixed words, the client's
  id, randomness and keys, and the user name; the same bytes are kept for the
  authentication.  A shorter \<open>send\<close> fails and keeps nothing.
\<close>

lemma client_packet_layout:
  assumes "session_arrays s" "length (BN_bn2bin (rsa_n s)) \<le> 128" "tx_q n = Taken k # es"
  defines "s' \<equiv> s\<lparr>rsa_pub_exp := store_at (rsa_pub_exp s) 0 (BN_bn2bin (rsa_n s))\<rparr>"
  defines "msg \<equiv> initial_packet_bytes s'"
  shows "length msg = unat (get_u16 (msg ! 2) (msg ! 3)) \<and>
    (if length msg \<le> k
     then \<exists>s1 n1 b. send_client_initial_packet s n = Inr (0, s1, n1) \<and> wire n1 = wire n @ msg \<and>
            s1 = s'\<lparr>init_client_packet := Some b\<rparr> \<and> buf_bytes b = msg
     else \<exists>n1. send_client_initial_packet s n = Inr (-1, s', n1) \<and> wire n1 = wire n @ take k msg)"
  unfolding s'_def msg_def using client_packet_sent [OF assms(1-3)] by (auto split: if_splits)

lemma client_packet_layout_witness:
  "\<exists>s1 n1 b. send_client_initial_packet (zero_session\<lparr>username := ''bob'', username_len := 3, rsa_n := 77\<rparr>)
       \<lparr>rx_q = [], tx_q = [Taken 500], wire = [9]\<rparr> = Inr (0, s1, n1) \<and>
     length (wire n1) = 281 \<and> init_client_packet s1 = Some b \<and> wire n1 = 9 # buf_bytes b"
proof -
  let ?s = "zero_session\<lparr>username := ''bob'', username_len := 3, rsa_n := 77\<rparr>"
  let ?s' = "?s\<lparr>rsa_pub_exp := store_at (rsa_pub_exp ?s) 0 (BN_bn2bin (rsa_n ?s))\<rparr>"
  have l: "length (BN_bn2bin 77) \<le> 1" by (rule length_BN_bn2bin) simp
  have ok: "session_arrays ?s" by (simp add: session_arrays_def zero_session_def)
  have ok': "session_arrays ?s'" using l by (simp add: session_arrays_def zero_session_def)
  have "length (initial_packet_bytes ?s') = 280"
    using initial_packet_body [OF ok'] length_buf_bytes [of "initial_packet ?s'"]
    by (simp add: username_shown_def username_bytes_def)
  then show ?thesis
    using client_packet_layout [OF ok, where n = "\<lparr>rx_q = [], tx_q = [Taken 500], wire = [9]\<rparr>"] l
    by auto
qed

section \<open>The server's packet, byte for byte\<close>

lemma read_into_run:
  assumes "pending (rx_q n) = d @ rest" "length d = k"
  shows "\<exists>n'. read_into n k = Inr (int k, d, n') \<and> pending (rx_q n') = rest \<and>
    wire n' = wire n \<and> tx_q n' = tx_q n"
  using block_read_enough [of k "rx_q n"] assms by (auto simp: read_into_def)

text \<open>What a server sends that accepts the user.\<close>

record server_hello =
  h_random :: "byte list"
  h_pub :: "byte list"
  h_blob :: "byte list"
  h_salt :: "byte list"
  h_pad :: "byte list"
  h_name :: "byte list"
  h_puzzle :: "byte list"
  h_more :: "byte list list"

definition hello_fixed :: "server_hello \<Rightarrow> byte list" where
  "hello_fixed h = h_random h @ h_pub h @ h_blob h @ h_salt h"

definition hello_lengths :: "server_hello \<Rightarrow> byte list" where
  "hello_lengths h = concat (map (\<lambda>c. put_u16 (word_of_nat (length c))) (h_puzzle h # h_more h))"

definition hello_bytes :: "server_hello \<Rightarrow> byte list" where
  "hello_bytes h =
     hello_fixed h @ [word_of_nat (length (h_pad h)), word_of_nat (length (h_name h))] @
     hello_lengths h @ h_pad h @ h_name h @ concat (h_puzzle h # h_more h)"

definition hello_ok :: "server_hello \<Rightarrow> bool" where
  "hello_ok h \<longleftrightarrow>
     length (h_random h) = 16 \<and> h_random h ! 0 = 0 \<and> length (h_pub h) = 96 \<and>
     length (h_blob h) = 256 \<and> length (h_salt h) = 10 \<and>
     0 < length (h_pad h) \<and> length (h_pad h) < 256 \<and> length (h_name h) < 256 \<and>
     length (h_more h) = 3 \<and> (\<forall>c\<in>set (h_puzzle h # h_more h). length c < 65536) \<and>
     6 \<le> length (h_puzzle h) \<and> h_puzzle h ! 0 = 1"

definition after_fixed :: "session \<Rightarrow> server_hello \<Rightarrow> session" where
  "after_fixed s h = s\<lparr>server_random_16 := h_random h, remote_pub_key := h_pub h,
     random_256 := h_blob h, salt := h_salt h\<rparr>"

lemma store_whole: "length d = length a \<Longrightarrow> store_at a 0 d = d"
  by (simp add: store_at_def)

lemma read_server_fixed_hello:
  assumes arr: "session_arrays s" and h: "hello_ok h" and rx: "pending (rx_q n) = hello_fixed h @ rest"
  shows "\<exists>n' save. read_server_fixed s n = Inr (0, after_fixed s h, n', save) \<and>
    buf_inv save \<and> buf_bytes save = hello_fixed h \<and> pending (rx_q n') = rest \<and> wire n' = wire n \<and> tx_q n' = tx_q n"
proof -
  have len: "length (h_random h) = 16" "length (h_pub h) = 96" "length (h_blob h) = 256"
    "length (h_salt h) = 10" "h_random h ! 0 = 0"
    using h by (simp_all add: hello_ok_def)
  have alen: "length (server_random_16 s) = 16" "length (remote_pub_key s) = 96"
    "length (random_256 s) = 256" "length (salt s) = 10"
    using arr by (simp_all add: session_arrays_def)
  have rx': "pending (rx_q n) = (take 2 (h_random h) @ drop 2 (h_random h)) @ h_pub h @ h_blob h @ h_salt h @ rest"
    using rx by (simp add: hello_fixed_def)
  obtain n1 where n1: "read_into n 2 = Inr (2, take 2 (h_random h), n1)"
    "pending (rx_q n1) = drop 2 (h_random h) @ h_pub h @ h_blob h @ h_salt h @ rest" "wire n1 = wire n \<and> tx_q n1 = tx_q n"
    using read_into_run [OF rx' [unfolded append.assoc], of 2] len by auto
  obtain n2 where n2: "read_into n1 14 = Inr (14, drop 2 (h_random h), n2)"
    "pending (rx_q n2) = h_pub h @ h_blob h @ h_salt h @ rest" "wire n2 = wire n \<and> tx_q n2 = tx_q n"
    using read_into_run [OF n1(2), of 14] len n1(3) by auto
  obtain n3 where n3: "read_into n2 96 = Inr (96, h_pub h, n3)"
    "pending (rx_q n3) = h_blob h @ h_salt h @ rest" "wire n3 = wire n \<and> tx_q n3 = tx_q n"
    using read_into_run [OF n2(2), of 96] len n2(3) by auto
  obtain n4 where n4: "read_into n3 256 = Inr (256, h_blob h, n4)"
    "pending (rx_q n4) = h_salt h @ rest" "wire n4 = wire n \<and> tx_q n4 = tx_q n"
    using read_into_run [OF n3(2), of 256] len n3(3) by auto
  obtain n5 where n5: "read_into n4 10 = Inr (10, h_salt h, n5)"
    "pending (rx_q n5) = rest" "wire n5 = wire n \<and> tx_q n5 = tx_q n"
    using read_into_run [OF n4(2), of 10] len n4(3) by auto
  let ?r = "store_at (server_random_16 s) 0 (take 2 (h_random h))"
  have r0: "?r ! 0 = 0" using len by (simp add: store_at_def nth_append)
  have r: "store_at ?r 2 (drop 2 (h_random h)) = h_random h"
    using len alen by (simp add: store_at_def)
  show ?thesis
    using len alen n5(2,3)
    by (simp add: read_server_fixed_def n1(1) n2(1) n3(1) n4(1) n5(1) r0 r store_whole after_fixed_def
        hello_fixed_def Let_def)
qed

definition puzzle_taken :: "session \<Rightarrow> server_hello \<Rightarrow> session" where
  "puzzle_taken s h = s\<lparr>puzzle_denominator := h_puzzle h ! 1,
     puzzle_magic := get_u32 (h_puzzle h ! 2) (h_puzzle h ! 3) (h_puzzle h ! 4) (h_puzzle h ! 5)\<rparr>"

lemma peek_stored:
  "i < length d \<Longrightarrow> length d \<le> length cells \<Longrightarrow> peek (store_at cells 0 (map Some d)) i = Inr (d ! i)"
  by (simp add: peek_def fetch_def store_at_def nth_append)

lemma hello_lengths_nth:
  assumes "hello_ok h"
  shows "length (hello_lengths h) = 8"
    and "\<exists>c1 c2 c3. h_more h = [c1, c2, c3] \<and>
      hello_lengths h = put_u16 (word_of_nat (length (h_puzzle h))) @ put_u16 (word_of_nat (length c1)) @
        put_u16 (word_of_nat (length c2)) @ put_u16 (word_of_nat (length c3))"
proof -
  obtain c1 c2 c3 where "h_more h = [c1, c2, c3]"
    using assms by (auto simp: hello_ok_def length_Suc_conv numeral_3_eq_3)
  then show "length (hello_lengths h) = 8"
    "\<exists>c1 c2 c3. h_more h = [c1, c2, c3] \<and>
      hello_lengths h = put_u16 (word_of_nat (length (h_puzzle h))) @ put_u16 (word_of_nat (length c1)) @
        put_u16 (word_of_nat (length c2)) @ put_u16 (word_of_nat (length c3))"
    by (simp_all add: hello_lengths_def)
qed

lemma get_u16_pair:
  "n < 65536 \<Longrightarrow> put_u16 (word_of_nat n) = [a, b] \<Longrightarrow> unat (get_u16 a b) = n"
  by (simp add: get_put_u16 unat_word_of_nat_u16)

lemma nth_eight:
  "[a, b, c, d, e, f, g, h] ! 0 = a" "[a, b, c, d, e, f, g, h] ! 1 = b"
  "[a, b, c, d, e, f, g, h] ! 2 = c" "[a, b, c, d, e, f, g, h] ! 3 = d"
  "[a, b, c, d, e, f, g, h] ! 4 = e" "[a, b, c, d, e, f, g, h] ! 5 = f"
  "[a, b, c, d, e, f, g, h] ! 6 = g" "[a, b, c, d, e, f, g, h] ! 7 = h"
  by (simp_all add: eval_nat_numeral)

lemma put_u16_pair: obtains a b where "put_u16 w = [a, b]"
  by (simp add: put_u16_def)

lemma read_puzzle_hello:
  assumes h: "hello_ok h" and rx: "pending (rx_q n) = concat (h_puzzle h # h_more h) @ rest"
    and save: "buf_inv save"
  shows "\<exists>n'. read_puzzle s n save (hello_lengths h) = Inr (0, (puzzle_taken s h)\<lparr>init_server_packet :=
      Some (buf_append_data save (concat (h_puzzle h # h_more h)))\<rparr>, n') \<and> pending (rx_q n') = rest \<and>
    wire n' = wire n \<and> tx_q n' = tx_q n"
proof -
  obtain c1 c2 c3 where more: "h_more h = [c1, c2, c3]"
    and l: "hello_lengths h = put_u16 (word_of_nat (length (h_puzzle h))) @ put_u16 (word_of_nat (length c1)) @
        put_u16 (word_of_nat (length c2)) @ put_u16 (word_of_nat (length c3))"
    using hello_lengths_nth(2) [OF h] by blast
  have small: "length (h_puzzle h) < 65536" "length c1 < 65536" "length c2 < 65536" "length c3 < 65536"
    and six: "6 \<le> length (h_puzzle h)" and tag: "h_puzzle h ! 0 = 1"
    using h more by (simp_all add: hello_ok_def)
  obtain a0 a1 b0 b1 d0 d1 e0 e1
    where p: "put_u16 (word_of_nat (length (h_puzzle h))) = [a0, a1]" "put_u16 (word_of_nat (length c1)) = [b0, b1]"
      "put_u16 (word_of_nat (length c2)) = [d0, d1]" "put_u16 (word_of_nat (length c3)) = [e0, e1]"
    by (metis put_u16_pair)
  let ?tot = "length (h_puzzle h) + length c1 + length c2 + length c3"
  let ?d = "concat (h_puzzle h # h_more h)"
  have dl: "length ?d = ?tot" by (simp add: more)
  obtain n' where n': "read_into n ?tot = Inr (int ?tot, ?d, n')" "pending (rx_q n') = rest" "wire n' = wire n \<and> tx_q n' = tx_q n"
    using read_into_run [OF rx dl] by auto
  have nth: "i < 6 \<Longrightarrow> ?d ! i = h_puzzle h ! i" for i using six by (simp add: nth_append)
  have room: "length ?d \<le> length (buf_ptr (buf_extend buf_new ?tot))"
    using buf_extend_room [OF buf_inv_new, of ?tot] dl by (simp add: buf_new_def)
  have pk: "i < 6 \<Longrightarrow> peek (store_at (buf_ptr (buf_extend buf_new ?tot)) 0 (map Some ?d)) i = Inr (h_puzzle h ! i)" for i
    using peek_stored [OF _ room] nth six dl by simp
  note lens = small [THEN get_u16_pair] p
  have sum: "unat (get_u16 a0 a1) + unat (get_u16 b0 b1) + unat (get_u16 d0 d1) + unat (get_u16 e0 e1) = ?tot"
    using small p by (simp add: get_u16_pair)
  have ls: "hello_lengths h = [a0, a1, b0, b1, d0, d1, e0, e1]" using l p by simp
  show ?thesis
    unfolding read_puzzle_def ls nth_eight Let_def sum n'(1)
    using n'(2,3) tag by (simp add: pk puzzle_taken_def del: concat.simps)
qed

lemma c_string_store:
  assumes "length name < 256"
  shows "c_string ((store_at (username_bytes s) 0 name)[length name := 0]) = c_string name"
proof -
  have "(store_at (username_bytes s) 0 name)[length name := 0] =
      name @ 0 # drop (Suc (length name)) (username_bytes s)"
    using assms by (simp add: store_at_def username_bytes_def list_update_append upd_conv_take_nth_drop)
  then show ?thesis by (simp add: c_string_def takeWhile_tail)
qed

definition after_hello :: "session \<Rightarrow> server_hello \<Rightarrow> session" where
  "after_hello s h =
     puzzle_taken ((after_fixed s h)\<lparr>username_len := word_of_nat (length (h_name h)),
        username := c_string (h_name h)\<rparr>) h"

lemma read_server_variable_hello:
  assumes h: "hello_ok h" and save: "buf_inv save" "buf_bytes save = hello_fixed h"
    and rx: "hello_bytes h @ rest = hello_fixed h @ pending (rx_q n)"
  shows "\<exists>n' save'. read_server_variable (after_fixed s h) n save =
      Inr (0, (after_hello s h)\<lparr>init_server_packet := Some save'\<rparr>, n') \<and>
    buf_bytes save' = hello_bytes h \<and> buf_inv save' \<and> pending (rx_q n') = rest \<and> wire n' = wire n \<and> tx_q n' = tx_q n"
proof -
  have small: "0 < length (h_pad h)" "length (h_pad h) < 256" "length (h_name h) < 256"
    using h by (simp_all add: hello_ok_def)
  have u: "k < 256 \<Longrightarrow> unat (word_of_nat k :: byte) = k" for k by (simp add: unat_of_nat)
  have pad0: "(word_of_nat (length (h_pad h)) :: byte) \<noteq> 0"
    using u [OF small(2)] small(1) by (metis less_numeral_extra(3) unat_0)
  have rx0: "pending (rx_q n) = [word_of_nat (length (h_pad h))] @ [word_of_nat (length (h_name h))] @
      hello_lengths h @ h_pad h @ h_name h @ concat (h_puzzle h # h_more h) @ rest"
    using rx by (simp add: hello_bytes_def)
  obtain n1 where n1: "read_into n 1 = Inr (1, [word_of_nat (length (h_pad h))], n1)"
    "pending (rx_q n1) = [word_of_nat (length (h_name h))] @
      hello_lengths h @ h_pad h @ h_name h @ concat (h_puzzle h # h_more h) @ rest" "wire n1 = wire n \<and> tx_q n1 = tx_q n"
    using read_into_run [OF rx0, of 1] by auto
  obtain n2 where n2: "read_into n1 1 = Inr (1, [word_of_nat (length (h_name h))], n2)"
    "pending (rx_q n2) = hello_lengths h @ h_pad h @ h_name h @ concat (h_puzzle h # h_more h) @ rest"
    "wire n2 = wire n \<and> tx_q n2 = tx_q n"
    using read_into_run [OF n1(2), of 1] n1(3) by auto
  obtain n3 where n3: "read_into n2 8 = Inr (8, hello_lengths h, n3)"
    "pending (rx_q n3) = h_pad h @ h_name h @ concat (h_puzzle h # h_more h) @ rest" "wire n3 = wire n \<and> tx_q n3 = tx_q n"
    using read_into_run [OF n2(2) hello_lengths_nth(1) [OF h]] n2(3) by auto
  obtain n4 where n4: "read_into n3 (length (h_pad h)) = Inr (int (length (h_pad h)), h_pad h, n4)"
    "pending (rx_q n4) = h_name h @ concat (h_puzzle h # h_more h) @ rest" "wire n4 = wire n \<and> tx_q n4 = tx_q n"
    using read_into_run [OF n3(2) refl] n3(3) by auto
  obtain n5 where n5: "read_into n4 (length (h_name h)) = Inr (int (length (h_name h)), h_name h, n5)"
    "pending (rx_q n5) = concat (h_puzzle h # h_more h) @ rest" "wire n5 = wire n \<and> tx_q n5 = tx_q n"
    using read_into_run [OF n4(2) refl] n4(3) by auto
  let ?s = "(after_fixed s h)\<lparr>username_len := word_of_nat (length (h_name h))\<rparr>"
  let ?save = "buf_append_data (buf_append_data (buf_append_data (buf_append_u8 (buf_append_u8 save
      (word_of_nat (length (h_pad h)))) (word_of_nat (length (h_name h)))) (hello_lengths h)) (h_pad h)) (h_name h)"
  have inv: "buf_inv ?save" using save(1) by simp
  obtain n6 where n6: "read_puzzle (?s\<lparr>username := c_string (h_name h)\<rparr>) n5 ?save (hello_lengths h) =
      Inr (0, (puzzle_taken (?s\<lparr>username := c_string (h_name h)\<rparr>) h)\<lparr>init_server_packet :=
        Some (buf_append_data ?save (concat (h_puzzle h # h_more h)))\<rparr>, n6)"
    "pending (rx_q n6) = rest" "wire n6 = wire n \<and> tx_q n6 = tx_q n"
    using read_puzzle_hello [OF h n5(2) inv] n5(3) by auto
  have bytes: "buf_bytes (buf_append_data ?save (concat (h_puzzle h # h_more h))) = hello_bytes h"
    using save inv by (simp add: hello_bytes_def)
  have "read_server_variable (after_fixed s h) n save = Inr (0, (after_hello s h)\<lparr>init_server_packet :=
      Some (buf_append_data ?save (concat (h_puzzle h # h_more h)))\<rparr>, n6)"
    unfolding read_server_variable_def
    using n6(1) pad0
    by (simp add: n1(1) [unfolded One_nat_def] n2(1) [unfolded One_nat_def] n3(1) n4(1) n5(1) u small c_string_store Let_def after_hello_def
        puzzle_taken_def del: concat.simps)
  moreover have "buf_inv (buf_append_data ?save (concat (h_puzzle h # h_more h)))" using inv by simp
  ultimately show ?thesis using bytes n6(2,3) by blast
qed

lemma server_hello_read:
  assumes "session_arrays s" "hello_ok h" "pending (rx_q n) = hello_bytes h @ rest"
  shows "\<exists>n' save. read_server_initial_packet s n =
      Inr (0, (after_hello s h)\<lparr>init_server_packet := Some save\<rparr>, n') \<and>
    buf_bytes save = hello_bytes h \<and> buf_inv save \<and> pending (rx_q n') = rest \<and> wire n' = wire n \<and> tx_q n' = tx_q n"
proof -
  let ?tail = "drop (length (hello_fixed h)) (hello_bytes h) @ rest"
  have tail: "hello_bytes h @ rest = hello_fixed h @ ?tail" by (simp add: hello_bytes_def)
  with assms(3) have "pending (rx_q n) = hello_fixed h @ ?tail" by simp
  from read_server_fixed_hello [OF assms(1,2) this] obtain n1 save
    where fixed: "read_server_fixed s n = Inr (0, after_fixed s h, n1, save)" "buf_inv save"
      "buf_bytes save = hello_fixed h" "pending (rx_q n1) = ?tail" "wire n1 = wire n \<and> tx_q n1 = tx_q n" by blast
  from read_server_variable_hello [OF assms(2) fixed(2,3), of rest n1 s] tail fixed(4)
  obtain n2 save' where "read_server_variable (after_fixed s h) n1 save =
      Inr (0, (after_hello s h)\<lparr>init_server_packet := Some save'\<rparr>, n2)"
    "buf_bytes save' = hello_bytes h" "buf_inv save'" "pending (rx_q n2) = rest" "wire n2 = wire n1 \<and> tx_q n2 = tx_q n1" by fastforce
  with fixed(1,5) show ?thesis by (auto simp: read_server_initial_packet_def)
qed

text \<open>
  C22: The server's first packet.  However its bytes are delivered, the client
  takes the random bytes, the public key, the salt, the user name and the puzzle
  out of it as the server put them in, leaves what follows unread, and keeps the
  whole packet byte for byte for the authentication.
\<close>

theorem server_packet_parsed:
  assumes "session_arrays s" "hello_ok h" "pending (rx_q n) = hello_bytes h @ rest"
  shows "\<exists>n' save. read_server_initial_packet s n =
      Inr (0, (after_hello s h)\<lparr>init_server_packet := Some save\<rparr>, n') \<and>
    buf_bytes save = hello_bytes h \<and> pending (rx_q n') = rest \<and> wire n' = wire n"
  using server_hello_read [OF assms] by blast

lemma server_packet_parsed_witness:
  "\<exists>n' s'. read_server_initial_packet zero_session
      \<lparr>rx_q = [Chunk (replicate 300 0), Eintr, Chunk (replicate 78 0 @ [1, 1, 0, 6, 0, 0, 0, 0, 0, 0, 42]),
        Chunk [0x62, 1, 7, 0, 0, 1, 2, 99]], tx_q = [], wire = []\<rparr> = Inr (0, s', n') \<and>
     pending (rx_q n') = [99] \<and> username s' = ''b'' \<and> puzzle_denominator s' = 7 \<and> puzzle_magic s' = 258"
proof -
  let ?h = "\<lparr>h_random = replicate 16 0, h_pub = replicate 96 0, h_blob = replicate 256 0,
    h_salt = replicate 10 0, h_pad = [42], h_name = [0x62], h_puzzle = [1, 7, 0, 0, 1, 2], h_more = [[], [], []]\<rparr>"
  let ?n = "\<lparr>rx_q = [Chunk (replicate 300 0), Eintr, Chunk (replicate 78 0 @ [1, 1, 0, 6, 0, 0, 0, 0, 0, 0, 42]),
        Chunk [0x62, 1, 7, 0, 0, 1, 2, 99]], tx_q = [], wire = []\<rparr>"
  have arr: "session_arrays zero_session" by (simp add: session_arrays_def zero_session_def)
  have ok: "hello_ok ?h" by (simp add: hello_ok_def)
  have "(replicate 16 0 @ replicate 96 0 @ replicate 256 0 @ replicate 10 0 :: byte list) =
      replicate 300 0 @ replicate 78 0"
    by (simp add: replicate_add [symmetric])
  then have fixed: "hello_fixed ?h = replicate 300 0 @ replicate 78 0" by (simp add: hello_fixed_def)
  have "pending (rx_q ?n) = hello_bytes ?h @ [99]"
    unfolding hello_bytes_def fixed by (simp add: hello_lengths_def put_u16_def)
  note server_packet_parsed [OF arr ok this]
  moreover have "char_of (98 :: nat) = CHR ''b''" by code_simp
  ultimately show ?thesis by (auto simp: after_hello_def puzzle_taken_def c_string_def get_u32_def)
qed

text \<open>
  The server's refusals: when the first status byte is not 0, the second one
  decides the result, the same for \<open>do_key_exchange\<close>, nothing more is read, and
  every refusal is a failure.
\<close>

lemma refusal_reported:
  assumes "session_arrays s" "pending (rx_q n) = [a, b] @ rest" "a \<noteq> 0"
  shows "\<exists>s' n'. read_server_initial_packet s n = Inr (refusal b, s', n') \<and> pending (rx_q n') = rest \<and>
    wire n' = wire n \<and> refusal b < 0 \<and> init_server_packet s' = init_server_packet s \<and>
    refusal b = (if b \<in> {1, 3, 4, 6, 9} then -10 - int (unat b) else -91)"
proof -
  obtain n1 where n1: "read_into n 2 = Inr (2, [a, b], n1)" "pending (rx_q n1) = rest"
    "wire n1 = wire n"
    using read_into_run [OF assms(2), of 2] by auto
  have "store_at (server_random_16 s) 0 [a, b] = a # b # drop 2 (server_random_16 s)"
    by (simp add: store_at_def numeral_2_eq_2)
  then have "read_server_initial_packet s n =
      Inr (refusal b, s\<lparr>server_random_16 := a # b # drop 2 (server_random_16 s)\<rparr>, n1)"
    using assms(3) n1(1) by (simp add: read_server_initial_packet_def read_server_fixed_def Let_def refusal_def)
  with n1(2,3) show ?thesis by (auto simp: refusal_def)
qed

lemma refusal_reported_witness:
  "\<exists>s' n'. read_server_initial_packet zero_session
      \<lparr>rx_q = [Chunk [1], Chunk [3, 5]], tx_q = [], wire = []\<rparr> = Inr (-13, s', n') \<and> pending (rx_q n') = [5]"
  using refusal_reported [of zero_session "\<lparr>rx_q = [Chunk [1], Chunk [3, 5]], tx_q = [], wire = []\<rparr>" 1 3 "[5]"]
  by (auto simp: session_arrays_def zero_session_def refusal_def)

section \<open>The derived keys\<close>

text \<open>The blocks of the key material, as a recursion over RFC 2104's HMAC.\<close>

fun key_block :: "byte list \<Rightarrow> byte list \<Rightarrow> byte list \<Rightarrow> nat \<Rightarrow> byte list" where
  "key_block K start randoms 0 = start"
| "key_block K start randoms (Suc i) =
     rfc_hmac K (key_block K start randoms i @ randoms @ [word_of_nat (Suc i)])"

definition key_material :: "byte list \<Rightarrow> byte list \<Rightarrow> byte list \<Rightarrow> byte list" where
  "key_material K start randoms = concat (map (key_block K start randoms) [1..<6])"

lemma length_rfc_hmac [simp]: "length (rfc_hmac k m) = 20"
  by (simp add: rfc_hmac_def length_fips_sha1)

lemma length_key_block: "length start = 20 \<Longrightarrow> length (key_block K start randoms i) = 20"
  by (cases i) (simp_all add: length_rfc_hmac)

lemma hmac_chain_blocks:
  assumes ctx: "length (buffer ctx) = 64" and K: "length K < 2 ^ 29"
    and st: "length start = 20" and rs: "length randoms = 32"
  shows "hmac_chain ctx K [Suc k..<Suc (k + n)] (key_block K start randoms k @ randoms @ [x]) out =
    Some (out @ concat (map (key_block K start randoms) [Suc k..<Suc (k + n)]))"
proof (induction n arbitrary: k x out)
  case (Suc n)
  let ?T = "key_block K start randoms"
  have len: "length (?T k) = 20" "length (?T (Suc k)) = 20" using length_key_block [OF st] by blast+
  have upd: "(?T k @ randoms @ [x])[52 := y] = ?T k @ randoms @ [y]" for y
    using len(1) rs by (simp add: list_update_append)
  have h: "sha1_hmac ctx K (?T k @ randoms @ [word_of_nat (Suc k)]) = Some (?T (Suc k))"
    using sha1_hmac_rfc [OF ctx K, of "?T k @ randoms @ [word_of_nat (Suc k)]"] len(1) rs by simp
  have st: "store_at (?T k @ randoms @ [y]) 0 (take 20 (?T (Suc k))) = ?T (Suc k) @ randoms @ [y]" for y
    using len by (simp add: store_at_def)
  have range: "[Suc k..<Suc (k + Suc n)] = Suc k # [Suc (Suc k)..<Suc (Suc k + n)]"
    by (simp add: upt_rec)
  show ?case
    unfolding range hmac_chain.simps Let_def upd h option.case st Suc.IH by simp
qed simp

lemma length_key_material: "length start = 20 \<Longrightarrow> length (key_material K start randoms) = 100"
  by (simp add: key_material_def upt_rec)

lemma key_init_result:
  assumes "session_arrays s" "length (buffer ctx) = 64" "length z \<le> 96"
    and "dh (BN_bin2bn (remote_pub_key s)) (dh_priv s) = Some z"
  defines "K \<equiv> key_material (z @ drop (length z) (shared_key s)) (auth_hash s)
                 (client_random_16 s @ server_random_16 s)"
  shows "\<exists>s'. key_init dh ctx s = Inr (0, s') \<and>
    key_hmac s' = take 20 K \<and> key_send s' = take 32 (drop 20 K) \<and> key_recv s' = take 32 (drop 52 K) \<and>
    shn_send s' = shn_key (shn_send s) (take 32 (drop 20 K)) \<and>
    shn_recv s' = shn_key (shn_recv s) (take 32 (drop 52 K)) \<and>
    key_send_IV s' = 0 \<and> key_recv_IV s' = 0"
proof -
  have arr: "length (shared_key s) = 96" "length (auth_hash s) = 20"
    "length (client_random_16 s @ server_random_16 s) = 32"
    using assms(1) by (simp_all add: session_arrays_def)
  have z: "store_at (shared_key s) 0 z = z @ drop (length z) (shared_key s)"
    by (simp add: store_at_def)
  have "length (z @ drop (length z) (shared_key s)) < 2 ^ 29" using assms(3) arr(1) by simp
  from hmac_chain_blocks [OF assms(2) this arr(2,3), of 0 5 0 "[]"]
  have "hmac_chain ctx (store_at (shared_key s) 0 z) [1..<6]
      (auth_hash s @ client_random_16 s @ server_random_16 s @ [0]) [] = Some K"
    by (simp add: K_def key_material_def z)
  then show ?thesis using assms(3,4) arr(1) by (simp add: key_init_def Let_def)
qed

text \<open>
  The key derivation.  From the shared secret \<open>z\<close> that OpenSSL returns, padded
  behind to 96 bytes with what was in the array, \<open>key_init\<close> computes the five blocks
  of the chain \<open>T (i + 1) = HMAC (secret, T i, client random, server random, i + 1)\<close>,
  which starts with the password hash, and cuts from them the authentication key, the
  sending and the receiving key; both sequence numbers start at 0.
\<close>

lemma key_init_derives:
  assumes "session_arrays s" "length (buffer ctx) = 64" "length z \<le> 96"
    and "dh (BN_bin2bn (remote_pub_key s)) (dh_priv s) = Some z"
  defines "K \<equiv> key_material (z @ drop (length z) (shared_key s)) (auth_hash s)
                 (client_random_16 s @ server_random_16 s)"
  shows "\<exists>s'. key_init dh ctx s = Inr (0, s') \<and>
    key_hmac s' = take 20 K \<and> key_send s' = take 32 (drop 20 K) \<and> key_recv s' = take 32 (drop 52 K) \<and>
    shn_send s' = shn_key (shn_send s) (take 32 (drop 20 K)) \<and>
    shn_recv s' = shn_key (shn_recv s) (take 32 (drop 52 K)) \<and>
    key_send_IV s' = 0 \<and> key_recv_IV s' = 0"
  unfolding K_def using key_init_result [where dh = dh, OF assms(1-4)] .

lemma key_init_derives_witness:
  "\<exists>s'. key_init (\<lambda>p x. Some [1, 2]) \<lparr>state = [], count0 = 0, count1 = 0, buffer = replicate 64 0\<rparr> zero_session =
     Inr (0, s') \<and>
     key_hmac s' = take 20 (key_material ([1, 2] @ replicate 94 0) (replicate 20 0) (replicate 32 0))"
proof -
  have arr: "session_arrays zero_session" by (simp add: session_arrays_def zero_session_def)
  have "(replicate 16 0 @ replicate 16 0 :: byte list) = replicate 32 0"
    by (simp add: replicate_add [symmetric])
  then show ?thesis
    using key_init_derives [OF arr, of "\<lparr>state = [], count0 = 0, count1 = 0, buffer = replicate 64 0\<rparr>"
        "[1, 2]" "\<lambda>p x. Some [1, 2]"]
    by (auto simp: zero_session_def)
qed

end
