(* ===== verification/Auth.thy ===== *)
theory Auth
  imports Keyexchange Packet
begin

text \<open>
  \<^verbatim>\<open>src/src/lib/puzzle.c\<close> and \<^verbatim>\<open>src/src/lib/auth.c\<close>: the hash of the password, the
  proof of work the server asks for, the second packet of each side.

  Proved here: what is hashed; when the search for a puzzle solution ends, and
  that its result satisfies the server's check; what the client sends and what it
  accepts; and that after a completed derivation a peer with the same secrets
  reads what the client sends.
\<close>

section \<open>The puzzle\<close>

text \<open>
  One turn of the loop: eight values of \<open>random ()\<close>, their hash with the server's
  bytes, its last word read in network order and masked.  \<open>rnd k\<close> is what the
  \<open>k\<close>-th call of \<open>random ()\<close> returns; the seed is an uninitialised word.
\<close>

definition puzzle_try :: "(nat \<Rightarrow> int) \<Rightarrow> nat \<Rightarrow> byte list" where
  "puzzle_try rnd k = map (\<lambda>i. word_of_int (rnd (8 * k + i))) [0..<8]"

definition nominator :: "byte list \<Rightarrow> u32" where
  "nominator digest = get_u32 (digest ! 16) (digest ! 17) (digest ! 18) (digest ! 19)"

partial_function (option) puzzle_loop ::
  "SHA1_CTX \<Rightarrow> (nat \<Rightarrow> int) \<Rightarrow> byte list \<Rightarrow> u32 \<Rightarrow> u32 \<Rightarrow> nat \<Rightarrow> byte list option" where
  "puzzle_loop ctx rnd random16 magic den k =
     do { (digest, ctx) \<leftarrow> sha1_of ctx [random16, puzzle_try rnd k];
          if (nominator digest XOR magic) AND den \<noteq> 0
          then puzzle_loop ctx rnd random16 magic den (k + 1)
          else Some (puzzle_try rnd k) }"

text \<open>
  \<open>1 << puzzle_denominator\<close> is an \<open>int\<close>: from 31 on the shift is undefined, and
  the server chooses the exponent.
\<close>

definition puzzle_solve :: "SHA1_CTX \<Rightarrow> (nat \<Rightarrow> int) \<Rightarrow> session \<Rightarrow> session result" where
  "puzzle_solve ctx rnd s =
     (if 31 \<le> unat (puzzle_denominator s) then Inl Undefined
      else
        let denominator = push_bit (unat (puzzle_denominator s)) 1 - 1
        in case puzzle_loop ctx rnd (server_random_16 s) (puzzle_magic s) denominator 0 of
             None \<Rightarrow> Inl Blocked
           | Some sol \<Rightarrow> Inr (s\<lparr>puzzle_solution := sol\<rparr>))"

section \<open>Authentication\<close>

definition auth_generate_auth_hash :: "SHA1_CTX \<Rightarrow> session \<Rightarrow> session result" where
  "auth_generate_auth_hash ctx s =
     (case sha1_of ctx [salt s, bytes_of '' '', bytes_of (password s)] of
        None \<Rightarrow> Inl Blocked
      | Some (digest, ctx) \<Rightarrow> Inr (s\<lparr>auth_hash := digest\<rparr>))"

text \<open>The bytes that end both the message and the packet.\<close>

definition solution_tail :: "buf \<Rightarrow> session \<Rightarrow> buf" where
  "solution_tail b s =
     (let b = buf_append_u8 b 0;
          b = buf_append_u8 b 0;
          b = buf_append_u16 b 8;
          b = buf_append_u32 b 0
      in buf_append_data b (puzzle_solution s))"

definition auth_generate_auth_hmac :: "SHA1_CTX \<Rightarrow> session \<Rightarrow> byte list result" where
  "auth_generate_auth_hmac ctx s =
     (case (init_client_packet s, init_server_packet s) of
        (Some cp, Some sp) \<Rightarrow>
          let b = buf_append_data buf_new (buf_bytes cp);
              b = buf_append_data b (buf_bytes sp);
              b = solution_tail b s
          in (case sha1_hmac ctx (key_hmac s) (buf_bytes b) of None \<Rightarrow> Inl Blocked | Some h \<Rightarrow> Inr h)
      | _ \<Rightarrow> Inl Null_Deref)"

definition send_client_auth :: "session \<Rightarrow> net \<Rightarrow> (int \<times> net) result" where
  "send_client_auth s n =
     (let b = solution_tail (buf_append_data buf_new (auth_hmac s)) s in
      rbind (sock_send (tx_q n) (buf_bytes b)) (\<lambda>(ret, out, tx').
        let n = n\<lparr>tx_q := tx', wire := wire n @ out\<rparr> in
        if ret \<le> 0 then Inr (-1, n)
        else if ret \<noteq> int (buf_len b) then Inr (-1, n)
        else Inr (0, n)))"

definition read_server_auth_response :: "net \<Rightarrow> (int \<times> net) result" where
  "read_server_auth_response n =
     rbind (read_into n 2) (\<lambda>(ret, buf, n).
     if ret \<noteq> 2 then Inr (-1, n)
     else if buf ! 0 \<noteq> 0 then Inr (-1, n)
     else if buf ! 1 = 0 then Inl Assert_Failed
     else
       let payload_len = buf ! 1 in
     rbind (read_into n (unat payload_len)) (\<lambda>(ret, buf, n).
     if ret \<noteq> int (unat payload_len) then Inr (-1, n) else Inr (0, n)))"

text \<open>
  \<open>do_auth\<close>.  At its end the two first packets are freed; the pointers to them
  stay in the session as they are.
\<close>

definition do_auth :: "SHA1_CTX \<Rightarrow> (nat \<Rightarrow> int) \<Rightarrow> session \<Rightarrow> net \<Rightarrow> (int \<times> session \<times> net) result" where
  "do_auth ctx rnd s n =
     rbind (puzzle_solve ctx rnd s) (\<lambda>s.
     rbind (auth_generate_auth_hmac ctx s) (\<lambda>h.
     let s = s\<lparr>auth_hmac := h\<rparr> in
     rbind (send_client_auth s n) (\<lambda>(r, n).
     if r \<noteq> 0 then Inr (-1, s, n)
     else rbind (read_server_auth_response n) (\<lambda>(r, n).
     if r \<noteq> 0 then Inr (-1, s, n) else Inr (0, s, n)))))"

section \<open>The search for a solution\<close>

text \<open>The server's check of a solution.\<close>

definition solves :: "session \<Rightarrow> byte list \<Rightarrow> bool" where
  "solves s sol \<longleftrightarrow>
     (nominator (fips_sha1 (server_random_16 s @ sol)) XOR puzzle_magic s) AND
       (push_bit (unat (puzzle_denominator s)) 1 - 1) = 0"

lemma puzzle_loop_step:
  assumes "length (buffer ctx) = 64" "length random16 = 16"
  shows "\<exists>ctx'. length (buffer ctx') = 64 \<and>
    puzzle_loop ctx rnd random16 magic den k =
      (if (nominator (fips_sha1 (random16 @ puzzle_try rnd k)) XOR magic) AND den \<noteq> 0
       then puzzle_loop ctx' rnd random16 magic den (k + 1) else Some (puzzle_try rnd k))"
proof -
  obtain ctx' where "sha1_of ctx [random16, puzzle_try rnd k] =
      Some (fips_sha1 (random16 @ puzzle_try rnd k), ctx')" "length (buffer ctx') = 64"
    using sha1_of_fips [OF assms(1), of "[random16, puzzle_try rnd k]"] assms(2)
    by (auto simp: puzzle_try_def)
  then show ?thesis by (subst puzzle_loop.simps) auto
qed

lemma puzzle_loop_finds:
  fixes rnd random16 magic den
  defines "bad \<equiv> \<lambda>k. (nominator (fips_sha1 (random16 @ puzzle_try rnd k)) XOR magic) AND den \<noteq> 0"
  assumes len: "length random16 = 16"
    and "\<not> bad (k + m)" "\<forall>j<m. bad (k + j)" "length (buffer ctx) = 64"
  shows "puzzle_loop ctx rnd random16 magic den k = Some (puzzle_try rnd (k + m))"
  using assms(3-)
proof (induction m arbitrary: k ctx)
  case 0
  then show ?case using puzzle_loop_step [OF 0(3) len, of rnd magic den k] by (auto simp: bad_def)
next
  case (Suc m)
  have "bad k" using Suc.prems(2) [rule_format, of 0] by simp
  moreover obtain ctx' where "length (buffer ctx') = 64" "puzzle_loop ctx rnd random16 magic den k =
      (if bad k then puzzle_loop ctx' rnd random16 magic den (k + 1) else Some (puzzle_try rnd k))"
    using puzzle_loop_step [OF Suc.prems(3) len, of rnd magic den k] by (auto simp: bad_def)
  moreover have "\<forall>j<m. bad (k + 1 + j)" using Suc.prems(2) by auto
  ultimately show ?case using Suc.IH [of "k + 1" ctx'] Suc.prems(1) by simp
qed

lemma puzzle_loop_sound:
  assumes "puzzle_loop ctx rnd random16 magic den k = Some sol"
    and "length (buffer ctx) = 64" "length random16 = 16"
  shows "\<exists>j\<ge>k. sol = puzzle_try rnd j \<and>
    (nominator (fips_sha1 (random16 @ sol)) XOR magic) AND den = 0"
proof -
  have "length (buffer ctx) = 64 \<longrightarrow> length random16 = 16 \<longrightarrow> (\<exists>j\<ge>k. sol = puzzle_try rnd j \<and>
      (nominator (fips_sha1 (random16 @ sol)) XOR magic) AND den = 0)"
  proof (rule puzzle_loop.raw_induct [where P = "\<lambda>ctx rnd random16 magic den k sol.
      length (buffer ctx) = 64 \<longrightarrow> length random16 = 16 \<longrightarrow> (\<exists>j\<ge>k. sol = puzzle_try rnd j \<and>
        (nominator (fips_sha1 (random16 @ sol)) XOR magic) AND den = 0)", OF _ assms(1)])
    fix f ctx rnd random16 magic den k sol
    assume IH: "\<And>ctx rnd random16 magic den k sol. f ctx rnd random16 magic den k = Some sol \<Longrightarrow>
        length (buffer ctx) = 64 \<longrightarrow> length random16 = 16 \<longrightarrow> (\<exists>j\<ge>k. sol = puzzle_try rnd j \<and>
        (nominator (fips_sha1 (random16 @ sol)) XOR magic) AND den = 0)"
      and run: "sha1_of ctx [random16, puzzle_try rnd k] \<bind>
         (\<lambda>(digest, ctx). if (nominator digest XOR magic) AND den \<noteq> 0
            then f ctx rnd random16 magic den (k + 1) else Some (puzzle_try rnd k)) = Some sol"
    show "length (buffer ctx) = 64 \<longrightarrow> length random16 = 16 \<longrightarrow> (\<exists>j\<ge>k. sol = puzzle_try rnd j \<and>
        (nominator (fips_sha1 (random16 @ sol)) XOR magic) AND den = 0)"
    proof (intro impI)
      assume len: "length (buffer ctx) = 64" "length random16 = 16"
      obtain ctx' where c: "sha1_of ctx [random16, puzzle_try rnd k] =
          Some (fips_sha1 (random16 @ puzzle_try rnd k), ctx')" "length (buffer ctx') = 64"
        using sha1_of_fips [OF len(1), of "[random16, puzzle_try rnd k]"] len(2)
        by (auto simp: puzzle_try_def)
      show "\<exists>j\<ge>k. sol = puzzle_try rnd j \<and>
          (nominator (fips_sha1 (random16 @ sol)) XOR magic) AND den = 0"
      proof (cases "(nominator (fips_sha1 (random16 @ puzzle_try rnd k)) XOR magic) AND den = 0")
        case True
        with run c(1) show ?thesis by auto
      next
        case False
        with run c(1) have "f ctx' rnd random16 magic den (k + 1) = Some sol" by simp
        from IH [OF this] c(2) len(2) obtain j where "k + 1 \<le> j" "sol = puzzle_try rnd j"
          "(nominator (fips_sha1 (random16 @ sol)) XOR magic) AND den = 0" by blast
        then show ?thesis by (intro exI [of _ j]) simp
      qed
    qed
  qed
  with assms(2,3) show ?thesis by blast
qed

lemma puzzle_solve_cases:
  assumes "length (buffer ctx) = 64" "session_arrays s"
  shows "if unat (puzzle_denominator s) < 31
    then ((\<exists>s'. puzzle_solve ctx rnd s = Inr s') \<longleftrightarrow> (\<exists>k. solves s (puzzle_try rnd k))) \<and>
         (\<forall>s'. puzzle_solve ctx rnd s = Inr s' \<longrightarrow>
            s' = s\<lparr>puzzle_solution := puzzle_solution s'\<rparr> \<and> solves s (puzzle_solution s') \<and>
            length (puzzle_solution s') = 8)
    else puzzle_solve ctx rnd s = Inl Undefined"
proof (cases "unat (puzzle_denominator s) < 31")
  case True
  let ?den = "push_bit (unat (puzzle_denominator s)) 1 - 1 :: u32"
  let ?l = "puzzle_loop ctx rnd (server_random_16 s) (puzzle_magic s) ?den 0"
  have len: "length (server_random_16 s) = 16" using assms(2) by (simp add: session_arrays_def)
  have solve: "puzzle_solve ctx rnd s = (case ?l of None \<Rightarrow> Inl Blocked
      | Some sol \<Rightarrow> Inr (s\<lparr>puzzle_solution := sol\<rparr>))"
    using True by (simp add: puzzle_solve_def Let_def)
  have sound: "solves s sol \<and> length sol = 8 \<and> (\<exists>k. sol = puzzle_try rnd k)" if "?l = Some sol" for sol
    using puzzle_loop_sound [OF that assms(1) len] by (auto simp: solves_def puzzle_try_def)
  have found: "\<exists>sol. ?l = Some sol" if "solves s (puzzle_try rnd k)" for k
  proof -
    define m where "m = (LEAST k. solves s (puzzle_try rnd k))"
    have "solves s (puzzle_try rnd m)" using that unfolding m_def by (rule LeastI)
    then have 1: "\<not> (nominator (fips_sha1 (server_random_16 s @ puzzle_try rnd (0 + m))) XOR puzzle_magic s)
        AND ?den \<noteq> 0"
      by (simp only: solves_def add_0 not_not)
    have "\<forall>j<m. \<not> solves s (puzzle_try rnd j)" unfolding m_def using not_less_Least by blast
    then have 2: "\<forall>j<m. (nominator (fips_sha1 (server_random_16 s @ puzzle_try rnd (0 + j))) XOR puzzle_magic s)
        AND ?den \<noteq> 0"
      by (simp only: solves_def add_0)
    show ?thesis using puzzle_loop_finds [OF len 1 2 assms(1)] by blast
  qed
  have "(\<exists>s'. puzzle_solve ctx rnd s = Inr s') \<longleftrightarrow> (\<exists>sol. ?l = Some sol)"
    by (cases ?l) (simp_all add: solve)
  with found sound have "(\<exists>s'. puzzle_solve ctx rnd s = Inr s') \<longleftrightarrow> (\<exists>k. solves s (puzzle_try rnd k))"
    by metis
  moreover have "s' = s\<lparr>puzzle_solution := puzzle_solution s'\<rparr> \<and> solves s (puzzle_solution s') \<and>
      length (puzzle_solution s') = 8" if "puzzle_solve ctx rnd s = Inr s'" for s'
    using that sound by (auto simp: solve split: option.splits)
  ultimately show ?thesis using True by simp
next
  case False
  then show ?thesis by (simp add: puzzle_solve_def)
qed

text \<open>
  C23: The puzzle.  With an exponent below 31 the search ends exactly if some try
  among the values of \<open>random ()\<close> passes the server's check, and it then leaves a
  solution that passes it; from 31 on the first shift is undefined.
\<close>

theorem puzzle_solved_iff_possible:
  assumes "length (buffer ctx) = 64" "session_arrays s"
  shows "if unat (puzzle_denominator s) < 31
    then ((\<exists>s'. puzzle_solve ctx rnd s = Inr s') \<longleftrightarrow> (\<exists>k. solves s (puzzle_try rnd k))) \<and>
         (\<forall>s'. puzzle_solve ctx rnd s = Inr s' \<longrightarrow>
            s' = s\<lparr>puzzle_solution := puzzle_solution s'\<rparr> \<and> solves s (puzzle_solution s') \<and>
            length (puzzle_solution s') = 8)
    else puzzle_solve ctx rnd s = Inl Undefined"
  using puzzle_solve_cases [OF assms] .

lemma puzzle_solved_iff_possible_witness:
  "\<exists>s'. puzzle_solve \<lparr>state = [], count0 = 0, count1 = 0, buffer = replicate 64 0\<rparr> (\<lambda>k. int k * 7) zero_session =
     Inr s' \<and> length (puzzle_solution s') = 8"
proof -
  let ?ctx = "\<lparr>state = [], count0 = 0, count1 = 0, buffer = replicate 64 0\<rparr>"
  have arr: "session_arrays zero_session" by (simp add: session_arrays_def zero_session_def)
  have "solves zero_session sol" for sol by (simp add: solves_def zero_session_def)
  then show ?thesis
    using puzzle_solved_iff_possible [of ?ctx zero_session "\<lambda>k. int k * 7"] arr
    by (auto simp: zero_session_def)
qed

section \<open>The second packets\<close>

text \<open>
  The hash of the password is SHA-1 of the salt, a space and the password.
\<close>

lemma auth_hash_is_sha1:
  assumes "length (buffer ctx) = 64" "session_arrays s" "length (password s) < 256"
  shows "auth_generate_auth_hash ctx s =
    Inr (s\<lparr>auth_hash := fips_sha1 (salt s @ [0x20] @ bytes_of (password s))\<rparr>)"
proof -
  have "bytes_of '' '' = [0x20]" by (simp add: bytes_of_def of_char_def)
  then show ?thesis
    using sha1_of_fips [OF assms(1), of "[salt s, [0x20], bytes_of (password s)]"] assms(2,3)
    by (auto simp: auth_generate_auth_hash_def session_arrays_def)
qed

definition some_ctx :: SHA1_CTX where
  "some_ctx = \<lparr>state = [], count0 = 0, count1 = 0, buffer = replicate 64 0\<rparr>"

lemma some_ctx_ok: "length (buffer some_ctx) = 64"
  by (simp add: some_ctx_def)

lemma zero_session_arrays: "session_arrays zero_session"
  by (simp add: session_arrays_def zero_session_def)

lemma auth_hash_is_sha1_witness:
  "auth_generate_auth_hash some_ctx (session_auth_set zero_session ''u'' ''pw'') =
    Inr ((session_auth_set zero_session ''u'' ''pw'')\<lparr>auth_hash := fips_sha1 (replicate 10 0 @ [0x20, 0x70, 0x77])\<rparr>)"
proof -
  let ?s = "session_auth_set zero_session ''u'' ''pw''"
  have "session_arrays ?s" using zero_session_arrays by (simp add: session_auth_set_def Let_def session_arrays_def)
  moreover have p: "password ?s = ''pw''" "salt ?s = replicate 10 0"
    by (simp_all add: session_auth_set_def Let_def DSFYstrncpy_def zero_session_def)
  moreover have "bytes_of ''pw'' = [0x70, 0x77]" by (simp add: bytes_of_def of_char_def)
  ultimately show ?thesis using auth_hash_is_sha1 [OF some_ctx_ok, of ?s] by simp
qed

definition solution_bytes :: "session \<Rightarrow> byte list" where
  "solution_bytes s = [0, 0] @ put_u16 8 @ put_u32 0 @ puzzle_solution s"

lemma solution_tail_bytes:
  assumes "buf_inv b"
  shows "buf_inv (solution_tail b s)" "buf_bytes (solution_tail b s) = buf_bytes b @ solution_bytes s"
  using assms by (simp_all add: solution_tail_def solution_bytes_def Let_def)

definition auth_proof :: "session \<Rightarrow> byte list \<Rightarrow> byte list \<Rightarrow> byte list" where
  "auth_proof s cp sp = rfc_hmac (key_hmac s) (cp @ sp @ solution_bytes s)"

lemma auth_generate_auth_hmac_proof:
  assumes "length (buffer ctx) = 64" "length (key_hmac s) = 20" "length (puzzle_solution s) = 8"
    and "init_client_packet s = Some cp" "init_server_packet s = Some sp" "buf_inv cp" "buf_inv sp"
    and "length (buf_bytes cp @ buf_bytes sp) < 2 ^ 28"
  shows "auth_generate_auth_hmac ctx s = Inr (auth_proof s (buf_bytes cp) (buf_bytes sp))"
proof -
  let ?b = "buf_append_data (buf_append_data buf_new (buf_bytes cp)) (buf_bytes sp)"
  have inv: "buf_inv ?b" and b: "buf_bytes ?b = buf_bytes cp @ buf_bytes sp" by simp_all
  have "length (buf_bytes (solution_tail ?b s)) < 2 ^ 29"
    using assms(3,8) by (simp add: solution_tail_bytes [OF inv] b solution_bytes_def)
  from sha1_hmac_rfc [OF assms(1) _ this, of "key_hmac s"] show ?thesis
    using assms(2,4,5)
    by (simp add: auth_generate_auth_hmac_def Let_def solution_tail_bytes [OF inv] b auth_proof_def)
qed

lemma send_client_auth_sends:
  assumes "tx_q n = Taken k # es" "length (auth_hmac s) = 20" "length (puzzle_solution s) = 8" "36 \<le> k"
  shows "send_client_auth s n = Inr (0, n\<lparr>tx_q := es, wire := wire n @ auth_hmac s @ solution_bytes s\<rparr>)"
proof -
  let ?b = "solution_tail (buf_append_data buf_new (auth_hmac s)) s"
  have b: "buf_inv ?b" "buf_bytes ?b = auth_hmac s @ solution_bytes s"
    using solution_tail_bytes [of "buf_append_data buf_new (auth_hmac s)" s] by simp_all
  have len: "length (auth_hmac s @ solution_bytes s) = 36" using assms(2,3) by (simp add: solution_bytes_def)
  then have "buf_len ?b = 36" using length_buf_bytes [OF b(1)] b(2) by simp
  then show ?thesis using assms(1,4) len by (simp add: send_client_auth_def b(2))
qed

lemma do_auth_run:
  assumes ctx: "length (buffer ctx) = 64" and solved: "puzzle_solve ctx rnd s = Inr s1"
    and len: "length (key_hmac s1) = 20" "length (puzzle_solution s1) = 8"
    and kept: "init_client_packet s1 = Some cp" "init_server_packet s1 = Some sp" "buf_inv cp" "buf_inv sp"
      "length (buf_bytes cp @ buf_bytes sp) < 2 ^ 28"
    and net: "tx_q n = Taken k # es" "36 \<le> k" "pending (rx_q n) = status # l # answer @ rest"
    and answer: "length answer = unat l" "l \<noteq> 0"
  defines "h \<equiv> auth_proof s1 (buf_bytes cp) (buf_bytes sp)"
  shows "\<exists>n'. do_auth ctx rnd s n = Inr (if status = 0 then 0 else -1, s1\<lparr>auth_hmac := h\<rparr>, n') \<and>
    wire n' = wire n @ h @ [0, 0, 0, 8, 0, 0, 0, 0] @ puzzle_solution s1 \<and>
    (status = 0 \<longrightarrow> pending (rx_q n') = rest)"
proof -
  let ?s = "s1\<lparr>auth_hmac := h\<rparr>"
  define n1 where "n1 = n\<lparr>tx_q := es, wire := wire n @ h @ solution_bytes s1\<rparr>"
  have h: "auth_generate_auth_hmac ctx s1 = Inr h"
    unfolding h_def by (rule auth_generate_auth_hmac_proof [OF ctx len kept])
  have hl: "length h = 20" by (simp add: h_def auth_proof_def)
  have sent: "send_client_auth ?s n = Inr (0, n1)"
    using send_client_auth_sends [OF net(1), of ?s] hl len(2) net(2)
    by (simp add: n1_def solution_bytes_def)
  have w: "wire n1 = wire n @ h @ [0, 0, 0, 8, 0, 0, 0, 0] @ puzzle_solution s1"
    by (simp add: n1_def solution_bytes_def put_u16_def put_u32_def)
  have rx1: "pending (rx_q n1) = [status, l] @ answer @ rest" using net(3) by (simp add: n1_def)
  obtain n2 where n2: "read_into n1 2 = Inr (2, [status, l], n2)" "pending (rx_q n2) = answer @ rest"
    "wire n2 = wire n1"
    using read_into_run [OF rx1, of 2] by auto
  obtain n3 where n3: "read_into n2 (unat l) = Inr (int (unat l), answer, n3)"
    "pending (rx_q n3) = rest" "wire n3 = wire n1"
    using read_into_run [OF n2(2) answer(1)] n2(3) by auto
  have "\<exists>n'. read_server_auth_response n1 = Inr (if status = 0 then 0 else -1, n') \<and> wire n' = wire n1 \<and>
      (status = 0 \<longrightarrow> pending (rx_q n') = rest)"
    using n2 n3 answer(2) by (cases "status = 0") (auto simp: read_server_auth_response_def Let_def)
  then obtain n' where "read_server_auth_response n1 = Inr (if status = 0 then 0 else -1, n')"
    "wire n' = wire n1" "status = 0 \<longrightarrow> pending (rx_q n') = rest" by blast
  then show ?thesis
    by (intro exI [of _ n']) (simp add: do_auth_def solved h sent w)
qed

text \<open>
  The last step of the login.  With a solution found and both first packets
  kept, one \<open>send\<close> carries HMAC(authentication key, both packets and the solution)
  and the same solution; then the client succeeds exactly if the server answers
  with status 0, a length that is not 0 and that many bytes, and the answer is
  read to its end.
\<close>

lemma do_auth_exchange:
  assumes ctx: "length (buffer ctx) = 64" and solved: "puzzle_solve ctx rnd s = Inr s1"
    and len: "length (key_hmac s1) = 20" "length (puzzle_solution s1) = 8"
    and kept: "init_client_packet s1 = Some cp" "init_server_packet s1 = Some sp" "buf_inv cp" "buf_inv sp"
      "length (buf_bytes cp @ buf_bytes sp) < 2 ^ 28"
    and net: "tx_q n = Taken k # es" "36 \<le> k" "pending (rx_q n) = status # l # answer @ rest"
    and answer: "length answer = unat l" "l \<noteq> 0"
  defines "h \<equiv> auth_proof s1 (buf_bytes cp) (buf_bytes sp)"
  shows "\<exists>n'. do_auth ctx rnd s n = Inr (if status = 0 then 0 else -1, s1\<lparr>auth_hmac := h\<rparr>, n') \<and>
    wire n' = wire n @ h @ [0, 0, 0, 8, 0, 0, 0, 0] @ puzzle_solution s1 \<and>
    (status = 0 \<longrightarrow> pending (rx_q n') = rest)"
  unfolding h_def using do_auth_run [OF ctx solved len kept net answer] .

lemma puzzle_zero_denominator:
  assumes "session_arrays s" "puzzle_denominator s = 0"
  shows "\<exists>sol. puzzle_solve some_ctx rnd s = Inr (s\<lparr>puzzle_solution := sol\<rparr>) \<and> length sol = 8"
proof -
  have len: "length (server_random_16 s) = 16" using assms(1) by (simp add: session_arrays_def)
  from puzzle_loop_step [OF some_ctx_ok len, of rnd "puzzle_magic s" 0 0] assms(2)
  show ?thesis by (auto simp: puzzle_solve_def puzzle_try_def)
qed

lemma do_auth_exchange_witness:
  "\<exists>n' s'. do_auth some_ctx (\<lambda>k. 1) (zero_session\<lparr>init_client_packet := Some buf_new, init_server_packet := Some buf_new\<rparr>)
     \<lparr>rx_q = [Chunk [0, 2, 7], Chunk [8, 9]], tx_q = [Taken 50], wire = []\<rparr> = Inr (0, s', n') \<and>
   pending (rx_q n') = [9] \<and> length (wire n') = 36"
proof -
  let ?s = "zero_session\<lparr>init_client_packet := Some buf_new, init_server_packet := Some buf_new\<rparr>"
  let ?n = "\<lparr>rx_q = [Chunk [0, 2, 7], Chunk [8, 9]], tx_q = [Taken 50], wire = []\<rparr>"
  have "session_arrays ?s" "puzzle_denominator ?s = 0"
    using zero_session_arrays by (simp_all add: session_arrays_def zero_session_def)
  then obtain sol where sol: "puzzle_solve some_ctx (\<lambda>k. 1) ?s = Inr (?s\<lparr>puzzle_solution := sol\<rparr>)" "length sol = 8"
    using puzzle_zero_denominator by blast
  have "length (auth_proof s a b) = 20" for s a b by (simp add: auth_proof_def)
  then show ?thesis
    using do_auth_exchange [OF some_ctx_ok sol(1), where cp = buf_new and sp = buf_new and n = ?n and
        k = 50 and es = "[]" and status = 0 and l = 2 and answer = "[7, 8]" and rest = "[9]"] sol(2)
    by (fastforce simp: zero_session_def)
qed

text \<open>
  C6: The keys the login ends with carry the traffic: once \<open>key_init\<close> has
  succeeded, a peer that keyed its receiving cipher with bytes 20 to 51 of the key
  material of the same secret, password hash and random bytes, whatever its cipher
  context held before, reads exactly the packets the client writes.
\<close>

theorem derived_keys_carry_packets:
  assumes arr: "session_arrays s" "length (buffer ctx) = 64" "length z \<le> 96"
    and dh: "dh (BN_bin2bn (remote_pub_key s)) (dh_priv s) = Some z"
    and client: "key_init dh ctx s = Inr (0, s')" "send_packets s' n ps = Inr (0, s'', n')" "wire n = []"
    and ps: "\<forall>(c, b) \<in> set ps. length b < 65536"
    and peer: "shn_recv r = shn_key c (take 32 (drop 20 (key_material (z @ drop (length z) (shared_key s))
        (auth_hash s) (client_random_16 s @ server_random_16 s))))" "key_recv_IV r = 0"
    and net: "pending (rx_q m) = wire n' @ rest"
  shows "\<exists>r' m'. read_packets r m (length ps) = Inr (ps, r', m') \<and> pending (rx_q m') = rest"
proof -
  from key_init_result [where dh = dh, OF arr dh] client(1) have keys:
    "shn_send s' = shn_key (shn_send s) (take 32 (drop 20 (key_material (z @ drop (length z) (shared_key s))
        (auth_hash s) (client_random_16 s @ server_random_16 s))))" "key_send_IV s' = 0"
    by auto
  have "in_step s' r" using keys peer shn_key_same by (simp add: in_step_def)
  then show ?thesis
    using read_packets_stream [of s' r ps m rest] send_packets_wire [OF client(2) ps] net client(3) ps
    by simp
qed

lemma derived_keys_carry_packets_witness:
  "\<exists>s' s'' n' r' m'. key_init (\<lambda>p x. Some [7]) some_ctx zero_session = Inr (0, s') \<and>
     send_packets s' net_out [(4, [1, 2])] = Inr (0, s'', n') \<and>
     read_packets (zero_session\<lparr>shn_recv := shn_key zero_ctx (take 32 (drop 20 (key_material
         (7 # replicate 95 0) (replicate 20 0) (replicate 32 0))))\<rparr>) (net_in (wire n' @ [9])) 1 =
       Inr ([(4, [1, 2])], r', m') \<and> pending (rx_q m') = [9]"
proof -
  obtain s' where s': "key_init (\<lambda>p x. Some [7]) some_ctx zero_session = Inr (0, s')"
    using key_init_result [where dh = "\<lambda>p x. Some [7]", OF zero_session_arrays some_ctx_ok, of "[7]"] by auto
  have "packet_write s' net_out 4 (Some [1, 2]) 2 = Inr (0, sent_state s' 4 [1, 2],
      net_out\<lparr>tx_q := [], wire := packet_bytes s' 4 [1, 2]\<rparr>)"
    using packet_write_taken [of "[1, 2]" net_out 100 "[]" s' 4] by (simp add: net_out_def)
  then obtain s'' n' where sent: "send_packets s' net_out [(4, [1, 2])] = Inr (0, s'', n')" by simp
  let ?r = "zero_session\<lparr>shn_recv := shn_key zero_ctx (take 32 (drop 20 (key_material
         (7 # replicate 95 0) (replicate 20 0) (replicate 32 0))))\<rparr>"
  have "(replicate 16 0 @ replicate 16 0 :: byte list) = replicate 32 0"
    by (simp add: replicate_add [symmetric])
  then have "shn_recv ?r = shn_key zero_ctx (take 32 (drop 20 (key_material ([7] @ drop (length [7 :: byte])
      (shared_key zero_session)) (auth_hash zero_session) (client_random_16 zero_session @ server_random_16 zero_session))))"
    "key_recv_IV ?r = 0"
    by (simp_all add: zero_session_def)
  moreover have "pending (rx_q (net_in (wire n' @ [9]))) = wire n' @ [9]" by (simp add: net_in_def del: take_append drop_append)
  moreover have "wire net_out = []" by (simp add: net_out_def)
  ultimately show ?thesis
    using derived_keys_carry_packets [where dh = "\<lambda>p x. Some [7]" and ps = "[(4, [1, 2])]",
        OF zero_session_arrays some_ctx_ok _ refl s' sent] s' sent by fastforce
qed

end
