(* ===== verification/Login.thy ===== *)
theory Login
  imports Player Auth
begin

text \<open>
  The life of a client in \<^verbatim>\<open>src/src/lib/despotify.c\<close>: creating it, logging in, freeing it.
  \<open>despotify_authenticate\<close> composes the session, the key exchange and the authentication.

  Proved here: what a login sends and what it leaves behind when the server accepts, which
  text each refusal is reported with, and that the welcome packet can be missed.
\<close>

section \<open>Waiting\<close>

text \<open>
  For each wait on a condition, what the other threads do before the caller waits and what
  they do while it waits.  Only a signal during the wait wakes the caller: a condition
  variable does not remember.
\<close>

type_synonym waits = "(env \<times> env) list"
type_synonym 'a answered = "('a \<times> waits \<times> table \<times> client) result"

fun all_steps :: "env \<Rightarrow> table \<Rightarrow> client \<Rightarrow> (table \<times> client) result" where
  "all_steps [] t c = Inr (t, c)"
| "all_steps (e # es) t c = rbind (e t c) (\<lambda>(t, c). all_steps es t c)"

text \<open>With no more waits in the script nothing happens.\<close>

fun next_wait :: "waits \<Rightarrow> env \<times> env \<times> waits" where
  "next_wait [] = ([], [], [])"
| "next_wait ((before, during) # ws) = (before, during, ws)"

text \<open>\<open>pthread_cond_wait\<close> on the login condition, which only a signal ends.\<close>

definition wait_login :: "waits \<Rightarrow> table \<Rightarrow> client \<Rightarrow> unit answered" where
  "wait_login ws t c =
     (case next_wait ws of (before, during, ws) \<Rightarrow>
        rbind (all_steps before t c) (\<lambda>(t, c).
        rbind (all_steps during t (c\<lparr>login_cond := False\<rparr>)) (\<lambda>(t, c).
          if login_cond c then Inr ((), ws, t, c) else Inl Blocked)))"

text \<open>
  \<open>despotify_wait_timeout\<close>: whether \<open>sync_cond\<close> was signalled in time.  The steps the script
  has for the wait are those that happen within the ten seconds.
\<close>

definition despotify_wait_timeout :: "waits \<Rightarrow> table \<Rightarrow> client \<Rightarrow> bool answered" where
  "despotify_wait_timeout ws t c =
     (case next_wait ws of (before, during, ws) \<Rightarrow>
        rbind (all_steps before t c) (\<lambda>(t, c).
          let seen = d_synced c in
          rbind (all_steps during t c) (\<lambda>(t, c). Inr (d_synced c \<noteq> seen, ws, t, c))))"

section \<open>Creating a client\<close>

text \<open>The parameters in front are those of \<open>session_init_client\<close>.\<close>

definition despotify_init_client ::
  "byte list \<Rightarrow> nat option \<Rightarrow> (nat \<times> nat) option \<Rightarrow> nat \<Rightarrow> bool \<Rightarrow> bool \<Rightarrow> bool \<Rightarrow> disk \<Rightarrow> client result" where
  "despotify_init_client rand16 rsa dh pid callback high_bitrate use_cache disk =
     rbind (session_init_client rand16 rsa dh pid) (\<lambda>s.
       let c = client_of disk \<lparr>sess = s, sock = \<lparr>rx_q = [], tx_q = [], wire = []\<rparr>, login_cond = False\<rparr>;
           c = c\<lparr>d_callback := callback, d_high_bitrate := high_bitrate, d_use_cache := use_cache\<rparr>
       in if use_cache
          then let (ok, d) = cache_init (d_disk c);
                   c = c\<lparr>d_disk := d\<rparr>
               in Inr (if ok then c else c\<lparr>d_use_cache := False\<rparr>)
          else Inr c)"

text \<open>\<open>despotify_get_error\<close> takes the text out.\<close>

definition despotify_get_error :: "client option \<Rightarrow> string option \<times> client option" where
  "despotify_get_error ds =
     (case ds of
        None \<Rightarrow> (Some ''Could not allocate memory for a new session.'', None)
      | Some c \<Rightarrow> (d_last_error c, Some (c\<lparr>d_last_error := None\<rparr>)))"

text \<open>What freeing a client closes and releases, after the network thread was cancelled.\<close>

definition despotify_free :: "bool \<Rightarrow> client \<Rightarrow> freed list \<times> client" where
  "despotify_free should_disconnect c =
     (let closing = (if should_disconnect \<and> ap_sock (sess c) \<noteq> -1 then [Close_Socket (ap_sock (sess c))] else []);
          c = (if should_disconnect then c\<lparr>sess := session_disconnect (sess c)\<rparr> else c);
          c = snd_destroy c
      in (closing @ session_free (sess c), c))"

definition despotify_exit :: "client \<Rightarrow> freed list \<times> client" where
  "despotify_exit c = despotify_free True c"

section \<open>Logging in\<close>

text \<open>The \<open>switch\<close> over the result of the key exchange.\<close>

definition exchange_error :: "int \<Rightarrow> string" where
  "exchange_error r =
     (if r = -11 then ''Client upgrade required''
      else if r = -13 then ''User not found''
      else if r = -14 then ''Account has been disabled''
      else if r = -16 then ''You need to complete your account details''
      else if r = -19 then ''Account/use country mismatch''
      else ''Key exchanged failed'')"

definition fail :: "string \<Rightarrow> session \<Rightarrow> net \<Rightarrow> client \<Rightarrow> (bool \<times> client) result" where
  "fail msg s n c = Inr (False, c\<lparr>sess := s, sock := n, d_last_error := Some msg\<rparr>)"

text \<open>
  \<open>despotify_authenticate\<close> up to the start of the network thread.  \<open>peer\<close> is what the
  connected socket will do; the other parameters are those of the functions called.
\<close>

definition login_exchange ::
  "(string \<Rightarrow> string option) \<Rightarrow> (string \<Rightarrow> string \<Rightarrow> addrinfo list option) \<Rightarrow> (nat \<Rightarrow> nat \<Rightarrow> byte list option)
   \<Rightarrow> SHA1_CTX \<Rightarrow> (nat \<Rightarrow> int) \<Rightarrow> net \<Rightarrow> string \<Rightarrow> string \<Rightarrow> client \<Rightarrow> (bool \<times> client) result" where
  "login_exchange srv_list resolve DH_compute_key ctx rnd peer user pass c =
     rbind (session_connect srv_list resolve (session_auth_set (sess c) user pass)) (\<lambda>(r, s).
     if r < 0 then fail ''Could not connect to server.'' s (sock c) c
     else rbind (do_key_exchange s peer) (\<lambda>(r, s, n).
     if r \<noteq> 0 then fail (exchange_error r) s n c
     else rbind (auth_generate_auth_hash ctx s) (\<lambda>s.
     rbind (key_init DH_compute_key ctx s) (\<lambda>(r, s).
     if r < 0 then fail ''Key computation failed.'' s n c
     else rbind (do_auth ctx rnd s n) (\<lambda>(r, s, n).
     if r < 0 then fail ''Authentication failed. Wrong password?'' s n c
     else Inr (True, c\<lparr>sess := s, sock := n\<rparr>))))))"

definition despotify_authenticate ::
  "(string \<Rightarrow> string option) \<Rightarrow> (string \<Rightarrow> string \<Rightarrow> addrinfo list option) \<Rightarrow> (nat \<Rightarrow> nat \<Rightarrow> byte list option)
   \<Rightarrow> SHA1_CTX \<Rightarrow> (nat \<Rightarrow> int) \<Rightarrow> net \<Rightarrow> string \<Rightarrow> string \<Rightarrow> waits \<Rightarrow> table \<Rightarrow> client \<Rightarrow> bool answered" where
  "despotify_authenticate srv_list resolve DH_compute_key ctx rnd peer user pass ws t c =
     rbind (login_exchange srv_list resolve DH_compute_key ctx rnd peer user pass c) (\<lambda>(ok, c).
       if ok then rbind (wait_login ws t c) (\<lambda>(_, ws, t, c). Inr (True, ws, t, c))
       else Inr (False, ws, t, c))"

section \<open>The composition\<close>

text \<open>What the steps of a login leave alone.\<close>

definition same_identity :: "session \<Rightarrow> session \<Rightarrow> bool" where
  "same_identity s s' \<longleftrightarrow>
     client_id s' = client_id s \<and> client_random_16 s' = client_random_16 s \<and> my_pub_key s' = my_pub_key s \<and>
     rsa_pub_exp s' = rsa_pub_exp s \<and> rsa_n s' = rsa_n s \<and> dh_priv s' = dh_priv s \<and>
     client_revision s' = client_revision s \<and> username s' = username s \<and> username_len s' = username_len s \<and>
     password s' = password s \<and> shared_key s' = shared_key s \<and> shn_send s' = shn_send s \<and> shn_recv s' = shn_recv s"

lemma connected:
  assumes "session_arrays s" "resolve ''a6.spotify.com'' ''4070'' = Some ais" "try_addresses ais (ap_sock s) \<noteq> -1"
  shows "\<exists>s'. session_connect srv_list resolve s = Inr (0, s') \<and> same_identity s s' \<and> session_arrays s'"
  using assms
  by (simp add: session_connect_def service_loop_first Let_def same_identity_def session_arrays_def)

lemma initial_packet_bytes_same:
  "same_identity s s' \<Longrightarrow> initial_packet_bytes (s'\<lparr>rsa_pub_exp := x\<rparr>) = initial_packet_bytes (s\<lparr>rsa_pub_exp := x\<rparr>)"
  by (simp add: same_identity_def initial_packet_bytes_def username_shown_def username_bytes_def)

lemma hello_bytes_short:
  assumes "hello_ok h"
  shows "length (hello_bytes h) < 2 ^ 27"
proof -
  obtain c1 c2 c3 where "h_more h = [c1, c2, c3]"
    using assms by (auto simp: hello_ok_def length_Suc_conv numeral_3_eq_3)
  with assms show ?thesis
    by (simp add: hello_ok_def hello_bytes_def hello_fixed_def hello_lengths_def)
qed

lemma initial_bytes_short: "session_arrays s \<Longrightarrow> length (initial_packet_bytes s) < 1000"
  using initial_packet_body [of s] length_buf_bytes [of "initial_packet s"] username_shown_short [of s] by simp

text \<open>The exchange of the first packets.\<close>

lemma exchanged:
  assumes arr: "session_arrays s" "length (BN_bn2bin (rsa_n s)) \<le> 128"
    and ok: "hello_ok h" and peer: "tx_q n = Taken k # es" "pending (rx_q n) = hello_bytes h @ rest"
  defines "msg \<equiv> initial_packet_bytes (s\<lparr>rsa_pub_exp := store_at (rsa_pub_exp s) 0 (BN_bn2bin (rsa_n s))\<rparr>)"
  assumes k: "length msg \<le> k"
  shows "\<exists>s' n' cp sp. do_key_exchange s n = Inr (0, s', n') \<and> wire n' = wire n @ msg \<and> pending (rx_q n') = rest \<and>
    tx_q n' = es \<and> init_client_packet s' = Some cp \<and> init_server_packet s' = Some sp \<and> buf_inv cp \<and> buf_inv sp \<and>
    buf_bytes cp = msg \<and> buf_bytes sp = hello_bytes h \<and> session_arrays s' \<and>
    client_random_16 s' = client_random_16 s \<and> dh_priv s' = dh_priv s \<and> password s' = password s \<and>
    shared_key s' = shared_key s \<and> shn_send s' = shn_send s \<and> shn_recv s' = shn_recv s \<and>
    server_random_16 s' = h_random h \<and> remote_pub_key s' = h_pub h \<and> salt s' = h_salt h \<and>
    puzzle_denominator s' = h_puzzle h ! 1 \<and>
    puzzle_magic s' = get_u32 (h_puzzle h ! 2) (h_puzzle h ! 3) (h_puzzle h ! 4) (h_puzzle h ! 5)"
proof -
  let ?s0 = "s\<lparr>rsa_pub_exp := store_at (rsa_pub_exp s) 0 (BN_bn2bin (rsa_n s))\<rparr>"
  obtain n1 cp where sent: "send_client_initial_packet s n = Inr (0, ?s0\<lparr>init_client_packet := Some cp\<rparr>, n1)"
    "wire n1 = wire n @ msg" "buf_bytes cp = msg" "buf_inv cp" "rx_q n1 = rx_q n" "tx_q n1 = es"
    using client_packet_sent [OF arr peer(1)] k unfolding msg_def by auto
  let ?s1 = "?s0\<lparr>init_client_packet := Some cp\<rparr>"
  have arr1: "session_arrays ?s1" using arr by (simp add: session_arrays_def)
  have "pending (rx_q n1) = hello_bytes h @ rest" using sent(5) peer(2) by simp
  from server_hello_read [OF arr1 ok this] obtain n2 sp
    where read: "read_server_initial_packet ?s1 n1 = Inr (0, (after_hello ?s1 h)\<lparr>init_server_packet := Some sp\<rparr>, n2)"
      "buf_bytes sp = hello_bytes h" "buf_inv sp" "pending (rx_q n2) = rest" "wire n2 = wire n1" "tx_q n2 = tx_q n1"
    by auto
  let ?s2 = "(after_hello ?s1 h)\<lparr>init_server_packet := Some sp\<rparr>"
  have "do_key_exchange s n = Inr (0, ?s2, n2)"
    unfolding do_key_exchange_def sent(1) using read(1) by simp
  moreover have "session_arrays ?s2"
    using arr1 ok by (simp add: session_arrays_def after_hello_def after_fixed_def puzzle_taken_def hello_ok_def)
  ultimately show ?thesis
    using sent read by (intro exI [of _ ?s2] exI [of _ n2] exI [of _ cp] exI [of _ sp])
      (simp add: after_hello_def after_fixed_def puzzle_taken_def)
qed

text \<open>The keys, and what \<open>key_init\<close> keeps.\<close>

lemma key_init_frame:
  assumes "key_init dh ctx s = Inr (0, s')" "session_arrays s"
  shows "init_client_packet s' = init_client_packet s \<and> init_server_packet s' = init_server_packet s \<and>
    server_random_16 s' = server_random_16 s \<and> puzzle_denominator s' = puzzle_denominator s \<and>
    puzzle_magic s' = puzzle_magic s \<and> session_arrays s'"
  using assms
  by (auto simp: key_init_def Let_def session_arrays_def store_at_def split: option.splits if_splits)

definition login_tail :: "byte list \<Rightarrow> byte list" where
  "login_tail sol = [0, 0, 0, 8, 0, 0, 0, 0] @ sol"

lemma solution_bytes_tail: "solution_bytes s = login_tail (puzzle_solution s)"
  by (simp add: solution_bytes_def login_tail_def put_u16_def put_u32_def)

lemma keyed:
  assumes ctx: "length (buffer ctx) = 64" and arr: "session_arrays s" and pw: "length (password s) < 256"
    and kept: "init_client_packet s = Some cp" "init_server_packet s = Some sp" "buf_inv cp" "buf_inv sp"
      "length (buf_bytes cp @ buf_bytes sp) < 2 ^ 28"
    and secret: "dh (BN_bin2bn (remote_pub_key s)) (dh_priv s) = Some z" "length z \<le> 96"
    and puzzle: "unat (puzzle_denominator s) < 31" "solves s (puzzle_try rnd j)"
    and net: "tx_q n = Taken k # es" "36 \<le> k" "pending (rx_q n) = status # l # answer @ rest"
    and answer: "length answer = unat l" "l \<noteq> 0"
  defines "K \<equiv> key_material (z @ drop (length z) (shared_key s))
      (fips_sha1 (salt s @ [0x20] @ bytes_of (password s))) (client_random_16 s @ server_random_16 s)"
  shows "\<exists>s1 s2 s' n' sol. auth_generate_auth_hash ctx s = Inr s1 \<and> key_init dh ctx s1 = Inr (0, s2) \<and>
    do_auth ctx rnd s2 n = Inr (if status = 0 then 0 else -1, s', n') \<and> solves s sol \<and>
    wire n' = wire n @ rfc_hmac (take 20 K) (buf_bytes cp @ buf_bytes sp @ login_tail sol) @ login_tail sol \<and>
    (status = 0 \<longrightarrow> pending (rx_q n') = rest) \<and>
    shn_send s' = shn_key (shn_send s) (take 32 (drop 20 K)) \<and>
    shn_recv s' = shn_key (shn_recv s) (take 32 (drop 52 K)) \<and> key_send_IV s' = 0 \<and> key_recv_IV s' = 0"
proof -
  let ?h = "fips_sha1 (salt s @ [0x20] @ bytes_of (password s))"
  let ?s1 = "s\<lparr>auth_hash := ?h\<rparr>"
  have hash: "auth_generate_auth_hash ctx s = Inr ?s1" by (rule auth_hash_is_sha1 [OF ctx arr pw])
  have arr1: "session_arrays ?s1" using arr by (simp add: session_arrays_def length_fips_sha1)
  have "dh (BN_bin2bn (remote_pub_key ?s1)) (dh_priv ?s1) = Some z" using secret(1) by simp
  from key_init_result [where dh = dh, OF arr1 ctx secret(2) this] obtain s2
    where s2: "key_init dh ctx ?s1 = Inr (0, s2)" "key_hmac s2 = take 20 K" "shn_send s2 = shn_key (shn_send s) (take 32 (drop 20 K))"
      "shn_recv s2 = shn_key (shn_recv s) (take 32 (drop 52 K))" "key_send_IV s2 = 0" "key_recv_IV s2 = 0"
    by (auto simp: K_def)
  have fr: "init_client_packet s2 = Some cp" "init_server_packet s2 = Some sp" "server_random_16 s2 = server_random_16 s"
    "puzzle_denominator s2 = puzzle_denominator s" "puzzle_magic s2 = puzzle_magic s" "session_arrays s2"
    using key_init_frame [OF s2(1) arr1] kept by simp_all
  have sv: "solves s2 sol \<longleftrightarrow> solves s sol" for sol using fr by (simp add: solves_def)
  obtain s3 where s3: "puzzle_solve ctx rnd s2 = Inr s3" "s3 = s2\<lparr>puzzle_solution := puzzle_solution s3\<rparr>"
    "solves s (puzzle_solution s3)" "length (puzzle_solution s3) = 8"
    using puzzle_solve_cases [OF ctx fr(6), of rnd] puzzle fr(4) sv by (metis (no_types, lifting))
  have eq: "key_hmac s3 = key_hmac s2" "init_client_packet s3 = Some cp" "init_server_packet s3 = Some sp"
    "shn_send s3 = shn_send s2" "shn_recv s3 = shn_recv s2" "key_send_IV s3 = 0" "key_recv_IV s3 = 0"
    using fr s2 by (subst s3(2), simp)+
  have "length (key_hmac s3) = 20"
    using eq(1) s2(2) length_key_material [OF length_fips_sha1] by (simp add: K_def)
  from do_auth_run [OF ctx s3(1) this s3(4) eq(2,3) kept(3-5) net answer] obtain n'
    where "do_auth ctx rnd s2 n = Inr (if status = 0 then 0 else -1,
        s3\<lparr>auth_hmac := auth_proof s3 (buf_bytes cp) (buf_bytes sp)\<rparr>, n')"
      "wire n' = wire n @ auth_proof s3 (buf_bytes cp) (buf_bytes sp) @ [0, 0, 0, 8, 0, 0, 0, 0] @ puzzle_solution s3"
      "status = 0 \<longrightarrow> pending (rx_q n') = rest" by auto
  with hash s2 s3(3) eq show ?thesis
    by (intro exI [of _ ?s1] exI [of _ s2] exI [of _ "s3\<lparr>auth_hmac := auth_proof s3 (buf_bytes cp) (buf_bytes sp)\<rparr>"]
        exI [of _ n'] exI [of _ "puzzle_solution s3"])
      (simp add: auth_proof_def solution_bytes_tail login_tail_def)
qed

lemma auth_set_keeps:
  "session_arrays s \<Longrightarrow> session_arrays (session_auth_set s user pass)"
  "length (password (session_auth_set s user pass)) < 256"
  "ap_sock (session_auth_set s user pass) = ap_sock s" "rsa_n (session_auth_set s user pass) = rsa_n s"
  "dh_priv (session_auth_set s user pass) = dh_priv s" "shared_key (session_auth_set s user pass) = shared_key s"
  "client_random_16 (session_auth_set s user pass) = client_random_16 s"
  "shn_send (session_auth_set s user pass) = shn_send s" "shn_recv (session_auth_set s user pass) = shn_recv s"
  "rsa_pub_exp (session_auth_set s user pass) = rsa_pub_exp s"
  by (simp_all add: session_auth_set_def Let_def session_arrays_def DSFYstrncpy_def)

lemma solves_only:
  "server_random_16 s = server_random_16 s' \<Longrightarrow> puzzle_denominator s = puzzle_denominator s' \<Longrightarrow>
   puzzle_magic s = puzzle_magic s' \<Longrightarrow> solves s sol = solves s' sol"
  by (simp add: solves_def)

section \<open>Properties\<close>

text \<open>
  C1: A login, from the first byte to the keys.  With an access point that can be reached, a
  server that accepts the user and a puzzle that has a solution, what the client puts on the
  wire is its first packet, then the proof HMAC(key, both first packets and the solution)
  with the solution; the keys are those of the derivation from the shared secret, the salted
  password hash and both random numbers; and the server's last status decides between
  waiting for the welcome and the wrong password.
\<close>

theorem login_meets_protocol:
  fixes c :: client and user pass :: string and srv_list :: "string \<Rightarrow> string option"
  assumes arr: "session_arrays (sess c)" "length (BN_bn2bin (rsa_n (sess c))) \<le> 128" and ctx: "length (buffer ctx) = 64"
    and ap: "resolve ''a6.spotify.com'' ''4070'' = Some ais" "try_addresses ais (ap_sock (sess c)) \<noteq> -1"
    and peer: "tx_q peer = Taken k1 # Taken k2 # es" "36 \<le> k2"
      "pending (rx_q peer) = hello_bytes h @ status # l # answer @ rest"
    and server: "hello_ok h" "length answer = unat l" "l \<noteq> 0"
    and secret: "dh (BN_bin2bn (h_pub h)) (dh_priv (sess c)) = Some z" "length z \<le> 96"
    and puzzle: "unat (h_puzzle h ! 1) < 31" "solves (after_hello (sess c) h) (puzzle_try rnd j)"
  defines "s0 \<equiv> session_auth_set (sess c) user pass"
  defines "msg \<equiv> initial_packet_bytes (s0\<lparr>rsa_pub_exp := store_at (rsa_pub_exp s0) 0 (BN_bn2bin (rsa_n s0))\<rparr>)"
  defines "K \<equiv> key_material (z @ drop (length z) (shared_key s0))
      (fips_sha1 (h_salt h @ [0x20] @ bytes_of (password s0))) (client_random_16 s0 @ h_random h)"
  assumes k1: "length msg \<le> k1"
  shows "\<exists>c' sol. despotify_authenticate srv_list resolve dh ctx rnd peer user pass ws t c =
      (if status = 0 then rbind (wait_login ws t c') (\<lambda>(_, ws, t, c). Inr (True, ws, t, c))
       else Inr (False, ws, t, c'\<lparr>d_last_error := Some ''Authentication failed. Wrong password?''\<rparr>)) \<and>
    wire (sock c') = wire peer @ msg @ rfc_hmac (take 20 K) (msg @ hello_bytes h @ login_tail sol) @ login_tail sol \<and>
    solves (after_hello (sess c) h) sol \<and> (status = 0 \<longrightarrow> pending (rx_q (sock c')) = rest) \<and>
    shn_send (sess c') = shn_key (shn_send (sess c)) (take 32 (drop 20 K)) \<and>
    shn_recv (sess c') = shn_key (shn_recv (sess c)) (take 32 (drop 52 K)) \<and>
    key_send_IV (sess c') = 0 \<and> key_recv_IV (sess c') = 0"
proof -
  have arr0: "session_arrays s0" unfolding s0_def using arr(1) by (rule auth_set_keeps)
  note keeps = auth_set_keeps(2-) [of "sess c" user pass, folded s0_def]
  obtain s1 where s1: "session_connect srv_list resolve s0 = Inr (0, s1)" "same_identity s0 s1" "session_arrays s1"
    using connected [where resolve = resolve, OF arr0 ap(1)] ap(2) keeps(2) by auto
  then have id: "rsa_n s1 = rsa_n s0" "rsa_pub_exp s1 = rsa_pub_exp s0" "dh_priv s1 = dh_priv s0" "password s1 = password s0"
    "shared_key s1 = shared_key s0" "client_random_16 s1 = client_random_16 s0" "shn_send s1 = shn_send s0"
    "shn_recv s1 = shn_recv s0"
    by (simp_all add: same_identity_def)
  have msg: "initial_packet_bytes (s1\<lparr>rsa_pub_exp := store_at (rsa_pub_exp s1) 0 (BN_bn2bin (rsa_n s1))\<rparr>) = msg"
    unfolding msg_def id(1,2) by (rule initial_packet_bytes_same [OF s1(2)])
  have rsa: "length (BN_bn2bin (rsa_n s1)) \<le> 128" using arr(2) id(1) keeps(3) by simp
  have k: "length (initial_packet_bytes (s1\<lparr>rsa_pub_exp := store_at (rsa_pub_exp s1) 0 (BN_bn2bin (rsa_n s1))\<rparr>)) \<le> k1"
    unfolding msg by (rule k1)
  from exchanged [OF s1(3) rsa server(1) peer(1,3) k, unfolded msg] obtain s2 n2 cp sp
    where ex: "do_key_exchange s1 peer = Inr (0, s2, n2)" "wire n2 = wire peer @ msg"
      "pending (rx_q n2) = status # l # answer @ rest" "tx_q n2 = Taken k2 # es"
      and kept: "init_client_packet s2 = Some cp" "init_server_packet s2 = Some sp" "buf_inv cp" "buf_inv sp"
      and bs: "buf_bytes cp = msg" "buf_bytes sp = hello_bytes h" and arr2: "session_arrays s2"
      and s2: "client_random_16 s2 = client_random_16 s1" "dh_priv s2 = dh_priv s1" "password s2 = password s1"
        "shared_key s2 = shared_key s1" "shn_send s2 = shn_send s1" "shn_recv s2 = shn_recv s1"
        "server_random_16 s2 = h_random h" "remote_pub_key s2 = h_pub h" "salt s2 = h_salt h"
        "puzzle_denominator s2 = h_puzzle h ! 1"
        "puzzle_magic s2 = get_u32 (h_puzzle h ! 2) (h_puzzle h ! 3) (h_puzzle h ! 4) (h_puzzle h ! 5)"
    by auto
  have "session_arrays (s0\<lparr>rsa_pub_exp := store_at (rsa_pub_exp s0) 0 (BN_bn2bin (rsa_n s0))\<rparr>)"
    using arr0 arr(2) keeps(3) by (simp add: session_arrays_def)
  then have "length msg < 1000" unfolding msg_def by (rule initial_bytes_short)
  then have small: "length (buf_bytes cp @ buf_bytes sp) < 2 ^ 28"
    using hello_bytes_short [OF server(1)] by (simp add: bs)
  have sv: "solves s2 sol = solves (after_hello (sess c) h) sol" for sol
    by (rule solves_only) (simp_all add: s2 after_hello_def after_fixed_def puzzle_taken_def)
  have sec: "dh (BN_bin2bn (remote_pub_key s2)) (dh_priv s2) = Some z"
    using secret(1) by (simp add: s2 id keeps)
  from puzzle have pz: "unat (puzzle_denominator s2) < 31" "solves s2 (puzzle_try rnd j)"
    by (simp_all add: s2(10) sv)
  have pw: "length (password s2) < 256" using keeps(1) by (simp add: s2 id)
  from keyed [where dh = dh, OF ctx arr2 pw kept small sec secret(2) pz ex(4) peer(2) ex(3) server(2,3)]
  obtain s3 s4 s5 n3 sol where run: "auth_generate_auth_hash ctx s2 = Inr s3" "key_init dh ctx s3 = Inr (0, s4)"
      "do_auth ctx rnd s4 n2 = Inr (if status = 0 then 0 else -1, s5, n3)" "solves s2 sol"
      "wire n3 = wire n2 @ rfc_hmac (take 20 K) (msg @ hello_bytes h @ login_tail sol) @ login_tail sol"
      "status = 0 \<longrightarrow> pending (rx_q n3) = rest" "shn_send s5 = shn_key (shn_send s2) (take 32 (drop 20 K))"
      "shn_recv s5 = shn_key (shn_recv s2) (take 32 (drop 52 K))" "key_send_IV s5 = 0" "key_recv_IV s5 = 0"
    unfolding bs s2 id K_def by auto
  have "login_exchange srv_list resolve dh ctx rnd peer user pass c = Inr (status = 0, if status = 0
      then c\<lparr>sess := s5, sock := n3\<rparr>
      else c\<lparr>sess := s5, sock := n3, d_last_error := Some ''Authentication failed. Wrong password?''\<rparr>)"
    unfolding login_exchange_def s0_def [symmetric] by (simp add: s1(1) ex(1) run fail_def)
  then show ?thesis
    using run(4-) sv ex(2) s2(5,6) id(7,8) keeps(7,8)
    by (intro exI [of _ "c\<lparr>sess := s5, sock := n3\<rparr>"] exI [of _ sol]) (simp add: despotify_authenticate_def)
qed

text \<open>A client with the RSA modulus 77, a server that asks for a puzzle any try solves.\<close>

definition plain_client :: client where
  "plain_client = client_of empty_disk \<lparr>sess = zero_session\<lparr>rsa_n := 77\<rparr>,
     sock = \<lparr>rx_q = [], tx_q = [], wire = []\<rparr>, login_cond = False\<rparr>"

definition plain_hello :: server_hello where
  "plain_hello = \<lparr>h_random = replicate 16 0, h_pub = replicate 96 0, h_blob = replicate 256 0,
    h_salt = replicate 10 0, h_pad = [42], h_name = [0x62], h_puzzle = [1, 0, 0, 0, 1, 2], h_more = [[], [], []]\<rparr>"

definition one_address :: "string \<Rightarrow> string \<Rightarrow> addrinfo list option" where
  "one_address host port = Some [\<lparr>ai_inet = True, ai_socket = 7, ai_connects = True\<rparr>]"

lemma plain_client_ok:
  "session_arrays (sess plain_client)" "length (BN_bn2bin (rsa_n (sess plain_client))) \<le> 128"
  "one_address ''a6.spotify.com'' ''4070'' = Some [\<lparr>ai_inet = True, ai_socket = 7, ai_connects = True\<rparr>]"
  "try_addresses [\<lparr>ai_inet = True, ai_socket = 7, ai_connects = True\<rparr>] (ap_sock (sess plain_client)) \<noteq> -1"
proof -
  have s: "sess plain_client = zero_session\<lparr>rsa_n := 77\<rparr>"
    by (simp add: plain_client_def client_of_def client.defs conn.defs)
  have "length (BN_bn2bin 77) \<le> 1" by (rule length_BN_bn2bin) simp
  then show "session_arrays (sess plain_client)" "length (BN_bn2bin (rsa_n (sess plain_client))) \<le> 128"
    using zero_session_arrays by (simp_all add: s session_arrays_def)
qed (simp_all add: one_address_def)

lemma plain_first_short:
  assumes "s0 = session_auth_set (sess plain_client) user pass"
  shows "length (initial_packet_bytes (s0\<lparr>rsa_pub_exp := store_at (rsa_pub_exp s0) 0 (BN_bn2bin (rsa_n s0))\<rparr>)) \<le> 1000"
proof -
  have "session_arrays s0" "rsa_n s0 = rsa_n (sess plain_client)"
    unfolding assms using auth_set_keeps plain_client_ok(1) by auto
  then have "session_arrays (s0\<lparr>rsa_pub_exp := store_at (rsa_pub_exp s0) 0 (BN_bn2bin (rsa_n s0))\<rparr>)"
    using plain_client_ok(2) by (simp add: session_arrays_def)
  then show ?thesis using initial_bytes_short by (metis less_imp_le)
qed

theorem login_meets_protocol_witness:
  "\<exists>c'. despotify_authenticate (\<lambda>_. None) one_address (\<lambda>_ _. Some [5]) some_ctx (\<lambda>k. int k)
     \<lparr>rx_q = [Chunk (hello_bytes plain_hello @ [1, 1, 9])], tx_q = [Taken 1000, Taken 36], wire = []\<rparr> ''b'' ''pw'' [] no_channels plain_client =
     Inr (False, [], no_channels, c') \<and> d_last_error c' = Some ''Authentication failed. Wrong password?''"
proof -
  let ?n = "\<lparr>rx_q = [Chunk (hello_bytes plain_hello @ [1, 1, 9])], tx_q = [Taken 1000, Taken 36], wire = []\<rparr>"
  have tx: "tx_q ?n = Taken 1000 # Taken 36 # []" by simp
  have rx: "pending (rx_q ?n) = hello_bytes plain_hello @ 1 # 1 # [9] @ []" by simp
  have ok: "hello_ok plain_hello" by (simp add: hello_ok_def plain_hello_def)
  have pz: "unat (h_puzzle plain_hello ! 1) < 31" by (simp add: plain_hello_def)
  have sol: "solves (after_hello (sess plain_client) plain_hello) (puzzle_try (\<lambda>k. int k) 0)"
    by (simp add: solves_def after_hello_def after_fixed_def puzzle_taken_def plain_hello_def)
  note login_meets_protocol [where dh = "\<lambda>_ _. Some [5]" and c = plain_client and user = "''b''" and pass = "''pw''"
      and srv_list = "\<lambda>_. None" and ws = "[]" and t = no_channels and resolve = one_address and z = "[5]" and ctx = some_ctx
      and peer = ?n and status = 1 and l = 1 and answer = "[9]" and rest = "[]" and ?k1.0 = 1000 and ?k2.0 = 36 and es = "[]"
      and rnd = "\<lambda>k. int k" and j = 0 and h = plain_hello, OF plain_client_ok(1,2) some_ctx_ok plain_client_ok(3,4)
      tx _ rx ok _ _ _ _ pz sol plain_first_short [OF refl]]
  then show ?thesis by fastforce
qed

text \<open>
  C27: The server refuses the user.  Whatever the second byte of its answer is, the login
  fails with the text for it, the client has sent its first packet and nothing derived from
  the password, and what follows the two bytes is not read.
\<close>

theorem login_refused:
  fixes c :: client and user pass :: string and srv_list :: "string \<Rightarrow> string option"
  assumes arr: "session_arrays (sess c)" "length (BN_bn2bin (rsa_n (sess c))) \<le> 128"
    and ap: "resolve ''a6.spotify.com'' ''4070'' = Some ais" "try_addresses ais (ap_sock (sess c)) \<noteq> -1"
    and peer: "tx_q peer = Taken k # es" "pending (rx_q peer) = [a, b] @ rest" "a \<noteq> 0"
  defines "s0 \<equiv> session_auth_set (sess c) user pass"
  defines "msg \<equiv> initial_packet_bytes (s0\<lparr>rsa_pub_exp := store_at (rsa_pub_exp s0) 0 (BN_bn2bin (rsa_n s0))\<rparr>)"
  assumes k: "length msg \<le> k"
  shows "\<exists>c'. despotify_authenticate srv_list resolve dh ctx rnd peer user pass ws t c = Inr (False, ws, t, c') \<and>
    d_last_error c' = Some (if b = 1 then ''Client upgrade required'' else if b = 3 then ''User not found''
      else if b = 4 then ''Account has been disabled'' else if b = 6 then ''You need to complete your account details''
      else if b = 9 then ''Account/use country mismatch'' else ''Key exchanged failed'') \<and>
    wire (sock c') = wire peer @ msg \<and> pending (rx_q (sock c')) = rest"
proof -
  have arr0: "session_arrays s0" unfolding s0_def using arr(1) by (rule auth_set_keeps)
  note keeps = auth_set_keeps(2-) [of "sess c" user pass, folded s0_def]
  obtain s1 where s1: "session_connect srv_list resolve s0 = Inr (0, s1)" "same_identity s0 s1" "session_arrays s1"
    using connected [where resolve = resolve, OF arr0 ap(1)] ap(2) keeps(2) by auto
  then have id: "rsa_n s1 = rsa_n s0" "rsa_pub_exp s1 = rsa_pub_exp s0" by (simp_all add: same_identity_def)
  let ?s1 = "s1\<lparr>rsa_pub_exp := store_at (rsa_pub_exp s1) 0 (BN_bn2bin (rsa_n s1))\<rparr>"
  have msg: "initial_packet_bytes ?s1 = msg"
    unfolding msg_def id by (rule initial_packet_bytes_same [OF s1(2)])
  have rsa: "length (BN_bn2bin (rsa_n s1)) \<le> 128" using arr(2) id(1) keeps(3) by simp
  obtain n1 cp where sent: "send_client_initial_packet s1 peer = Inr (0, ?s1\<lparr>init_client_packet := Some cp\<rparr>, n1)"
    "wire n1 = wire peer @ msg" "rx_q n1 = rx_q peer"
    using client_packet_sent [OF s1(3) rsa peer(1)] k unfolding msg by auto
  have arr1: "session_arrays (?s1\<lparr>init_client_packet := Some cp\<rparr>)" using s1(3) rsa by (simp add: session_arrays_def)
  have "pending (rx_q n1) = [a, b] @ rest" using sent(3) peer(2) by simp
  from refusal_reported [OF arr1 this peer(3)] obtain s' n'
    where r: "read_server_initial_packet (?s1\<lparr>init_client_packet := Some cp\<rparr>) n1 = Inr (refusal b, s', n')"
      "pending (rx_q n') = rest" "wire n' = wire n1" "refusal b < 0" by auto
  then have ex: "do_key_exchange s1 peer = Inr (refusal b, s', n')"
    unfolding do_key_exchange_def sent(1) by simp
  have shown: "exchange_error (refusal b) = (if b = 1 then ''Client upgrade required'' else if b = 3 then ''User not found''
      else if b = 4 then ''Account has been disabled'' else if b = 6 then ''You need to complete your account details''
      else if b = 9 then ''Account/use country mismatch'' else ''Key exchanged failed'')"
    by (simp add: exchange_error_def refusal_def)
  have "login_exchange srv_list resolve dh ctx rnd peer user pass c =
      fail (exchange_error (refusal b)) s' n' c"
    unfolding login_exchange_def s0_def [symmetric] using r(4) by (simp add: s1(1) ex)
  then show ?thesis
    using r sent(2) by (simp add: despotify_authenticate_def fail_def shown [symmetric])
qed

theorem login_refused_witness:
  "\<exists>c'. despotify_authenticate (\<lambda>_. None) one_address (\<lambda>_ _. None) some_ctx (\<lambda>k. int k)
     \<lparr>rx_q = [Chunk [255], Chunk [4, 9]], tx_q = [Taken 1000], wire = []\<rparr> ''b'' ''pw'' [] no_channels plain_client =
     Inr (False, [], no_channels, c') \<and> d_last_error c' = Some ''Account has been disabled'' \<and>
   pending (rx_q (sock c')) = [9]"
proof -
  let ?n = "\<lparr>rx_q = [Chunk [255], Chunk [4, 9]], tx_q = [Taken 1000], wire = []\<rparr>"
  have n: "tx_q ?n = Taken 1000 # []" "pending (rx_q ?n) = [255, 4] @ [9]" "(255 :: byte) \<noteq> 0" by simp_all
  note login_refused [where c = plain_client and user = "''b''" and pass = "''pw''" and srv_list = "\<lambda>_. None"
      and dh = "\<lambda>_ _. None" and ctx = some_ctx and rnd = int and ws = "[]" and t = no_channels and resolve = one_address,
      OF plain_client_ok n plain_first_short [OF refl]]
  then show ?thesis by auto
qed

text \<open>The network thread's turn, as a step of the script.\<close>

definition network_step :: "parser \<Rightarrow> table \<Rightarrow> client \<Rightarrow> (table \<times> client) result" where
  "network_step parse t c = rbind (thread_step parse ds_run t c) (\<lambda>(_, t, c). Inr (t, c))"

text \<open>
  C28: The welcome is a race.  The network thread is started before the login waits for it:
  if its packet is handled during the wait the login is complete, if it is handled before,
  the login never returns, although the same packet was handled.
\<close>

theorem welcome_must_come_late:
  assumes "packet_read (sess c) (sock c) = Inr (Some (CMD_WELCOME, len, p), s, n)"
  shows "wait_login (([], [network_step parse]) # ws) t c =
      Inr ((), ws, t, c\<lparr>sess := s, sock := n, login_cond := True\<rparr>) \<and>
    wait_login (([network_step parse], []) # ws) t c = Inl Blocked \<and>
    all_steps [network_step parse] t c = Inr (t, c\<lparr>sess := s, sock := n, login_cond := True\<rparr>)"
proof -
  have step: "network_step parse t (c\<lparr>login_cond := b\<rparr>) = Inr (t, c\<lparr>sess := s, sock := n, login_cond := True\<rparr>)" for b
    using assms by (simp add: network_step_def thread_step_def handle_packet_def command_bytes handle_welcome_def Let_def)
  have step': "network_step parse t c = Inr (t, c\<lparr>sess := s, sock := n, login_cond := True\<rparr>)"
    using assms by (simp add: network_step_def thread_step_def handle_packet_def command_bytes handle_welcome_def Let_def)
  show ?thesis by (simp add: wait_login_def step step')
qed

definition greeted :: client where
  "greeted = plain_client\<lparr>sock := \<lparr>rx_q = [Chunk (packet_bytes zero_session CMD_WELCOME [])], tx_q = [], wire = []\<rparr>\<rparr>"

theorem welcome_must_come_late_witness:
  "\<exists>c'. wait_login [([], [network_step (\<lambda>_. None)])] no_channels greeted = Inr ((), [], no_channels, c') \<and>
     wait_login [([network_step (\<lambda>_. None)], [])] no_channels greeted = Inl Blocked"
proof -
  have l: "length (packet_bytes zero_session CMD_WELCOME []) = 7"
    by (simp add: length_packet_bytes)
  have "in_step zero_session (sess greeted)"
    by (simp add: in_step_def greeted_def plain_client_def client_of_def client.defs conn.defs zero_session_def)
  moreover have "pending (rx_q (sock greeted)) = take (3 + length []) (packet_bytes zero_session CMD_WELCOME []) @
      drop 3 (packet_bytes zero_session CMD_WELCOME []) @ []"
    by (simp add: greeted_def)
  ultimately obtain s n p where "packet_read (sess greeted) (sock greeted) = Inr (Some (CMD_WELCOME, 0, p), s, n)"
    using packet_read_any_mac [of zero_session "sess greeted" "[]" "drop 3 (packet_bytes zero_session CMD_WELCOME [])"] l
    by fastforce
  from welcome_must_come_late [OF this] show ?thesis by blast
qed

end
