(* ===== verification/Answers.thy ===== *)
theory Answers
  imports Login
begin

text \<open>
  How \<^verbatim>\<open>src/src/lib/despotify.c\<close> gets the answer to a request: the callbacks collect it, the
  caller waits for it, \<open>despotify_inflate\<close> unpacks it.  zlib and the XML parser are parameters.

  Proved here: the collected answer does not depend on how it was cut into packets; the
  inflate loop ends and gives the whole text on every stream zlib can decode, whatever its
  size; and an answer that comes after its time is taken for the next one.
\<close>

section \<open>The libraries\<close>

text \<open>
  \<open>z_init\<close> is \<open>inflateInit2\<close> with the compressed bytes set as input; \<open>z_inflate z n\<close> is a call
  of \<open>inflate\<close> with room for \<open>n\<close> bytes: its result, what it wrote, the new state.
  \<open>frame_slack\<close> is how many bytes the compiler left unused behind a certain array, \<open>stack_ctx\<close> what
  a hash context on the stack holds before it is initialised.
\<close>

record 'z libs =
  parse_xml :: parser
  z_init :: "byte list \<Rightarrow> int \<times> 'z"
  z_inflate :: "'z \<Rightarrow> nat \<Rightarrow> int \<times> byte list \<times> 'z"
  frame_slack :: nat
  stack_ctx :: SHA1_CTX

section \<open>Unpacking\<close>

text \<open>
  The loop of \<open>despotify_inflate\<close>: \<open>Z_OK\<close> is 0, \<open>Z_STREAM_END\<close> is 1.  The inner \<open>None\<close> is the
  null pointer after an error; the loop need not end, and the doubled size, an \<open>int\<close>, can
  overflow.
\<close>

partial_function (option) inflate_loop ::
  "('z \<Rightarrow> nat \<Rightarrow> int \<times> byte list \<times> 'z) \<Rightarrow> 'z \<Rightarrow> buf \<Rightarrow> nat \<Rightarrow> buf option result option" where
  "inflate_loop inflate z b offset =
     (case inflate z (buf_size b - offset) of (rc, out, z) \<Rightarrow>
        let avail_out = buf_size b - offset - length out;
            b = b\<lparr>buf_ptr := store_at (buf_ptr b) offset (map Some out)\<rparr>
        in if rc = 0
           then (if avail_out = 0
                 then (case buf_extend_checked b (buf_size b * 2) of
                         Inl e \<Rightarrow> Some (Inl e)
                       | Inr b' \<Rightarrow> inflate_loop inflate z b' (buf_size b))
                 else inflate_loop inflate z b offset)
           else if rc = 1 then Some (Inr (Some (b\<lparr>buf_len := buf_size b - avail_out\<rparr>)))
           else Some (Inr None))"

definition despotify_inflate :: "'z libs \<Rightarrow> byte list \<Rightarrow> buf option result" where
  "despotify_inflate L data =
     (if data = [] then Inr None
      else case z_init L data of (rc, z) \<Rightarrow>
        if rc \<noteq> 0 then Inr None
        else (case inflate_loop (z_inflate L) z (buf_extend buf_new 4096) 0 of
          None \<Rightarrow> Inl Blocked
        | Some r \<Rightarrow> rbind r (\<lambda>ob.
            case ob of
              None \<Rightarrow> Inr None
            | Some b \<Rightarrow> rbind (buf_append_u8_checked b 0) (\<lambda>b. Inr (Some b)))))"

text \<open>\<open>despotify_inflate (ds->response->ptr, ds->response->len)\<close>: the text, if it could be unpacked.\<close>

definition inflated :: "'z libs \<Rightarrow> client \<Rightarrow> byte list option result" where
  "inflated L c =
     (case d_response c of
        None \<Rightarrow> Inl Null_Deref
      | Some b \<Rightarrow> rbind (despotify_inflate L (buf_bytes b)) (\<lambda>r. Inr (map_option buf_bytes r)))"

section \<open>Asking and waiting\<close>

definition network_error :: "client \<Rightarrow> client" where
  "network_error c = c\<lparr>d_last_error := Some ''Network error.'', sess := session_disconnect (sess c)\<rparr>"

text \<open>The two error exits every request has: \<open>ask\<close> sends it, \<open>late\<close> is the text for a timeout.\<close>

definition fetch ::
  "(table \<Rightarrow> client \<Rightarrow> (int \<times> table \<times> client) result) \<Rightarrow> string \<Rightarrow> waits \<Rightarrow> table \<Rightarrow> client \<Rightarrow> bool answered" where
  "fetch ask late ws t c =
     rbind (ask t c) (\<lambda>(error, t, c).
       if error \<noteq> 0 then Inr (False, ws, t, network_error c)
       else rbind (despotify_wait_timeout ws t c) (\<lambda>(ready, ws, t, c).
              if ready then Inr (True, ws, t, c)
              else Inr (False, ws, t, c\<lparr>d_last_error := Some late\<rparr>)))"

text \<open>\<open>if (ds->use_cache && cache_contains (id)) ... cache_load (id)\<close>.\<close>

definition cached :: "string \<Rightarrow> client \<Rightarrow> byte list option" where
  "cached i c = (if d_use_cache c \<and> cache_contains i (d_disk c) then cache_load i (d_disk c) else None)"

definition to_cache :: "bool \<Rightarrow> string \<Rightarrow> byte list \<Rightarrow> client \<Rightarrow> client" where
  "to_cache do_store i data c = (if do_store then c\<lparr>d_disk := cache_store i data (d_disk c)\<rparr> else c)"

section \<open>Images\<close>

text \<open>
  \<open>despotify_get_image\<close>: the bytes of the image.  The struct of the response is freed, its
  bytes are the result.
\<close>

definition despotify_get_image :: "string \<Rightarrow> waits \<Rightarrow> table \<Rightarrow> client \<Rightarrow> byte list option answered" where
  "despotify_get_image image_id ws t c =
     (if d_use_cache c \<and> cache_contains image_id (d_disk c)
      then Inr (cache_load image_id (d_disk c), ws, t, c)
      else rbind (hex_id image_id 20) (\<lambda>i.
        rbind (fetch (cmd_request_image i Plain_Callback) ''Timeout while loading image'' ws t
                 (c\<lparr>d_response := Some buf_new\<rparr>)) (\<lambda>(ok, ws, t, c).
          if \<not> ok then Inr (None, ws, t, c)
          else case d_response c of
            None \<Rightarrow> Inl Null_Deref
          | Some b \<Rightarrow>
              Inr (Some (buf_bytes b), ws, t,
                   (to_cache (d_use_cache c) image_id (buf_bytes b) c)\<lparr>d_response := None\<rparr>))))"

section \<open>The inflate loop\<close>

text \<open>
  What zlib documents of a stream it can decode: \<open>D z out\<close> says that from state \<open>z\<close> the bytes
  \<open>out\<close> are still to come.  A call writes as much as there is room for, and reports the end
  when everything was written.
\<close>

definition decodes :: "('z \<Rightarrow> nat \<Rightarrow> int \<times> byte list \<times> 'z) \<Rightarrow> ('z \<Rightarrow> byte list \<Rightarrow> bool) \<Rightarrow> bool" where
  "decodes inflate D \<longleftrightarrow>
     (\<forall>z out n rc w z'. D z out \<longrightarrow> 0 < n \<longrightarrow> inflate z n = (rc, w, z') \<longrightarrow>
        rc = 1 \<and> w = out \<and> length out \<le> n \<or>
        rc = 0 \<and> length w = n \<and> (\<exists>rest. out = w @ rest \<and> D z' rest))"

lemma inflate_loop_done:
  assumes "decodes inflate D" "D z out"
    and "length (buf_ptr b) = buf_size b" "START_SIZE \<le> buf_size b" "buf_len b = 0" "length front < buf_size b"
    and "take (length front) (buf_ptr b) = map Some front"
    and "buf_size b = 2 ^ e" "e \<le> 30" "length front + length out < 2 ^ 30"
  shows "\<exists>b'. inflate_loop inflate z b (length front) = Some (Inr (Some b')) \<and> buf_inv b' \<and> buf_bytes b' = front @ out"
  using assms
proof (induction "length out" arbitrary: z out b front e rule: less_induct)
  case less
  let ?n = "buf_size b - length front"
  obtain rc w z' where r: "inflate z ?n = (rc, w, z')" by (metis prod_cases3)
  from less.prems have n: "0 < ?n" by simp
  let ?b = "b\<lparr>buf_ptr := store_at (buf_ptr b) (length front) (map Some w)\<rparr>"
  consider "rc = 1" "w = out" "length out \<le> ?n"
    | rest where "rc = 0" "length w = ?n" "out = w @ rest" "D z' rest"
    using less.prems(1,2) r n unfolding decodes_def by blast
  then show ?case
  proof cases
    case 1
    let ?r = "?b\<lparr>buf_len := buf_size b - (?n - length w)\<rparr>"
    have len: "buf_size b - (?n - length w) = length front + length out" using 1 n by simp
    have run: "inflate_loop inflate z b (length front) = Some (Inr (Some ?r))"
      by (subst inflate_loop.simps) (simp add: r 1 Let_def)
    have st: "store_at (buf_ptr b) (length front) (map Some w) =
        map Some front @ map Some out @ drop (length front + length out) (buf_ptr b)"
      using less.prems(7) 1(2) by (simp add: store_at_def)
    have bl: "buf_len ?r = length (front @ out)" using len by simp
    have bp: "buf_ptr ?r = map Some (front @ out) @ drop (length front + length out) (buf_ptr b)"
      using st 1(2) by simp
    have all: "take (buf_len ?r) (buf_ptr ?r) = map Some (front @ out)" unfolding bl bp by simp
    have "length (buf_ptr ?r) = buf_size b" unfolding bp using less.prems(3,6) 1 by simp
    then have "buf_inv ?r" using less.prems(4) 1 n all by (auto simp: buf_inv_def)
    moreover have "buf_bytes ?r = front @ out" unfolding buf_bytes_def all by (simp add: o_def)
    ultimately show ?thesis using run by blast
  next
    case 2
    let ?b' = "buf_extend ?b (buf_size b * 2)"
    have st: "store_at (buf_ptr b) (length front) (map Some w) = map Some (front @ w)"
      using less.prems(3,6,7) 2(2) by (simp add: store_at_def)
    have flen: "length (front @ w) = buf_size b" using 2(2) n by simp
    have pos: "0 < buf_size b" using n by simp
    have gr: "grow (buf_size b) (buf_size b * 2) = buf_size b * 2" by (rule grow_twice [OF pos])
    have "buf_size b < 2 ^ 30" using flen 2(3) less.prems(10) by simp
    then have "(2 :: nat) ^ e < 2 ^ 30" by (simp add: less.prems(8))
    then have e: "e < 30" by (rule power_less_imp_less_exp [rotated]) simp
    have b': "?b' = \<lparr>buf_ptr = map Some (front @ w) @ replicate (buf_size b) None,
        buf_len = 0, buf_size = buf_size b * 2\<rparr>"
      using pos flen less.prems(5) by (simp add: buf_extend_def st gr Let_def)
    have "\<not> buf_overflows ?b (buf_size b * 2)"
      using \<open>buf_size b < 2 ^ 30\<close> less.prems(5) gr by (simp add: buf_overflows_def)
    then have run: "inflate_loop inflate z b (length front) = inflate_loop inflate z' ?b' (length (front @ w))"
      using 2 n by (subst inflate_loop.simps) (simp add: r buf_extend_checked_def Let_def)
    have "length rest < length out" using 2 n by simp
    moreover have "buf_size ?b' = 2 ^ Suc e" "Suc e \<le> 30" "length (front @ w) + length rest < 2 ^ 30"
      using e less.prems(8,10) 2(3) unfolding b' by simp_all
    moreover have "length (buf_ptr ?b') = buf_size ?b'" "START_SIZE \<le> buf_size ?b'" "buf_len ?b' = 0"
      "length (front @ w) < buf_size ?b'" "take (length (front @ w)) (buf_ptr ?b') = map Some (front @ w)"
      unfolding b' using flen pos less.prems(4) by auto
    ultimately obtain b'' where "inflate_loop inflate z' ?b' (length (front @ w)) = Some (Inr (Some b''))" "buf_inv b''"
      "buf_bytes b'' = (front @ w) @ rest"
      using less.hyps [OF _ less.prems(1) 2(4)] by blast
    then show ?thesis using 2(3) run by auto
  qed
qed

text \<open>A text of \<open>2 ^ 30\<close> bytes or more does not fit: either the doubling or the last byte overflows.\<close>

lemma inflate_loop_overflow:
  assumes "decodes inflate D" "D z out" "buf_len b = 0" "length (front :: byte list) < buf_size b"
    and "length (buf_ptr b) = buf_size b" "buf_size b = 2 ^ e" "e \<le> 30" "2 ^ 30 \<le> length front + length out"
  shows "inflate_loop inflate z b (length front) = Some (Inl Undefined) \<or>
    (\<exists>b'. inflate_loop inflate z b (length front) = Some (Inr (Some b')) \<and> buf_len b' = 2 ^ 30 \<and> buf_size b' = 2 ^ 30)"
  using assms
proof (induction "length out" arbitrary: z out b front e rule: less_induct)
  case less
  let ?n = "buf_size b - length front"
  obtain rc w z' where r: "inflate z ?n = (rc, w, z')" by (metis prod_cases3)
  from less.prems have n: "0 < ?n" by simp
  have big: "buf_size b \<le> 2 ^ 30" unfolding less.prems(6) using less.prems(7) by (intro power_increasing) simp_all
  let ?b = "b\<lparr>buf_ptr := store_at (buf_ptr b) (length front) (map Some w)\<rparr>"
  consider "rc = 1" "w = out" "length out \<le> ?n"
    | rest where "rc = 0" "length w = ?n" "out = w @ rest" "D z' rest"
    using less.prems(1,2) r n unfolding decodes_def by blast
  then show ?case
  proof cases
    case 1
    then have "buf_size b = 2 ^ 30" "length out = ?n" using less.prems(8) big n by linarith+
    then show ?thesis using 1 r by (subst (1 2) inflate_loop.simps) (simp add: Let_def)
  next
    case 2
    have pos: "0 < buf_size b" using n by simp
    have gr: "grow (buf_size b) (buf_size b * 2) = buf_size b * 2" by (rule grow_twice [OF pos])
    show ?thesis
    proof (cases "buf_size b = 2 ^ 30")
      case True
      then have "buf_overflows ?b (buf_size b * 2)" by (simp add: buf_overflows_def)
      then have "inflate_loop inflate z b (length front) = Some (Inl Undefined)"
        using 2 n by (subst inflate_loop.simps) (simp add: r buf_extend_checked_def Let_def)
      then show ?thesis by blast
    next
      case False
      then have small: "buf_size b < 2 ^ 30" using big by simp
      then have "(2 :: nat) ^ e < 2 ^ 30" by (simp add: less.prems(6))
      then have e: "e < 30" by (rule power_less_imp_less_exp [rotated]) simp
      let ?b' = "buf_extend ?b (buf_size b * 2)"
      have ln: "length (store_at (buf_ptr b) (length front) (map Some w)) = buf_size b"
        using less.prems(4,5) 2(2) by (simp add: store_at_def)
      have flen: "length (front @ w) = buf_size b" using 2(2) n by simp
      have b': "buf_len ?b' = 0" "buf_size ?b' = buf_size b * 2" "length (buf_ptr ?b') = buf_size b * 2"
        using pos less.prems(3) ln by (simp_all add: buf_extend_def gr Let_def)
      have "\<not> buf_overflows ?b (buf_size b * 2)" using small less.prems(3) gr by (simp add: buf_overflows_def)
      then have run: "inflate_loop inflate z b (length front) = inflate_loop inflate z' ?b' (length (front @ w))"
        using 2 n by (subst inflate_loop.simps) (simp add: r buf_extend_checked_def Let_def)
      have "length rest < length out" "length (front @ w) < buf_size ?b'" "length (buf_ptr ?b') = buf_size ?b'"
        "buf_size ?b' = 2 ^ Suc e" "Suc e \<le> 30" "2 ^ 30 \<le> length (front @ w) + length rest"
        unfolding b' using 2 n flen pos e less.prems(6,8) by simp_all
      from less.hyps [OF this(1) less.prems(1) 2(4) b'(1) this(2-)] run show ?thesis by simp
    qed
  qed
qed

lemma inflate_start:
  "buf_size (buf_extend buf_new 4096) = 2 ^ 12" "buf_len (buf_extend buf_new 4096) = 0"
  "length (buf_ptr (buf_extend buf_new 4096)) = buf_size (buf_extend buf_new 4096)"
proof -
  have "grow 512 4096 = 4096" by (simp add: grow.simps)
  then show "buf_size (buf_extend buf_new 4096) = 2 ^ 12" "buf_len (buf_extend buf_new 4096) = 0"
    "length (buf_ptr (buf_extend buf_new 4096)) = buf_size (buf_extend buf_new 4096)"
    by (simp_all add: buf_extend_def buf_new_def START_SIZE_def Let_def)
qed

lemma inflated_all:
  assumes "decodes (z_inflate L) D" "z_init L data = (0, z)" "D z out" "data \<noteq> []" "length out < 2 ^ 30"
  shows "\<exists>b. despotify_inflate L data = Inr (Some b) \<and> buf_inv b \<and> buf_bytes b = out @ [0]"
proof -
  let ?b = "buf_extend buf_new 4096"
  obtain b' where b': "inflate_loop (z_inflate L) z ?b 0 = Some (Inr (Some b'))" "buf_inv b'" "buf_bytes b' = out"
    using inflate_loop_done [OF assms(1,3), of ?b "[]" 12] inflate_start assms(5) by (auto simp: START_SIZE_def)
  then have "buf_append_u8_checked b' 0 = Inr (buf_append_u8 b' 0)"
    using assms(5) length_buf_bytes [OF b'(2)] by (intro buf_append_u8_in_range) simp_all
  then show ?thesis using assms(2,4) b' by (simp add: despotify_inflate_def)
qed

lemma inflated_too_long:
  assumes "decodes (z_inflate L) D" "z_init L data = (0, z)" "D z out" "data \<noteq> []" "2 ^ 30 \<le> length out"
  shows "despotify_inflate L data = Inl Undefined"
proof -
  let ?b = "buf_extend buf_new 4096"
  have "buf_append_u8_checked b' 0 = Inl Undefined" if "buf_len b' = 2 ^ 30" "buf_size b' = 2 ^ 30" for b'
  proof -
    have "2 ^ 31 \<le> grow (2 ^ 30) (2 ^ 30 + 1)" by (subst grow.simps, subst grow.simps) simp
    then show ?thesis using that by (simp add: buf_append_u8_checked_def buf_overflows_def)
  qed
  with inflate_loop_overflow [OF assms(1,3), of ?b "[]" 12] inflate_start assms(2,4,5)
  show ?thesis by (auto simp: despotify_inflate_def)
qed

section \<open>Collecting\<close>

lemma deliver_all_append:
  "deliver_all run i mac (ds @ es) t c = rbind (deliver_all run i mac ds t c) (\<lambda>(t, c). deliver_all run i mac es t c)"
  by (induction ds arbitrary: t c) (simp_all add: rbind_assoc split_def)

lemma unat_len16: "length d < 65536 \<Longrightarrow> unat (word_of_nat (length d) :: u16) = length d"
  by (rule unat_word_of_nat_u16)

text \<open>One packet with data: the callback runs, and the count goes up.\<close>

abbreviation counted :: "byte list \<Rightarrow> ds_callback channel \<Rightarrow> ds_callback channel" where
  "counted d \<equiv> (\<lambda>ch. ch\<lparr>ch_total_data_len := ch_total_data_len ch + word_of_nat (length d)\<rparr>)"

lemma deliver_some:
  assumes "find_ch i t = Some ch" "ch_state ch = CHANNEL_DATA" "0 \<le> i" "i < 65536" "d \<noteq> []" "length d + 2 < 65536"
    and "ds_run (ch_callback ch) ch d t c = Inr (r, t, c')"
  shows "deliver ds_run i mac d t c = Inr (r, upd_ch i (counted d) t, c') \<and>
    find_ch i (upd_ch i (counted d) t) = Some (counted d ch)"
proof -
  have fd: "find_ch i (upd_ch i (counted d) t) = Some (counted d ch)" using assms(1) by (simp add: find_ch_upd)
  have u: "unat (word_of_nat (length d) :: u16) = length d" using assms(6) by (intro unat_len16) simp
  then have nz: "(word_of_nat (length d) :: u16) \<noteq> 0" using assms(5) by (metis length_0_conv unat_0)
  have uc: "(ucast (word_of_nat (length d) :: u16) :: u32) = word_of_nat (length d)"
    using u by (metis of_nat_unat)
  have "process_data ds_run i (d @ mac) (word_of_nat (length d)) t c = Inr (r, upd_ch i (counted d) t, c')"
    using assms(1,2,7) nz u fd by (simp add: process_data_def uc Let_def)
  with fd show ?thesis using deliver_found [where run = ds_run and mac = mac and w = c, OF assms(1,3,4,6)] assms(2) by simp
qed

definition gzip_header :: "ds_callback \<Rightarrow> nat" where
  "gzip_header cb = (if cb = Gzip_Callback then 10 else 0)"

lemma collect_one:
  assumes "ch_state ch = CHANNEL_DATA" "cb \<in> {Plain_Callback, Gzip_Callback}"
    and "d_response c = Some b" "buf_inv b" "d \<noteq> []" "buf_len b + length d \<le> 2 ^ 30"
  shows "\<exists>b'. ds_run cb ch d t c = Inr (0, t, c\<lparr>d_response := Some b'\<rparr>) \<and> buf_inv b' \<and>
    buf_bytes b' = buf_bytes b @ drop (gzip_header cb - unat (ch_total_data_len ch)) d"
proof -
  have same: "c = c\<lparr>d_response := Some b\<rparr>" using assms(3) by simp
  have ten: "ch_total_data_len ch < 10 \<longleftrightarrow> unat (ch_total_data_len ch) < 10"
    by (simp add: word_less_nat_alt)
  show ?thesis
  proof (cases "cb = Plain_Callback")
    case True
    then show ?thesis using assms(1,3,4,6)
      by (intro exI [of _ "buf_append_data b d"])
        (simp add: ds_run_def despotify_plain_callback_def append_response_def buf_append_in_range gzip_header_def)
  next
    case False
    with assms(2) have g: "cb = Gzip_Callback" by simp
    let ?s = "gzip_header cb - unat (ch_total_data_len ch)"
    have run: "ds_run cb ch d t c = (if drop ?s d = [] then Inr (0, t, c)
        else rbind (append_response (drop ?s d) c) (\<lambda>c. Inr (0, t, c)))"
      using assms(1,5) ten
      by (auto simp: g ds_run_def despotify_gzip_callback_def gzip_header_def Let_def)
    show ?thesis
    proof (cases "drop ?s d = []")
      case True
      then show ?thesis using assms(4) run same by (intro exI [of _ b]) simp
    next
      case False
      then show ?thesis using assms(3,4,6) run
        by (intro exI [of _ "buf_append_data b (drop ?s d)"]) (simp add: append_response_def buf_append_in_range)
    qed
  qed
qed

lemma collect_all:
  assumes "find_ch i t = Some ch" "ch_state ch = CHANNEL_DATA" "ch_callback ch \<in> {Plain_Callback, Gzip_Callback}"
    and "d_response c = Some b" "buf_inv b" "table_ok t"
    and "\<forall>d \<in> set ds. d \<noteq> [] \<and> length d + 2 < 65536"
    and "unat (ch_total_data_len ch) + length (concat ds) < 2 ^ 32" "buf_len b + length (concat ds) \<le> 2 ^ 30"
    and "0 \<le> i" "i < 65536"
  shows "\<exists>t' b' ch'. deliver_all ds_run i mac ds t c = Inr (t', c\<lparr>d_response := Some b'\<rparr>) \<and> buf_inv b' \<and> table_ok t' \<and>
    buf_bytes b' = buf_bytes b @ drop (gzip_header (ch_callback ch) - unat (ch_total_data_len ch)) (concat ds) \<and>
    find_ch i t' = Some ch' \<and> ch_callback ch' = ch_callback ch \<and> ch_state ch' = CHANNEL_DATA \<and>
    (\<forall>j. j \<noteq> i \<longrightarrow> find_ch j t' = find_ch j t)"
  using assms
proof (induction ds arbitrary: t ch c b)
  case Nil
  have "c = c\<lparr>d_response := Some b\<rparr>" using Nil(4) by simp
  with Nil show ?case by (intro exI [of _ t] exI [of _ b] exI [of _ ch]) simp
next
  case (Cons d ds)
  let ?n = "unat (ch_total_data_len ch)" and ?h = "gzip_header (ch_callback ch)"
  have d: "d \<noteq> []" "length d + 2 < 65536" using Cons.prems(7) by simp_all
  obtain b1 where b1: "ds_run (ch_callback ch) ch d t c = Inr (0, t, c\<lparr>d_response := Some b1\<rparr>)" "buf_inv b1"
    "buf_bytes b1 = buf_bytes b @ drop (?h - ?n) d"
    using collect_one [OF Cons.prems(2-5) d(1), of t] Cons.prems(9) by auto
  note step = deliver_some [OF Cons.prems(1,2,10,11) d b1(1), of mac]
  have "buf_len b1 \<le> buf_len b + length d"
    using length_buf_bytes [OF b1(2)] length_buf_bytes [OF Cons.prems(5)] unfolding b1(3) by simp
  then have room: "buf_len b1 + length (concat ds) \<le> 2 ^ 30" using Cons.prems(9) by simp
  have n: "unat (ch_total_data_len (counted d ch)) = ?n + length d"
    using Cons.prems(8) by (simp add: unat_word_ariths unat_of_nat)
  have "table_ok (upd_ch i (counted d) t)" using Cons.prems(6) by simp
  with Cons.IH [OF conjunct2 [OF step], of "c\<lparr>d_response := Some b1\<rparr>" b1] Cons.prems b1(2) n room
  obtain t' b' ch' where rest: "deliver_all ds_run i mac ds (upd_ch i (counted d) t) (c\<lparr>d_response := Some b1\<rparr>) = Inr (t', c\<lparr>d_response := Some b'\<rparr>)"
    "buf_inv b'" "table_ok t'" "buf_bytes b' = buf_bytes b1 @ drop (?h - (?n + length d)) (concat ds)"
    "find_ch i t' = Some ch'" "ch_callback ch' = ch_callback ch" "ch_state ch' = CHANNEL_DATA"
    "\<forall>j. j \<noteq> i \<longrightarrow> find_ch j t' = find_ch j t"
    by (auto simp: find_ch_upd)
  have "drop (?h - ?n) d @ drop (?h - (?n + length d)) (concat ds) = drop (?h - ?n) (concat (d # ds))"
    by simp
  then have bytes: "buf_bytes b' = buf_bytes b @ drop (?h - ?n) (concat (d # ds))"
    unfolding rest(4) b1(3) by simp
  have "deliver_all ds_run i mac (d # ds) t c = Inr (t', c\<lparr>d_response := Some b'\<rparr>)"
    using step rest(1) by simp
  with rest bytes show ?case by blast
qed

text \<open>The empty packet that ends a channel.\<close>

lemma collect_end:
  assumes "find_ch i t = Some ch" "ch_callback ch \<in> {Plain_Callback, Gzip_Callback}" "table_ok t"
    and "ch_state ch = CHANNEL_DATA" "0 \<le> i" "i < 65536"
  shows "\<exists>t'. deliver ds_run i mac [] t c = Inr (0, t', c\<lparr>d_synced := d_synced c + 1\<rparr>) \<and> table_ok t' \<and> find_ch i t' = None \<and>
    (\<forall>j. j \<noteq> i \<longrightarrow> find_ch j t' = find_ch j t)"
proof -
  let ?f = "\<lambda>c :: ds_callback channel. c\<lparr>ch_state := CHANNEL_END\<rparr>"
  let ?g = "\<lambda>c :: ds_callback channel. c\<lparr>ch_total_data_len := ch_total_data_len c + ucast (0 :: u16)\<rparr>"
  let ?t = "upd_ch i ?g (upd_ch i ?f t)"
  have f1: "find_ch i (upd_ch i ?f t) = Some (?f ch)" using assms(1) by (simp add: find_ch_upd)
  have f2: "find_ch i ?t = Some (?g (?f ch))" using f1 by (simp add: find_ch_upd)
  have run: "ds_run (ch_callback ch) (?f ch) [] u c = Inr (0, u, c\<lparr>d_synced := d_synced c + 1\<rparr>)" for u
    using assms(2) by (auto simp: ds_run_def despotify_plain_callback_def despotify_gzip_callback_def tell_done_def)
  have ok: "table_ok ?t" using assms(3) by simp
  obtain t' where t': "channel_unregister i ?t = Inr t'" "table_ok t'" "find_ch i t' = None"
    "\<forall>j. j \<noteq> i \<longrightarrow> find_ch j t' = find_ch j ?t"
    using unregister_found [OF ok f2] by blast
  have "process_data ds_run i mac 0 t c = Inr (0, t', c\<lparr>d_synced := d_synced c + 1\<rparr>)"
    using f1 f2 run t'(1) by (simp add: process_data_def Let_def)
  moreover have "deliver ds_run i mac [] t c = process_data ds_run i mac 0 t c"
    using deliver_found [where run = ds_run and mac = mac and w = c and body = "[]", OF assms(1,5,6)] assms(4) by simp
  ultimately show ?thesis using t'(2-) by (simp add: find_ch_upd)
qed

text \<open>
  What a server answers: packets with the headers, the data, and an empty one, each with a MAC
  behind it.  The data are fewer than \<open>2 ^ 30 - 1000\<close> bytes: the response is counted in an
  \<open>int\<close>, and may begin with a text of the client's.
\<close>

definition answer_packets :: "byte list list \<Rightarrow> byte list list \<Rightarrow> byte list list" where
  "answer_packets hs ds = (concat (map hdr hs) @ put_u16 0) # ds @ [[]]"

definition packets_ok :: "byte list list \<Rightarrow> byte list list \<Rightarrow> bool" where
  "packets_ok hs ds \<longleftrightarrow>
     (\<forall>h \<in> set hs. h \<noteq> []) \<and> length (concat (map hdr hs)) + 4 < 65536 \<and>
     (\<forall>d \<in> set ds. d \<noteq> [] \<and> length d + 2 < 65536) \<and> length (concat ds) + 1000 < 2 ^ 30"

lemma quiet_collectors: "cb \<in> {Plain_Callback, Gzip_Callback} \<Longrightarrow> quiet_headers ds_run cb (\<lambda>e c. c)"
  by (auto simp: quiet_headers_def ds_run_def despotify_plain_callback_def despotify_gzip_callback_def)

lemma fold_keep: "fold (\<lambda>e c. c) es c = c"
  by (induction es) simp_all

lemma answer_collected_run:
  assumes "find_ch i t = Some ch" "ch_state ch = CHANNEL_HEADER" "ch_callback ch \<in> {Plain_Callback, Gzip_Callback}"
    and "ch_total_data_len ch = 0" "d_response c = Some b" "buf_inv b" "table_ok t"
    and "packets_ok hs ds" "0 \<le> i" "i < 65536" "buf_len b + length (concat ds) \<le> 2 ^ 30"
  shows "\<exists>t' b'. deliver_all ds_run i mac (answer_packets hs ds) t c =
      Inr (t', c\<lparr>d_response := Some b', d_synced := d_synced c + 1\<rparr>) \<and> buf_inv b' \<and> table_ok t' \<and>
    find_ch i t' = None \<and> (\<forall>j. j \<noteq> i \<longrightarrow> find_ch j t' = find_ch j t) \<and>
    buf_bytes b' = buf_bytes b @ (if ch_callback ch = Gzip_Callback then drop 10 (concat ds) else concat ds)"
proof -
  have hs: "\<forall>h \<in> set hs. h \<noteq> []" "length (concat (map hdr hs)) + 4 < 65536"
    and ds: "\<forall>d \<in> set ds. d \<noteq> [] \<and> length d + 2 < 65536" "length (concat ds) < 2 ^ 32"
    using assms(8) by (simp_all add: packets_ok_def)
  from deliver_headers_by [OF quiet_collectors [OF assms(3)] assms(1,2,9,10) hs, of mac c] obtain t0 c0
    where h: "deliver ds_run i mac (concat (map hdr hs) @ put_u16 0) t c = Inr (0, t0, c)"
      and n: "now i c0 t t0" and c0: "ch_state c0 = CHANNEL_DATA" "ch_callback c0 = ch_callback ch" "ch_total_data_len c0 = 0"
    using assms(4) by (auto simp: fold_keep)
  have f0: "find_ch i t0 = Some c0" and other: "\<forall>j. j \<noteq> i \<longrightarrow> find_ch j t0 = find_ch j t"
    using n by (simp_all add: now_def)
  have ok0: "table_ok t0" using client.process_ok [OF h [unfolded deliver_def] assms(7)] by simp
  have cb0: "ch_callback c0 \<in> {Plain_Callback, Gzip_Callback}" using assms(3) c0(2) by simp
  have len0: "unat (ch_total_data_len c0) + length (concat ds) < 2 ^ 32" using c0(3) ds(2) by simp
  from collect_all [OF f0 c0(1) cb0 assms(5,6) ok0 ds(1) len0 assms(11,9,10), of mac] obtain t1 b' ch'
    where run: "deliver_all ds_run i mac ds t0 c = Inr (t1, c\<lparr>d_response := Some b'\<rparr>)" "buf_inv b'" "table_ok t1"
      "buf_bytes b' = buf_bytes b @ drop (gzip_header (ch_callback ch)) (concat ds)"
      "find_ch i t1 = Some ch'" "ch_callback ch' = ch_callback ch" "ch_state ch' = CHANNEL_DATA"
      "\<forall>j. j \<noteq> i \<longrightarrow> find_ch j t1 = find_ch j t0"
    using c0 by auto
  have cb1: "ch_callback ch' \<in> {Plain_Callback, Gzip_Callback}" using assms(3) run(6) by simp
  from collect_end [OF run(5) cb1 run(3,7) assms(9,10), of mac "c\<lparr>d_response := Some b'\<rparr>"]
  obtain t' where "deliver ds_run i mac [] t1 (c\<lparr>d_response := Some b'\<rparr>) =
      Inr (0, t', c\<lparr>d_response := Some b', d_synced := d_synced c + 1\<rparr>)" "table_ok t'" "find_ch i t' = None"
      "\<forall>j. j \<noteq> i \<longrightarrow> find_ch j t' = find_ch j t1"
    by auto
  with run h other show ?thesis
    by (intro exI [of _ t'] exI [of _ b']) (simp add: gzip_header_def deliver_all_append answer_packets_def)
qed

text \<open>The network thread handles an answer, as a step of the script.\<close>

definition handled :: "int \<Rightarrow> byte list \<Rightarrow> byte list list \<Rightarrow> byte list list \<Rightarrow> table \<Rightarrow> client \<Rightarrow> (table \<times> client) result" where
  "handled i mac hs ds t c = deliver_all ds_run i mac (answer_packets hs ds) t c"

text \<open>A request that is answered in time.\<close>

lemma wait_answered:
  assumes req: "request_ok req" "table_ok t" "run_request req cb t (c :: client) = Inr (0, t1, c1)"
    and cb: "cb \<in> {Plain_Callback, Gzip_Callback}" "first_state req = CHANNEL_HEADER"
    and b: "d_response c = Some b" "buf_inv b" "buf_len b \<le> 1000" and i: "i = next_channel_id t" "i < 65536"
    and answer: "packets_ok hs ds"
  shows "\<exists>t' s n b'. despotify_wait_timeout (([], [handled i mac hs ds]) # ws) t1 c1 =
      Inr (True, ws, t', c\<lparr>sess := s, sock := n, d_response := Some b', d_synced := d_synced c + 1\<rparr>) \<and>
    buf_inv b' \<and> table_ok t' \<and> (\<forall>j. find_ch j t' = find_ch j t) \<and>
    buf_bytes b' = buf_bytes b @ (if cb = Gzip_Callback then drop 10 (concat ds) else concat ds) \<and>
    wire n = wire (sock c) @ packet_bytes (sess c) (request_cmd req) (request_payload req (word_of_int i))"
proof -
  note res = run_request_result [OF req, folded i(1)]
  obtain ch where ch: "find_ch i t1 = Some ch" "ch_callback ch = cb" "ch_state ch = CHANNEL_HEADER" "ch_total_data_len ch = 0"
    using res(6) cb(2) by auto
  obtain s n where c1: "c1 = c\<lparr>sess := s, sock := n\<rparr>" using res(8) by blast
  have out: "wire n = wire (sock c) @ packet_bytes (sess c) (request_cmd req) (request_payload req (word_of_int i))"
    using res(5) by (simp add: c1)
  have room: "buf_len b + length (concat ds) \<le> 2 ^ 30" using b(3) answer by (simp add: packets_ok_def)
  have i0: "0 \<le> i" "find_ch i t = None"
    using req(2) i(1) by (auto simp: table_ok_def find_ch_None ids_def)
  have cb': "ch_callback ch \<in> {Plain_Callback, Gzip_Callback}" and r: "d_response c1 = Some b"
    using cb(1) ch(2) b(1) by (simp_all add: c1)
  from answer_collected_run [OF ch(1,3) cb' ch(4) r b(2) res(1) answer i0(1) i(2) room, of mac] ch(2) obtain t' b'
    where run: "handled i mac hs ds t1 c1 = Inr (t', c1\<lparr>d_response := Some b', d_synced := d_synced c1 + 1\<rparr>)"
      "buf_inv b'" "table_ok t'" "find_ch i t' = None" "\<forall>j. j \<noteq> i \<longrightarrow> find_ch j t' = find_ch j t1"
      "buf_bytes b' = buf_bytes b @ (if cb = Gzip_Callback then drop 10 (concat ds) else concat ds)"
    unfolding handled_def by auto
  have "find_ch j t' = find_ch j t" for j using run(4,5) res(2) i0(2) by (cases "j = i") auto
  moreover have "despotify_wait_timeout (([], [handled i mac hs ds]) # ws) t1 c1 =
      Inr (True, ws, t', c\<lparr>sess := s, sock := n, d_response := Some b', d_synced := d_synced c + 1\<rparr>)"
    using run(1) by (simp add: despotify_wait_timeout_def c1 Let_def)
  ultimately show ?thesis using run(2,3,6) out by blast
qed

lemma fetch_answered:
  assumes req: "request_ok req" "table_ok t" "run_request req cb t (c :: client) = Inr (0, t1, c1)"
    and cb: "cb \<in> {Plain_Callback, Gzip_Callback}" "first_state req = CHANNEL_HEADER"
    and b: "d_response c = Some b" "buf_inv b" "buf_len b \<le> 1000" and i: "i = next_channel_id t" "i < 65536"
    and answer: "packets_ok hs ds"
  shows "\<exists>t' s n b'. fetch (run_request req cb) late (([], [handled i mac hs ds]) # ws) t c =
      Inr (True, ws, t', c\<lparr>sess := s, sock := n, d_response := Some b', d_synced := d_synced c + 1\<rparr>) \<and>
    buf_inv b' \<and> table_ok t' \<and> (\<forall>j. find_ch j t' = find_ch j t) \<and>
    buf_bytes b' = buf_bytes b @ (if cb = Gzip_Callback then drop 10 (concat ds) else concat ds) \<and>
    wire n = wire (sock c) @ packet_bytes (sess c) (request_cmd req) (request_payload req (word_of_int i))"
proof -
  obtain t' s n b' where w: "despotify_wait_timeout (([], [handled i mac hs ds]) # ws) t1 c1 =
      Inr (True, ws, t', c\<lparr>sess := s, sock := n, d_response := Some b', d_synced := d_synced c + 1\<rparr>)"
    and rest: "buf_inv b'" "table_ok t'" "\<forall>j. find_ch j t' = find_ch j t"
      "buf_bytes b' = buf_bytes b @ (if cb = Gzip_Callback then drop 10 (concat ds) else concat ds)"
      "wire n = wire (sock c) @ packet_bytes (sess c) (request_cmd req) (request_payload req (word_of_int i))"
    using wait_answered [OF assms, of mac ws] by blast
  have "fetch (run_request req cb) late (([], [handled i mac hs ds]) # ws) t c =
      Inr (True, ws, t', c\<lparr>sess := s, sock := n, d_response := Some b', d_synced := d_synced c + 1\<rparr>)"
    by (simp add: fetch_def req(3) w)
  with rest show ?thesis by blast
qed

lemma hex_ascii_to_bytes_loop_length:
  "hex_ascii_to_bytes_loop ascii i n bytes = Inr (bs, True) \<Longrightarrow> length bs = length bytes + n"
  by (induction n arbitrary: i bytes) (auto split: if_splits option.splits)

lemma hex_id_length: "hex_id ascii n = Inr bs \<Longrightarrow> length bs = n"
  by (auto simp: hex_id_def hex_ascii_to_bytes_def rbind_Inr_iff dest!: hex_ascii_to_bytes_loop_length split: if_splits)

section \<open>Properties\<close>

text \<open>
  C17: Answers are collected whole.  However the answer is cut into packets, when the empty packet
  has ended the channel the response has grown by exactly its bytes, without the ten bytes of
  the gzip header for a compressed one, the waiting caller is signalled once, the channel is
  gone and no other channel has changed.  Response and answer together have at most
  \<open>2 ^ 30\<close> bytes, beyond which the \<open>int\<close> size of the buffer overflows.
\<close>

theorem answer_collected:
  assumes "find_ch i t = Some ch" "ch_state ch = CHANNEL_HEADER" "ch_callback ch \<in> {Plain_Callback, Gzip_Callback}"
    and "ch_total_data_len ch = 0" "d_response c = Some b" "buf_inv b" "table_ok t"
    and "packets_ok hs ds" "0 \<le> i" "i < 65536" "buf_len b + length (concat ds) \<le> 2 ^ 30"
  shows "\<exists>t' b'. deliver_all ds_run i mac (answer_packets hs ds) t c =
      Inr (t', c\<lparr>d_response := Some b', d_synced := d_synced c + 1\<rparr>) \<and> buf_inv b' \<and> table_ok t' \<and>
    find_ch i t' = None \<and> (\<forall>j. j \<noteq> i \<longrightarrow> find_ch j t' = find_ch j t) \<and>
    buf_bytes b' = buf_bytes b @ (if ch_callback ch = Gzip_Callback then drop 10 (concat ds) else concat ds)"
  using answer_collected_run [OF assms] .

definition collecting :: "ds_callback \<Rightarrow> ds_callback channel" where
  "collecting cb = \<lparr>ch_id = 3, ch_header_id = 0, ch_state = CHANNEL_HEADER, ch_total_header_len = 0,
     ch_total_data_len = 0, ch_name = [], ch_callback = cb\<rparr>"

definition one_channel :: "ds_callback \<Rightarrow> table" where
  "one_channel cb = \<lparr>head = [collecting cb], next_channel_id = 4\<rparr>"

lemma one_channel_ok:
  "find_ch 3 (one_channel cb) = Some (collecting cb)" "ch_state (collecting cb) = CHANNEL_HEADER"
  "ch_total_data_len (collecting cb) = 0" "table_ok (one_channel cb)" "ch_callback (collecting cb) = cb"
  by (simp_all add: one_channel_def collecting_def find_ch_def table_ok_def)

theorem answer_collected_witness:
  "\<exists>t' b'. deliver_all ds_run 3 [0, 0, 0, 0] (answer_packets [[1]] [replicate 7 0, [1, 2, 3, 4, 5], [6]])
      (one_channel Gzip_Callback) (plain_client\<lparr>d_response := Some buf_new\<rparr>) =
      Inr (t', plain_client\<lparr>d_response := Some b', d_synced := d_synced plain_client + 1\<rparr>) \<and> buf_bytes b' = [4, 5, 6]"
  using answer_collected [OF one_channel_ok(1,2), of Gzip_Callback "plain_client\<lparr>d_response := Some buf_new\<rparr>" buf_new
      "[[1]]" "[replicate 7 0, [1, 2, 3, 4, 5], [6]]" "[0, 0, 0, 0]"] one_channel_ok [of Gzip_Callback]
  by (auto simp: packets_ok_def)

text \<open>
  C18: Unpacking.  For every stream that zlib can decode to fewer than \<open>2 ^ 30\<close> bytes the loop
  ends and \<open>despotify_inflate\<close> returns the whole text with a NUL behind it; a text of
  \<open>2 ^ 30\<close> bytes or more always makes the doubled size of the buffer, a C \<open>int\<close>, overflow.
\<close>

theorem inflate_gives_all:
  assumes "decodes (z_inflate L) D" "z_init L data = (0, z)" "D z out" "data \<noteq> []"
  shows "if length out < 2 ^ 30
    then \<exists>b. despotify_inflate L data = Inr (Some b) \<and> buf_inv b \<and> buf_bytes b = out @ [0]
    else despotify_inflate L data = Inl Undefined"
  using inflated_all [OF assms] inflated_too_long [OF assms] by (cases "length out < 2 ^ 30") simp_all

text \<open>A codec that stores its input, and a parser that reads nothing.\<close>

definition stored :: "byte list libs" where
  "stored = \<lparr>parse_xml = (\<lambda>_. None), z_init = (\<lambda>d. (0, d)),
     z_inflate = (\<lambda>z n. if length z \<le> n then (1, z, []) else (0, take n z, drop n z)), frame_slack = 8,
     stack_ctx = some_ctx\<rparr>"

lemma stored_decodes: "decodes (z_inflate stored) (=)"
  by (auto simp: decodes_def stored_def split: if_splits)

theorem inflate_gives_all_witness:
  "\<exists>b. despotify_inflate stored (replicate 10000 1) = Inr (Some b) \<and> buf_bytes b = replicate 10000 1 @ [0]"
  using inflate_gives_all [OF stored_decodes, of "replicate 10000 1" "replicate 10000 1" "replicate 10000 1"]
  by (auto simp: stored_def)

text \<open>
  C8: An image, from the request to the cache.  If the request goes out and the server's packets
  are handled while the client waits, \<open>despotify_get_image\<close> returns exactly the bytes the server
  sent, and the channel table is as before.  With the cache in use and room on the disk, asking
  again returns the same bytes, without any packet and without changing anything.
\<close>

theorem image_fetched:
  assumes miss: "\<not> (d_use_cache c \<and> cache_contains image_id (d_disk c))" and i: "hex_id image_id 20 = Inr h"
    and sent: "cmd_request_image h Plain_Callback t (c\<lparr>d_response := Some buf_new\<rparr>) = Inr (0, t1, c1)"
    and table: "table_ok t" "k = next_channel_id t" "k < 65536" and answer: "packets_ok hs ds"
  shows "\<exists>t' c'. despotify_get_image image_id (([], [handled k mac hs ds]) # ws) t c = Inr (Some (concat ds), ws, t', c') \<and>
    (\<forall>j. find_ch j t' = find_ch j t) \<and>
    (d_use_cache c \<and> storable (d_disk c) image_id (length (concat ds)) \<longrightarrow>
       (\<forall>ws2 t2. despotify_get_image image_id ws2 t2 c' = Inr (Some (concat ds), ws2, t2, c')))"
proof -
  have "length h = 20" using i by (rule hex_id_length)
  then have ok: "request_ok (Image h)" by simp
  have run: "run_request (Image h) Plain_Callback t (c\<lparr>d_response := Some buf_new\<rparr>) = Inr (0, t1, c1)"
    using sent by simp
  from fetch_answered [OF ok table(1) run _ _ _ _ _ table(2,3) answer, of buf_new "''Timeout while loading image''" mac ws]
  obtain t' s n b' where f: "fetch (run_request (Image h) Plain_Callback) ''Timeout while loading image''
      (([], [handled k mac hs ds]) # ws) t (c\<lparr>d_response := Some buf_new\<rparr>) =
      Inr (True, ws, t', c\<lparr>sess := s, sock := n, d_response := Some b', d_synced := d_synced c + 1\<rparr>)"
    "buf_bytes b' = concat ds" "\<forall>j. find_ch j t' = find_ch j t"
    by (auto simp: first_state_def)
  let ?c' = "(to_cache (d_use_cache c) image_id (concat ds) (c\<lparr>sess := s, sock := n, d_response := Some b',
      d_synced := d_synced c + 1\<rparr>))\<lparr>d_response := None\<rparr>"
  have "despotify_get_image image_id (([], [handled k mac hs ds]) # ws) t c = Inr (Some (concat ds), ws, t', ?c')"
    using miss f(1) unfolding despotify_get_image_def i run_request.simps by (simp add: f(2))
  moreover have "despotify_get_image image_id ws2 t2 ?c' = Inr (Some (concat ds), ws2, t2, ?c')"
    if "d_use_cache c \<and> storable (d_disk c) image_id (length (concat ds))" for ws2 t2
    using that by (simp add: despotify_get_image_def to_cache_def cache.load_store cache.contains_store)
  ultimately show ?thesis using f(3) by blast
qed

text \<open>A client whose socket takes one long packet.\<close>

definition sending :: "client \<Rightarrow> client" where
  "sending c = c\<lparr>sock := \<lparr>rx_q = [], tx_q = [Taken 65000], wire = []\<rparr>\<rparr>"

lemma sending_sends:
  assumes "length body < 60000" "sock c = \<lparr>rx_q = [], tx_q = [Taken 65000], wire = []\<rparr>"
  shows "\<exists>c'. send_payload cmd body t (c :: client) = Inr (0, t, c')"
proof -
  have "packet_write (sess c) \<lparr>rx_q = [], tx_q = [Taken 65000], wire = []\<rparr> cmd (Some body)
      (word_of_nat (length body)) = Inr (0, sent_state (sess c) cmd body,
      \<lparr>rx_q = [], tx_q = [Taken 65000], wire = []\<rparr>\<lparr>tx_q := [], wire := [] @ packet_bytes (sess c) cmd body\<rparr>)"
    using packet_write_taken [of body "\<lparr>rx_q = [], tx_q = [Taken 65000], wire = []\<rparr>" 65000 "[]" "sess c" cmd]
      assms(1) by simp
  then show ?thesis using assms(2) by (simp add: send_payload_def)
qed

lemma sending_request:
  assumes "request_ok req" "\<forall>i. length (request_payload req i) < 60000"
    "sock c = \<lparr>rx_q = [], tx_q = [Taken 65000], wire = []\<rparr>"
  shows "\<exists>t' c'. run_request req cb t (c :: client) = Inr (0, t', c')"
proof -
  obtain ch t1 where r: "channel_register (Some (request_name req)) cb t = (ch, t1)" by fastforce
  obtain c' where "send_payload (request_cmd req) (request_payload req (word_of_int (ch_id ch)))
      (upd_ch (ch_id ch) (start_state req) t1) c = Inr (0, upd_ch (ch_id ch) (start_state req) t1, c')"
    using sending_sends [OF assms(2) [rule_format] assms(3)] by blast
  then show ?thesis unfolding run_request_shape [OF assms(1) r] finish_request_def by simp
qed

definition zero_image :: string where
  "zero_image = replicate 40 (CHR ''0'')"

lemma zero_image_id: "hex_id zero_image 20 = Inr (replicate 20 0)"
  by code_simp

lemma zero_image_request:
  "\<exists>t' c'. cmd_request_image (replicate 20 0) cb t ((sending c)\<lparr>d_response := Some buf_new\<rparr>) = Inr (0, t', c')"
  using sending_request [of "Image (replicate 20 0)" "(sending c)\<lparr>d_response := Some buf_new\<rparr>" cb t]
  by (simp add: sending_def)

theorem image_fetched_witness:
  "\<exists>t' c'. despotify_get_image zero_image [([], [handled 0 [0, 0, 0, 0] [] [[1, 2], [3]]])] no_channels
      (sending (plain_client\<lparr>d_use_cache := True\<rparr>)) = Inr (Some [1, 2, 3], [], t', c') \<and>
     despotify_get_image zero_image [] no_channels c' = Inr (Some [1, 2, 3], [], no_channels, c')"
proof -
  let ?c = "sending (plain_client\<lparr>d_use_cache := True\<rparr>)"
  have d: "d_disk ?c = empty_disk" by (simp add: sending_def plain_client_def client_of_def client.defs conn.defs)
  have miss: "\<not> (d_use_cache ?c \<and> cache_contains zero_image (d_disk ?c))"
    by (simp add: d cache_contains_def empty_disk_def)
  obtain t1 c1 where "cmd_request_image (replicate 20 0) Plain_Callback no_channels (?c\<lparr>d_response := Some buf_new\<rparr>) = Inr (0, t1, c1)"
    using zero_image_request [of Plain_Callback no_channels "plain_client\<lparr>d_use_cache := True\<rparr>"] by (auto simp: sending_def)
  note r = image_fetched [OF miss zero_image_id this no_channels_ok(1) no_channels_ok(2) [symmetric], of "[]" "[[1, 2], [3]]" "[0, 0, 0, 0]" "[]"]
  have "d_use_cache ?c \<and> storable (d_disk ?c) zero_image (length (concat [[1, 2], [3 :: byte]]))"
    by (simp add: d storable_def empty_disk_def PATH_MAX_def zero_image_def) (simp add: sending_def)
  with r show ?thesis by (auto simp: packets_ok_def)
qed

text \<open>
  An answer to an older request on a channel that is still open: it is taken for the one that is
  waited for.
\<close>

lemma old_answer_taken:
  assumes miss: "\<not> (d_use_cache c \<and> cache_contains image_id (d_disk c))" and i: "hex_id image_id 20 = Inr i"
    and sent: "cmd_request_image i Plain_Callback t (c\<lparr>d_response := Some buf_new\<rparr>) = Inr (0, t1, c1)"
    and old: "table_ok t" "find_ch k t = Some ch" "ch_state ch = CHANNEL_HEADER" "ch_callback ch = Plain_Callback"
      "ch_total_data_len ch = 0" "0 \<le> k" "k < 65536"
    and answer: "packets_ok hs ds"
  shows "(\<exists>t' c'. despotify_get_image image_id (([], [handled k mac hs ds]) # ws) t c =
        Inr (Some (concat ds), ws, t', c') \<and>
      (d_use_cache c \<and> storable (d_disk c) image_id (length (concat ds)) \<longrightarrow> cached image_id c' = Some (concat ds))) \<and>
    (\<exists>t' c'. despotify_get_image image_id (([handled k mac hs ds], []) # ws) t c = Inr (None, ws, t', c') \<and>
      d_last_error c' = Some ''Timeout while loading image'' \<and> d_synced c' = d_synced c + 1)"
proof -
  have kid: "k \<in> ids t" using find_ch_None [of k t] old(2) by simp
  have ok: "request_ok (Image i)" using hex_id_length [OF i] by simp
  have req: "run_request (Image i) Plain_Callback t (c\<lparr>d_response := Some buf_new\<rparr>) = Inr (0, t1, c1)" using sent by simp
  note res = run_request_result [OF ok old(1) req]
  have "k \<noteq> next_channel_id t" using old(1) kid by (auto simp: table_ok_def ids_def)
  then have fk: "find_ch k t1 = Some ch" and t1: "table_ok t1" using res(1,2) old(2) by simp_all
  obtain s n where c1: "c1 = c\<lparr>d_response := Some buf_new, sess := s, sock := n\<rparr>" using res(8) by blast
  have r: "d_response c1 = Some buf_new" by (simp add: c1)
  obtain t2 b where run: "handled k mac hs ds t1 c1 =
      Inr (t2, c1\<lparr>d_response := Some b, d_synced := d_synced c1 + 1\<rparr>)" "buf_bytes b = concat ds"
    using answer_collected_run [OF fk old(3) _ old(5) r _ t1 answer old(6,7), of mac] old(4) answer
    by (auto simp: handled_def packets_ok_def)
  have d: "d_disk c1 = d_disk c" "d_use_cache c1 = d_use_cache c" "d_synced c1 = d_synced c" by (simp_all add: c1)
  have one: "\<exists>t' c'. despotify_get_image image_id (([], [handled k mac hs ds]) # ws) t c =
        Inr (Some (concat ds), ws, t', c') \<and>
      (d_use_cache c \<and> storable (d_disk c) image_id (length (concat ds)) \<longrightarrow> cached image_id c' = Some (concat ds))"
    using miss run by (simp add: despotify_get_image_def i fetch_def sent despotify_wait_timeout_def to_cache_def cached_def d
        cache.load_store cache.contains_store)
  have two: "\<exists>t' c'. despotify_get_image image_id (([handled k mac hs ds], []) # ws) t c = Inr (None, ws, t', c') \<and>
      d_last_error c' = Some ''Timeout while loading image'' \<and> d_synced c' = d_synced c + 1"
    using miss run by (simp add: despotify_get_image_def i fetch_def sent despotify_wait_timeout_def d Let_def)
  from one two show ?thesis by blast
qed

text \<open>
  C29: Answers are told apart by their time alone.  When no answer to a request for an image comes
  in time, \<open>despotify_get_image\<close> gives up, but the request's channel stays open.  If the answer
  comes while the client then waits for another image, that image is returned with the old
  one's bytes, and these are stored in the cache under the new id; if it comes just before the
  wait, the wait times out, although the signal was given.
\<close>

theorem late_answer_taken:
  assumes old: "\<not> (d_use_cache c \<and> cache_contains old_id (d_disk c))" "hex_id old_id 20 = Inr h"
      "cmd_request_image h Plain_Callback t (c\<lparr>d_response := Some buf_new\<rparr>) = Inr (0, t1, c1)"
    and table: "table_ok t" "k = next_channel_id t" "k < 65536"
    and new: "\<not> (d_use_cache c \<and> cache_contains image_id (d_disk c))" "hex_id image_id 20 = Inr i"
    and answer: "packets_ok hs ds"
  shows "\<exists>u d. despotify_get_image old_id (([], []) # ws0) t c = Inr (None, ws0, u, d) \<and>
      d_last_error d = Some ''Timeout while loading image'' \<and>
    (\<forall>t2 c2. cmd_request_image i Plain_Callback u (d\<lparr>d_response := Some buf_new\<rparr>) = Inr (0, t2, c2) \<longrightarrow>
      (\<exists>t' c'. despotify_get_image image_id (([], [handled k mac hs ds]) # ws) u d = Inr (Some (concat ds), ws, t', c') \<and>
        (d_use_cache c \<and> storable (d_disk c) image_id (length (concat ds)) \<longrightarrow> cached image_id c' = Some (concat ds))) \<and>
      (\<exists>t' c'. despotify_get_image image_id (([handled k mac hs ds], []) # ws) u d = Inr (None, ws, t', c') \<and>
        d_last_error c' = Some ''Timeout while loading image'' \<and> d_synced c' = d_synced c + 1))"
proof -
  let ?d = "c1\<lparr>d_last_error := Some ''Timeout while loading image''\<rparr>"
  have ok: "request_ok (Image h)" using hex_id_length [OF old(2)] by simp
  have "run_request (Image h) Plain_Callback t (c\<lparr>d_response := Some buf_new\<rparr>) = Inr (0, t1, c1)" using old(3) by simp
  note res = run_request_result [OF ok table(1) this, folded table(2)]
  obtain ch where ch: "find_ch k t1 = Some ch" "ch_callback ch = Plain_Callback" "ch_state ch = CHANNEL_HEADER"
    "ch_total_data_len ch = 0"
    using res(6) by (auto simp: first_state_def)
  have k: "0 \<le> k" using table by (simp add: table_ok_def)
  obtain s n where c1: "c1 = c\<lparr>d_response := Some buf_new, sess := s, sock := n\<rparr>" using res(8) by blast
  have same: "d_use_cache ?d = d_use_cache c" "d_disk ?d = d_disk c" "d_synced ?d = d_synced c" by (simp_all add: c1)
  have first: "despotify_get_image old_id (([], []) # ws0) t c = Inr (None, ws0, t1, ?d)"
    using old by (simp add: despotify_get_image_def fetch_def despotify_wait_timeout_def)
  have miss: "\<not> (d_use_cache ?d \<and> cache_contains image_id (d_disk ?d))" unfolding same using new(1) .
  have "(\<exists>t' c'. despotify_get_image image_id (([], [handled k mac hs ds]) # ws) t1 ?d = Inr (Some (concat ds), ws, t', c') \<and>
        (d_use_cache c \<and> storable (d_disk c) image_id (length (concat ds)) \<longrightarrow> cached image_id c' = Some (concat ds))) \<and>
      (\<exists>t' c'. despotify_get_image image_id (([handled k mac hs ds], []) # ws) t1 ?d = Inr (None, ws, t', c') \<and>
        d_last_error c' = Some ''Timeout while loading image'' \<and> d_synced c' = d_synced c + 1)"
    if sent: "cmd_request_image i Plain_Callback t1 (?d\<lparr>d_response := Some buf_new\<rparr>) = Inr (0, t2, c2)" for t2 c2
    using old_answer_taken [OF miss new(2) sent res(1) ch(1,3,2,4) k table(3) answer, of mac ws] unfolding same .
  with first show ?thesis by (intro exI [of _ t1] exI [of _ ?d] conjI) simp_all
qed

text \<open>Two requests over a socket that takes two packets.\<close>

definition one_image :: string where
  "one_image = replicate 40 (CHR ''1'')"

lemma one_image_id: "hex_id one_image 20 = Inr (replicate 20 0x11)"
  by code_simp

definition sending_twice :: client where
  "sending_twice = plain_client\<lparr>sock := \<lparr>rx_q = [], tx_q = [Taken 65000, Taken 65000], wire = []\<rparr>\<rparr>"

lemma send_payload_more:
  assumes "length body < 60000" "tx_q (sock c) = Taken 65000 # es"
  shows "\<exists>c'. send_payload cmd body t (c :: client) = Inr (0, t, c') \<and> tx_q (sock c') = es"
proof -
  have "packet_write (sess c) (sock c) cmd (Some body) (word_of_nat (length body)) = Inr (0, sent_state (sess c) cmd body,
      (sock c)\<lparr>tx_q := es, wire := wire (sock c) @ packet_bytes (sess c) cmd body\<rparr>)"
    using packet_write_taken [of body "sock c" 65000 es "sess c" cmd] assms by simp
  then show ?thesis by (simp add: send_payload_def)
qed

lemma image_sent_more:
  assumes "length h = 20" "tx_q (sock c) = Taken 65000 # es"
  shows "\<exists>t' c'. cmd_request_image h cb t (c :: client) = Inr (0, t', c') \<and> tx_q (sock c') = es"
proof -
  have ok: "request_ok (Image h)" using assms(1) by simp
  obtain ch t1 where r: "channel_register (Some (request_name (Image h))) cb t = (ch, t1)" by fastforce
  have "length (request_payload (Image h) (word_of_int (ch_id ch))) < 60000" using assms(1) by simp
  then obtain c' where "send_payload (request_cmd (Image h)) (request_payload (Image h) (word_of_int (ch_id ch)))
      (upd_ch (ch_id ch) (start_state (Image h)) t1) c = Inr (0, upd_ch (ch_id ch) (start_state (Image h)) t1, c')"
    "tx_q (sock c') = es"
    using send_payload_more [of _ c es] assms(2) by blast
  then show ?thesis using run_request_shape [OF ok r, of c] by (simp add: finish_request_def)
qed

theorem late_answer_taken_witness:
  "\<exists>u d t' c'. despotify_get_image zero_image [([], [])] no_channels sending_twice = Inr (None, [], u, d) \<and>
     despotify_get_image one_image [([], [handled 0 [0, 0, 0, 0] [] [[7]]])] u d = Inr (Some [7], [], t', c')"
proof -
  have miss: "\<not> (d_use_cache sending_twice \<and> cache_contains x (d_disk sending_twice))" for x
    by (simp add: sending_twice_def plain_client_def client_of_def client.defs conn.defs)
  have q: "tx_q (sock (sending_twice\<lparr>d_response := Some buf_new\<rparr>)) = [Taken 65000, Taken 65000]" by (simp add: sending_twice_def)
  obtain t1 c1 where sent: "cmd_request_image (replicate 20 0) Plain_Callback no_channels
      (sending_twice\<lparr>d_response := Some buf_new\<rparr>) = Inr (0, t1, c1)" "tx_q (sock c1) = [Taken 65000]"
    using image_sent_more [OF _ q, of "replicate 20 0" Plain_Callback no_channels] by auto
  have ok: "packets_ok [] [[7]]" by (simp add: packets_ok_def)
  from late_answer_taken [OF miss zero_image_id sent(1) no_channels_ok(1) no_channels_ok(2) [symmetric] _ miss one_image_id ok,
      of "[]" "[0, 0, 0, 0]" "[]"]
  obtain u d where r: "despotify_get_image zero_image [([], [])] no_channels sending_twice = Inr (None, [], u, d)"
    "\<forall>t2 c2. cmd_request_image (replicate 20 0x11) Plain_Callback u (d\<lparr>d_response := Some buf_new\<rparr>) = Inr (0, t2, c2) \<longrightarrow>
      (\<exists>t' c'. despotify_get_image one_image [([], [handled 0 [0, 0, 0, 0] [] [[7]]])] u d = Inr (Some (concat [[7]]), [], t', c'))"
    by auto
  have "despotify_get_image zero_image [([], [])] no_channels sending_twice =
      Inr (None, [], t1, c1\<lparr>d_last_error := Some ''Timeout while loading image''\<rparr>)"
    using miss sent(1) by (simp add: despotify_get_image_def zero_image_id fetch_def despotify_wait_timeout_def)
  with r(1) sent(2) have "tx_q (sock (d\<lparr>d_response := Some buf_new\<rparr>)) = [Taken 65000]" by auto
  from image_sent_more [OF _ this, of "replicate 20 0x11" Plain_Callback u] r show ?thesis by fastforce
qed

end
