(* ===== verification/Uri.thy ===== *)
theory Uri
  imports Xml
begin

text \<open>
  The identifiers of \<^verbatim>\<open>src/src/lib/despotify.c\<close>: 32 hexadecimal digits inside the
  program, 22 digits in base 62 in a Spotify URI, and the URIs themselves.

  Proved here: the conversion between bases is exact and runs out of its array exactly when
  the number does not fit; a URI made of an id leads back to the id.
\<close>

section \<open>Base conversion\<close>

definition alphabet :: string where
  "alphabet = ''0123456789abcdefghijklmnopqrstuvwxyzABCDEFGHIJKLMNOPQRSTUVWXYZ+/''"

text \<open>\<open>strchr (alphabet, c) - alphabet\<close>; without an occurrence a null pointer is subtracted from.\<close>

fun index_of :: "char \<Rightarrow> string \<Rightarrow> nat option" where
  "index_of c [] = None"
| "index_of c (d # ds) = (if c = d then Some 0 else map_option Suc (index_of c ds))"

fun digits_of :: "string \<Rightarrow> nat list result" where
  "digits_of [] = Inr []"
| "digits_of (c # s) =
     (case index_of c alphabet of
        None \<Rightarrow> Inl Undefined
      | Some n \<Rightarrow> rbind (digits_of s) (\<lambda>ns. Inr (n # ns)))"

text \<open>
  The inner loop: one division of the number by \<open>tobase\<close>.  \<open>q\<close> is the front of \<open>number\<close>
  written so far, \<open>r\<close> is \<open>divide\<close>.
\<close>

fun divide_loop :: "nat \<Rightarrow> nat \<Rightarrow> nat list \<Rightarrow> nat list \<Rightarrow> nat \<Rightarrow> nat list \<times> nat" where
  "divide_loop frombase tobase [] q r = (q, r)"
| "divide_loop frombase tobase (n # ns) q r =
     (let r = r * frombase + n
      in if tobase \<le> r then divide_loop frombase tobase ns (q @ [r div tobase]) (r mod tobase)
         else if q \<noteq> [] then divide_loop frombase tobase ns (q @ [0]) r
         else divide_loop frombase tobase ns q r)"

text \<open>
  The outer loop; with \<open>padlen\<close> down to 0 the next digit would be stored before \<open>dest\<close>.  The
  array \<open>alphabet\<close> has 64 digits and a NUL, and is read at \<open>divide\<close>.
\<close>

fun convert_loop :: "nat \<Rightarrow> nat \<Rightarrow> nat list \<Rightarrow> nat \<Rightarrow> string \<Rightarrow> string result" where
  "convert_loop frombase tobase number 0 dest = Inl Out_Of_Bounds"
| "convert_loop frombase tobase number (Suc padlen) dest =
     (let (q, r) = divide_loop frombase tobase number [] 0;
          dest = dest[padlen := (alphabet @ [CHR 0x00]) ! r]
      in if length alphabet < r then Inl Out_Of_Bounds
         else if q = [] then Inr dest else convert_loop frombase tobase q padlen dest)"

definition baseconvert :: "string \<Rightarrow> nat \<Rightarrow> nat \<Rightarrow> nat \<Rightarrow> string result" where
  "baseconvert src frombase tobase padlen =
     (if 128 < length src then Inl Out_Of_Bounds
      else rbind (digits_of src) (\<lambda>number.
             convert_loop frombase tobase number padlen (replicate padlen (CHR ''0''))))"

definition despotify_id2uri :: "string \<Rightarrow> string result" where
  "despotify_id2uri i = baseconvert i 16 62 22"

definition despotify_uri2id :: "string \<Rightarrow> string result" where
  "despotify_uri2id uri = baseconvert uri 62 16 32"

section \<open>Links\<close>

datatype ds_link_type =
    LINK_TYPE_INVALID
  | LINK_TYPE_ALBUM
  | LINK_TYPE_ARTIST
  | LINK_TYPE_PLAYLIST
  | LINK_TYPE_SEARCH
  | LINK_TYPE_TRACK

record ds_link =
  link_uri :: string
  link_arg :: "string option"
  link_type :: ds_link_type

text \<open>The string from \<open>uri + n\<close> on; behind the terminating NUL there is none.\<close>

definition from_offset :: "nat \<Rightarrow> string \<Rightarrow> string result" where
  "from_offset n uri = (if n \<le> length uri then Inr (drop n uri) else Inl Out_Of_Bounds)"

text \<open>The three lines of each kind of link with a 22-digit id.\<close>

definition id_link :: "string \<Rightarrow> nat \<Rightarrow> ds_link_type \<Rightarrow> ds_link result" where
  "id_link uri n kind =
     rbind (from_offset n uri) (\<lambda>i.
       Inr (if length i \<noteq> 22 then \<lparr>link_uri = uri, link_arg = None, link_type = LINK_TYPE_INVALID\<rparr>
            else \<lparr>link_uri = uri, link_arg = Some i, link_type = kind\<rparr>))"

definition despotify_link_from_uri :: "string \<Rightarrow> ds_link result" where
  "despotify_link_from_uri uri =
     (if strncmp_eq uri ''spotify:album:'' 13 then id_link uri 14 LINK_TYPE_ALBUM
      else if strncmp_eq uri ''spotify:artist:'' 14 then id_link uri 15 LINK_TYPE_ARTIST
      else if strncmp_eq uri ''spotify:search:'' 14 then
        rbind (from_offset 15 uri) (\<lambda>s.
          Inr (if s = [] then \<lparr>link_uri = uri, link_arg = None, link_type = LINK_TYPE_INVALID\<rparr>
               else \<lparr>link_uri = uri, link_arg = Some s, link_type = LINK_TYPE_SEARCH\<rparr>))
      else if strncmp_eq uri ''spotify:user:'' 12 then
        rbind (from_offset 13 uri) (\<lambda>rest.
          case index_of (CHR '':'') rest of
            None \<Rightarrow> Inl Undefined
          | Some userlen \<Rightarrow> id_link uri (userlen + 23) LINK_TYPE_PLAYLIST)
      else if strncmp_eq uri ''spotify:track:'' 13 then id_link uri 14 LINK_TYPE_TRACK
      else Inr \<lparr>link_uri = uri, link_arg = None, link_type = LINK_TYPE_INVALID\<rparr>)"

definition despotify_album_to_uri :: "ds_album_browse \<Rightarrow> string result" where
  "despotify_album_to_uri alb = rbind (despotify_id2uri (ab_id alb)) (\<lambda>uri. Inr (''spotify:album:'' @ uri))"

definition despotify_artist_to_uri :: "ds_artist_browse \<Rightarrow> string result" where
  "despotify_artist_to_uri art = rbind (despotify_id2uri (br_id art)) (\<lambda>uri. Inr (''spotify:artist:'' @ uri))"

definition despotify_playlist_to_uri :: "ds_playlist \<Rightarrow> string result" where
  "despotify_playlist_to_uri playlist =
     rbind (despotify_id2uri (take 32 (playlist_id playlist))) (\<lambda>uri.
       Inr (''spotify:user:'' @ author playlist @ '':playlist:'' @ uri))"

definition despotify_search_to_uri :: "ds_search_result \<Rightarrow> string" where
  "despotify_search_to_uri search = ''spotify:search:'' @ query search"

definition despotify_track_to_uri :: "ds_track \<Rightarrow> string result" where
  "despotify_track_to_uri track = rbind (despotify_id2uri (track_id track)) (\<lambda>uri. Inr (''spotify:track:'' @ uri))"

section \<open>Numbers and their digits\<close>

definition value_of :: "nat \<Rightarrow> nat list \<Rightarrow> nat" where
  "value_of b ds = foldl (\<lambda>v d. v * b + d) 0 ds"

lemma value_of_Nil [simp]: "value_of b [] = 0"
  by (simp add: value_of_def)

lemma value_of_snoc [simp]: "value_of b (ds @ [d]) = value_of b ds * b + d"
  by (simp add: value_of_def)

lemma value_of_append: "value_of b (xs @ ys) = value_of b xs * b ^ length ys + value_of b ys"
  by (induction ys rule: rev_induct) (simp_all add: algebra_simps flip: append_assoc)

lemma value_of_Cons: "value_of b (d # ds) = d * b ^ length ds + value_of b ds"
  using value_of_append [of b "[d]" ds] value_of_snoc [of b "[]" d] by simp

lemma value_of_less: "\<forall>d \<in> set ds. d < b \<Longrightarrow> value_of b ds < b ^ length ds"
proof (induction ds rule: rev_induct)
  case (snoc d ds)
  then have "value_of b ds + 1 \<le> b ^ length ds" "d < b" by simp_all
  then have "(value_of b ds + 1) * b \<le> b ^ length ds * b" by (intro mult_right_mono) simp_all
  with \<open>d < b\<close> show ?case by (simp add: algebra_simps)
qed simp

lemma value_of_inject:
  "\<lbrakk>length xs = length ys; \<forall>d \<in> set xs. d < b; \<forall>d \<in> set ys. d < b; value_of b xs = value_of b ys\<rbrakk> \<Longrightarrow> xs = ys"
proof (induction xs arbitrary: ys rule: rev_induct)
  case (snoc x xs)
  obtain y zs where ys: "ys = zs @ [y]" using snoc.prems(1) by (cases ys rule: rev_cases) simp_all
  have xy: "x < b" "y < b" and e: "value_of b xs * b + x = value_of b zs * b + y"
    using snoc.prems by (simp_all add: ys)
  from arg_cong [OF e, of "\<lambda>n. n mod b"] arg_cong [OF e, of "\<lambda>n. n div b"] xy
  have "x = y" "value_of b xs = value_of b zs" by simp_all
  with snoc ys show ?case by simp
qed simp

section \<open>The conversion is exact\<close>

lemma value_of_pos: "\<lbrakk>q \<noteq> []; hd q \<noteq> 0; 0 < b\<rbrakk> \<Longrightarrow> 0 < value_of b q"
  by (cases q) (simp_all add: value_of_Cons)

lemma divide_loop_value:
  assumes "divide_loop frombase tobase ns q r = (q', r')" "r < tobase" "0 < frombase"
    and "q \<noteq> [] \<longrightarrow> hd q \<noteq> 0" "\<forall>d \<in> set q. d < frombase" "\<forall>d \<in> set ns. d < frombase"
  shows "value_of frombase q' * tobase + r' =
      (value_of frombase q * tobase + r) * frombase ^ length ns + value_of frombase ns \<and>
    r' < tobase \<and> (q' \<noteq> [] \<longrightarrow> hd q' \<noteq> 0) \<and> (\<forall>d \<in> set q'. d < frombase)"
  using assms
proof (induction ns arbitrary: q r)
  case (Cons n ns)
  let ?d = "r * frombase + n"
  have n: "n < frombase" and r: "r < tobase" using Cons.prems by simp_all
  have "r * frombase + n < (r + 1) * frombase" using n by simp
  also have "\<dots> \<le> tobase * frombase" using r by (intro mult_right_mono) simp_all
  finally have lt: "?d div tobase < frombase" by (simp add: less_mult_imp_div_less mult.commute)
  let ?v = "value_of frombase q"
  have goal: "(?v * tobase + r) * frombase ^ length (n # ns) + value_of frombase (n # ns) =
      ((?v * tobase + r) * frombase + n) * frombase ^ length ns + value_of frombase ns"
    by (simp add: value_of_Cons distrib_right mult.assoc)
  consider (big) "tobase \<le> ?d" | (mid) "?d < tobase" "q \<noteq> []" | (front) "?d < tobase" "q = []" by linarith
  then show ?case
  proof cases
    case big
    have "0 < ?d div tobase" using big r by (simp add: div_greater_zero_iff)
    moreover have "(?v * frombase + ?d div tobase) * tobase + ?d mod tobase = (?v * tobase + r) * frombase + n"
      using div_mult_mod_eq [of ?d tobase] by (simp add: distrib_right mult.assoc mult.left_commute mult.commute [of tobase])
    moreover have "divide_loop frombase tobase ns (q @ [?d div tobase]) (?d mod tobase) = (q', r')"
      using Cons.prems(1) big by (simp add: Let_def)
    ultimately show ?thesis
      using Cons.IH [of "q @ [?d div tobase]" "?d mod tobase"] Cons.prems(2-6) lt unfolding goal
      by (simp add: hd_append)
  next
    case mid
    have "?v * frombase * tobase + ?d = (?v * tobase + r) * frombase + n"
      by (simp add: distrib_right mult.assoc mult.commute [of tobase])
    moreover have "divide_loop frombase tobase ns (q @ [0]) ?d = (q', r')"
      using Cons.prems(1) mid by (simp add: Let_def)
    ultimately show ?thesis
      using Cons.IH [of "q @ [0]" ?d] Cons.prems(2-6) mid unfolding goal by (simp add: hd_append)
  next
    case front
    have "divide_loop frombase tobase ns q ?d = (q', r')" using Cons.prems(1) front by (simp add: Let_def)
    then show ?thesis
      using Cons.IH [of q ?d] Cons.prems(2-6) front unfolding goal by simp
  qed
qed simp

lemma convert_loop_value:
  assumes "\<forall>d \<in> set number. d < frombase" "0 < frombase" "2 \<le> tobase" "tobase \<le> 64"
  shows "if value_of frombase number < tobase ^ padlen \<and> 0 < padlen
    then \<exists>ds. convert_loop frombase tobase number padlen (replicate padlen (CHR ''0'') @ suf) =
           Inr (map ((!) alphabet) ds @ suf) \<and>
         length ds = padlen \<and> (\<forall>d \<in> set ds. d < tobase) \<and> value_of tobase ds = value_of frombase number
    else convert_loop frombase tobase number padlen (replicate padlen (CHR ''0'') @ suf) = Inl Out_Of_Bounds"
  using assms(1)
proof (induction padlen arbitrary: number suf)
  case (Suc p)
  obtain q r where d: "divide_loop frombase tobase number [] 0 = (q, r)" by fastforce
  from divide_loop_value [OF d] assms(2,3) Suc.prems
  have v: "value_of frombase q * tobase + r = value_of frombase number" "r < tobase"
    "q \<noteq> [] \<longrightarrow> hd q \<noteq> 0" "\<forall>d \<in> set q. d < frombase" by auto
  let ?x = "alphabet ! r"
  have r64: "r < length alphabet" using v(2) assms(4) by (simp add: alphabet_def)
  then have in_range: "\<not> length alphabet < r" "(alphabet @ [CHR 0x00]) ! r = ?x" by (simp_all add: nth_append)
  have rep: "replicate (Suc p) (CHR ''0'') = replicate p (CHR ''0'') @ [CHR ''0'']"
    by (simp add: replicate_append_same)
  have dest: "(replicate (Suc p) (CHR ''0'') @ suf)[p := (alphabet @ [CHR 0x00]) ! r] = replicate p (CHR ''0'') @ ?x # suf"
    unfolding rep in_range(2) by (simp add: list_update_append)
  have turn: "convert_loop frombase tobase number (Suc p) (replicate (Suc p) (CHR ''0'') @ suf) =
      (if q = [] then Inr (replicate p (CHR ''0'') @ ?x # suf)
       else convert_loop frombase tobase q p (replicate p (CHR ''0'') @ ?x # suf))"
    by (simp only: convert_loop.simps d Let_def prod.case dest in_range(1) if_False)
  show ?case
  proof (cases "q = []")
    case True
    let ?ds = "replicate p 0 @ [r]"
    have zeros: "value_of tobase (replicate n 0) = 0" for n
      by (induction n) (simp_all add: value_of_Cons)
    have a0: "alphabet ! 0 = CHR ''0''" by (simp add: alphabet_def)
    have "value_of frombase number = r" using v(1) True by simp
    moreover have "r < tobase ^ Suc p"
      using v(2) assms(3) self_le_power [of tobase "Suc p"] by linarith
    moreover have "convert_loop frombase tobase number (Suc p) (replicate (Suc p) (CHR ''0'') @ suf) =
        Inr (map ((!) alphabet) ?ds @ suf)"
      using True a0 unfolding turn by (simp add: map_replicate_const)
    ultimately show ?thesis
      using v(2) zeros by (auto intro!: exI [of _ ?ds])
  next
    case False
    have pos: "0 < value_of frombase q" using value_of_pos False v(3) assms(2) by blast
    have "value_of frombase q = value_of frombase number div tobase"
      using arg_cong [OF v(1), of "\<lambda>n. n div tobase"] v(2) by simp
    then have iff: "value_of frombase number < tobase ^ Suc p \<longleftrightarrow> value_of frombase q < tobase ^ p \<and> 0 < p"
      using pos assms(3) by (cases p) (auto simp: div_less_iff_less_mult mult.commute)
    have step: "convert_loop frombase tobase number (Suc p) (replicate (Suc p) (CHR ''0'') @ suf) =
        convert_loop frombase tobase q p (replicate p (CHR ''0'') @ ?x # suf)"
      using False unfolding turn by simp
    show ?thesis
    proof (cases "value_of frombase q < tobase ^ p \<and> 0 < p")
      case True
      with Suc.IH [OF v(4), of "?x # suf"] obtain ds where
        ds: "convert_loop frombase tobase q p (replicate p (CHR ''0'') @ ?x # suf) = Inr (map ((!) alphabet) ds @ ?x # suf)"
        "length ds = p" "\<forall>d \<in> set ds. d < tobase" "value_of tobase ds = value_of frombase q" by auto
      with v step iff True show ?thesis
        by (auto intro!: exI [of _ "ds @ [r]"])
    next
      case out: False
      with Suc.IH [OF v(4), of "?x # suf"] step iff show ?thesis by auto
    qed
  qed
qed simp

section \<open>Ids and URIs\<close>

lemma index_of_alphabet: "n < 64 \<Longrightarrow> index_of (alphabet ! n) alphabet = Some n"
proof -
  have "list_all (\<lambda>n. index_of (alphabet ! n) alphabet = Some n) [0..<64]" by code_simp
  then show "n < 64 \<Longrightarrow> index_of (alphabet ! n) alphabet = Some n" by (simp add: list_all_iff)
qed

lemma digits_of_alphabet: "\<forall>d \<in> set ds. d < 64 \<Longrightarrow> digits_of (map ((!) alphabet) ds) = Inr ds"
  by (induction ds) (simp_all add: index_of_alphabet)

text \<open>A number written in base \<open>b\<close>.\<close>

definition numeral_in :: "nat \<Rightarrow> string \<Rightarrow> nat list \<Rightarrow> bool" where
  "numeral_in b s ds \<longleftrightarrow> s = map ((!) alphabet) ds \<and> (\<forall>d \<in> set ds. d < b)"

lemma baseconvert_value:
  assumes "numeral_in frombase src ds" "0 < frombase" "frombase \<le> 64" "2 \<le> tobase" "tobase \<le> 64" "length src \<le> 128" "0 < padlen"
  shows "if value_of frombase ds < tobase ^ padlen
    then \<exists>dest es. baseconvert src frombase tobase padlen = Inr dest \<and> numeral_in tobase dest es \<and>
      length dest = padlen \<and> value_of tobase es = value_of frombase ds
    else baseconvert src frombase tobase padlen = Inl Out_Of_Bounds"
proof -
  have d: "digits_of src = Inr ds"
    using assms(1,3) digits_of_alphabet [of ds] by (force simp: numeral_in_def)
  have "\<forall>d \<in> set ds. d < frombase" using assms(1) by (simp add: numeral_in_def)
  from convert_loop_value [OF this assms(2,4,5), of padlen "[]"] assms(6,7) d show ?thesis
    by (auto simp: baseconvert_def numeral_in_def split: if_splits)
qed

lemma id_to_uri:
  assumes "numeral_in 16 i ds" "length i = 32"
  shows "\<exists>uri es. despotify_id2uri i = Inr uri \<and> numeral_in 62 uri es \<and> length uri = 22 \<and>
    value_of 62 es = value_of 16 ds"
proof -
  have "length ds = 32" using assms by (simp add: numeral_in_def)
  then have "value_of 16 ds < 16 ^ 32" using value_of_less [of ds 16] assms(1) by (simp add: numeral_in_def)
  also have "(16 :: nat) ^ 32 < 62 ^ 22" by simp
  finally show ?thesis
    using baseconvert_value [OF assms(1), of 62 22] assms(2) by (simp add: despotify_id2uri_def)
qed

lemma uri_to_id:
  assumes "numeral_in 62 uri es" "length uri = 22" "numeral_in 16 i ds" "length i = 32"
    and "value_of 62 es = value_of 16 ds"
  shows "despotify_uri2id uri = Inr i"
proof -
  have l: "length ds = 32" using assms(3,4) by (simp add: numeral_in_def)
  then have "value_of 16 ds < 16 ^ 32" using value_of_less [of ds 16] assms(3) by (simp add: numeral_in_def)
  with baseconvert_value [OF assms(1), of 16 32] assms(2,5) obtain dest fs
    where d: "despotify_uri2id uri = Inr dest" "numeral_in 16 dest fs" "length dest = 32" "value_of 16 fs = value_of 16 ds"
    by (auto simp: despotify_uri2id_def)
  have "fs = ds"
    using d(2-4) assms(3) l by (intro value_of_inject [of fs ds 16]) (simp_all add: numeral_in_def)
  with d assms(3) show ?thesis by (simp add: numeral_in_def)
qed

section \<open>Properties\<close>

text \<open>
  C31: The conversion between bases up to 64 is exact: a number that fits the digits asked for comes
  out with the same value, padded with zeros to its length, and one that does not fit is
  written past the front of the array.
\<close>

theorem baseconvert_exact:
  assumes "numeral_in frombase src ds" and "0 < frombase" and "frombase \<le> 64" and "2 \<le> tobase" and "tobase \<le> 64"
    and "length src \<le> 128" and "0 < padlen"
  shows "if value_of frombase ds < tobase ^ padlen
    then \<exists>dest es. baseconvert src frombase tobase padlen = Inr dest \<and> numeral_in tobase dest es \<and>
      length dest = padlen \<and> value_of tobase es = value_of frombase ds
    else baseconvert src frombase tobase padlen = Inl Out_Of_Bounds"
  using baseconvert_value [OF assms] .

theorem baseconvert_exact_witness:
  "baseconvert (replicate 22 (CHR ''Z'')) 62 16 32 = Inl Out_Of_Bounds"
proof -
  have n: "numeral_in 62 (replicate 22 (CHR ''Z'')) (replicate 22 61)"
    by (simp add: numeral_in_def alphabet_def)
  have "replicate 22 (61 :: nat) = 61 # replicate 21 61" by (simp flip: replicate_Suc)
  then have "61 * 62 ^ 21 \<le> value_of 62 (replicate 22 61)" by (simp only: value_of_Cons length_replicate)
  moreover have "(16 :: nat) ^ 32 \<le> 61 * 62 ^ 21" by simp
  ultimately have "\<not> value_of 62 (replicate 22 61) < 16 ^ 32" by linarith
  with baseconvert_exact [OF n, of 16 32] show ?thesis by simp
qed

text \<open>
  C32: A URI leads back to what it was made of: for any id of 32 lower-case hexadecimal
  digits the URI of a track, an album or an artist is recognised as a link of that kind, and
  the id of the link is the id.  The same holds for a playlist (and its id less the last two
  digits) whose author has no colon in the name; with a colon there, the playlist's own URI
  is always taken for an invalid one.
\<close>

theorem uri_roundtrip:
  assumes "numeral_in 16 i ds" and "length i = 32"
    and "track_id tr = i" and "ab_id alb = i" and "br_id art = i"
    and "playlist_id pl = i @ rest"
  shows "\<exists>uri. despotify_uri2id uri = Inr i \<and>
    (\<exists>u. despotify_track_to_uri tr = Inr u \<and>
       despotify_link_from_uri u = Inr \<lparr>link_uri = u, link_arg = Some uri, link_type = LINK_TYPE_TRACK\<rparr>) \<and>
    (\<exists>u. despotify_album_to_uri alb = Inr u \<and>
       despotify_link_from_uri u = Inr \<lparr>link_uri = u, link_arg = Some uri, link_type = LINK_TYPE_ALBUM\<rparr>) \<and>
    (\<exists>u. despotify_artist_to_uri art = Inr u \<and>
       despotify_link_from_uri u = Inr \<lparr>link_uri = u, link_arg = Some uri, link_type = LINK_TYPE_ARTIST\<rparr>) \<and>
    (\<exists>u. despotify_playlist_to_uri pl = Inr u \<and>
       despotify_link_from_uri u =
         Inr (if CHR '':'' \<in> set (author pl) then \<lparr>link_uri = u, link_arg = None, link_type = LINK_TYPE_INVALID\<rparr>
              else \<lparr>link_uri = u, link_arg = Some uri, link_type = LINK_TYPE_PLAYLIST\<rparr>))"
proof -
  obtain uri es where u: "despotify_id2uri i = Inr uri" "numeral_in 62 uri es" "length uri = 22"
    "value_of 62 es = value_of 16 ds"
    using id_to_uri [OF assms(1,2)] by blast
  have inv: "despotify_uri2id uri = Inr i" by (rule uri_to_id [OF u(2,3) assms(1,2) u(4)])
  have user: "index_of (CHR '':'') (a @ CHR '':'' # b) = Some (length a)" if "CHR '':'' \<notin> set a" for a b
    using that by (induction a) auto
  let ?x = "''spotify:user:'' @ author pl @ '':playlist:''"
  have len: "length ?x = length (author pl) + 23" by simp
  have "drop (length ?x) (?x @ uri) = uri"
    using drop_append [of "length ?x" ?x uri] by (simp only: drop_all order_refl diff_self_eq_0 drop_0 append_Nil)
  then have rest: "drop (length (author pl) + 23) (''spotify:user:'' @ author pl @ '':playlist:'' @ uri) = uri"
    by (simp only: len append_assoc)
  let ?u = "''spotify:user:'' @ author pl @ '':playlist:'' @ uri"
  have pu: "despotify_playlist_to_uri pl = Inr ?u" using u(1) assms(2,6) by (simp add: despotify_playlist_to_uri_def)
  have kind: "strncmp_eq ?u ''spotify:user:'' 12" "\<not> strncmp_eq ?u ''spotify:album:'' 13" "\<not> strncmp_eq ?u ''spotify:artist:'' 14"
    "\<not> strncmp_eq ?u ''spotify:search:'' 14" "from_offset 13 ?u = Inr (author pl @ '':playlist:'' @ uri)"
    by (simp_all add: strncmp_eq_def from_offset_def)
  have link: "despotify_link_from_uri ?u = (case index_of (CHR '':'') (author pl @ '':playlist:'' @ uri) of
      None \<Rightarrow> Inl Undefined | Some userlen \<Rightarrow> id_link ?u (userlen + 23) LINK_TYPE_PLAYLIST)"
    unfolding despotify_link_from_uri_def by (simp only: kind if_True if_False rbind.simps)
  have pl: "despotify_link_from_uri ?u =
      Inr (if CHR '':'' \<in> set (author pl) then \<lparr>link_uri = ?u, link_arg = None, link_type = LINK_TYPE_INVALID\<rparr>
           else \<lparr>link_uri = ?u, link_arg = Some uri, link_type = LINK_TYPE_PLAYLIST\<rparr>)"
  proof (cases "CHR '':'' \<in> set (author pl)")
    case True
    then obtain a b where ab: "author pl = a @ CHR '':'' # b" "CHR '':'' \<notin> set a"
      by (meson split_list_first)
    have "index_of (CHR '':'') (author pl @ '':playlist:'' @ uri) = Some (length a)"
      using user [OF ab(2), of "b @ '':playlist:'' @ uri"] by (simp add: ab(1))
    then have "despotify_link_from_uri ?u = id_link ?u (length a + 23) LINK_TYPE_PLAYLIST" by (simp only: link option.case)
    also have "\<dots> = Inr \<lparr>link_uri = ?u, link_arg = None, link_type = LINK_TYPE_INVALID\<rparr>"
      using u(3) by (simp add: id_link_def from_offset_def ab(1))
    finally show ?thesis using True by (simp only: if_True)
  next
    case False
    then have "index_of (CHR '':'') (author pl @ '':playlist:'' @ uri) = Some (length (author pl))"
      using user [of "author pl" "''playlist:'' @ uri"] by simp
    then have "despotify_link_from_uri ?u = id_link ?u (length (author pl) + 23) LINK_TYPE_PLAYLIST"
      by (simp only: link option.case)
    also have "\<dots> = Inr \<lparr>link_uri = ?u, link_arg = Some uri, link_type = LINK_TYPE_PLAYLIST\<rparr>"
      using u(3) rest by (simp add: id_link_def from_offset_def)
    finally show ?thesis using False by (simp only: if_False)
  qed
  have others: "(\<exists>u. despotify_track_to_uri tr = Inr u \<and>
       despotify_link_from_uri u = Inr \<lparr>link_uri = u, link_arg = Some uri, link_type = LINK_TYPE_TRACK\<rparr>) \<and>
    (\<exists>u. despotify_album_to_uri alb = Inr u \<and>
       despotify_link_from_uri u = Inr \<lparr>link_uri = u, link_arg = Some uri, link_type = LINK_TYPE_ALBUM\<rparr>) \<and>
    (\<exists>u. despotify_artist_to_uri art = Inr u \<and>
       despotify_link_from_uri u = Inr \<lparr>link_uri = u, link_arg = Some uri, link_type = LINK_TYPE_ARTIST\<rparr>)"
    using u(1,3) assms(3-5)
    by (simp add: despotify_track_to_uri_def despotify_album_to_uri_def despotify_artist_to_uri_def
        despotify_link_from_uri_def strncmp_eq_def id_link_def from_offset_def)
  show ?thesis using inv others pu pl by blast
qed


theorem uri_roundtrip_witness:
  "\<exists>uri u. despotify_uri2id uri = Inr (replicate 32 (CHR ''a'')) \<and>
     despotify_track_to_uri (zero_track\<lparr>track_id := replicate 32 (CHR ''a'')\<rparr>) = Inr u \<and>
     despotify_link_from_uri u = Inr \<lparr>link_uri = u, link_arg = Some uri, link_type = LINK_TYPE_TRACK\<rparr>"
proof -
  let ?i = "replicate 32 (CHR ''a'')"
  have n: "numeral_in 16 ?i (replicate 32 10)" by (simp add: numeral_in_def alphabet_def)
  from uri_roundtrip [OF n, of "zero_track\<lparr>track_id := ?i\<rparr>"
      "\<lparr>ab_name = [], ab_id = ?i, ab_num_tracks = 0, ab_tracks = [], ab_year = 0, ab_cover_id = [], ab_popularity = 0\<rparr>"
      "\<lparr>br_name = [], br_id = ?i, br_text = None, br_portrait_id = [], br_genres = [], br_years_active = [],
        br_popularity = 0, br_num_albums = 0, br_albums = []\<rparr>"
      "zero_playlist\<lparr>playlist_id := ?i @ ''02''\<rparr>" "''02''"]
  show ?thesis by auto
qed

end
