(* ===== verification/Browse.thy ===== *)
theory Browse
  imports Answers Uri
begin

text \<open>
  The browsing part of \<^verbatim>\<open>src/src/lib/despotify.c\<close>: artists, albums, tracks, searches, and the
  same by link.  A pointer the caller gets back is the struct it points to.

  Proved here: what a browse request returns is what the parser makes of the text the server
  compressed, and the second time it comes from the cache without any packet; tracks that
  may not be played in the user's country are returned as not playable; what a search that
  is continued adds.
\<close>

definition zero_artist_browse :: ds_artist_browse where
  "zero_artist_browse = \<lparr>br_name = [], br_id = [], br_text = None, br_portrait_id = [], br_genres = [],
     br_years_active = [], br_popularity = 0, br_num_albums = 0, br_albums = []\<rparr>"

section \<open>Artists and albums\<close>

text \<open>What follows the wait: unpack, store, parse into the struct, free the response.\<close>

definition despotify_get_artist :: "'z libs \<Rightarrow> string \<Rightarrow> waits \<Rightarrow> table \<Rightarrow> client \<Rightarrow> ds_artist_browse option answered" where
  "despotify_get_artist L artist_id ws t c =
     (let c = c\<lparr>d_artist_browse := Some zero_artist_browse\<rparr>
      in case cached artist_id c of
        Some data \<Rightarrow>
          rbind (xml_parse_browse_artist (parse_xml L) zero_artist_browse data (d_high_bitrate c)) (\<lambda>a.
            Inr (Some a, ws, t, c\<lparr>d_artist_browse := Some a\<rparr>))
      | None \<Rightarrow>
          rbind (hex_id artist_id 16) (\<lambda>i.
          rbind (fetch (cmd_browse BROWSE_ARTIST i 1 Gzip_Callback) ''Timeout while browsing artist'' ws t
                   (c\<lparr>d_response := Some buf_new\<rparr>)) (\<lambda>(ok, ws, t, c).
            if \<not> ok then Inr (None, ws, t, c)
            else rbind (inflated L c) (\<lambda>b.
              case b of
                None \<Rightarrow> Inr (d_artist_browse c, ws, t, c\<lparr>d_response := None\<rparr>)
              | Some xml \<Rightarrow>
                  (case d_artist_browse c of
                     None \<Rightarrow> Inl Null_Deref
                   | Some a \<Rightarrow>
                       let c = to_cache (d_use_cache c) artist_id xml c
                       in rbind (xml_parse_browse_artist (parse_xml L) a xml (d_high_bitrate c)) (\<lambda>a.
                            Inr (Some a, ws, t, c\<lparr>d_artist_browse := Some a, d_response := None\<rparr>)))))))"

definition despotify_get_album :: "'z libs \<Rightarrow> string \<Rightarrow> waits \<Rightarrow> table \<Rightarrow> client \<Rightarrow> ds_album_browse option answered" where
  "despotify_get_album L the_id ws t c =
     (let c = c\<lparr>d_album_browse := Some zero_album_browse\<rparr>
      in case cached the_id c of
        Some data \<Rightarrow>
          rbind (xml_parse_browse_album (parse_xml L) zero_album_browse data (d_high_bitrate c)) (\<lambda>a.
            Inr (Some a, ws, t, c\<lparr>d_album_browse := Some a\<rparr>))
      | None \<Rightarrow>
          rbind (hex_id the_id 16) (\<lambda>i.
          rbind (fetch (cmd_browse BROWSE_ALBUM i 1 Gzip_Callback) ''Timeout while browsing album'' ws t
                   (c\<lparr>d_response := Some buf_new\<rparr>)) (\<lambda>(ok, ws, t, c).
            if \<not> ok then Inr (None, ws, t, c)
            else rbind (inflated L c) (\<lambda>b.
              case b of
                None \<Rightarrow> Inr (d_album_browse c, ws, t, c\<lparr>d_response := None\<rparr>)
              | Some xml \<Rightarrow>
                  (case d_album_browse c of
                     None \<Rightarrow> Inl Null_Deref
                   | Some a \<Rightarrow>
                       let c = to_cache (d_use_cache c) the_id xml c
                       in rbind (xml_parse_browse_album (parse_xml L) a xml (d_high_bitrate c)) (\<lambda>a.
                            Inr (Some a, ws, t, c\<lparr>d_album_browse := Some a, d_response := None\<rparr>)))))))"

section \<open>Tracks\<close>

definition MAX_BROWSE_REQ :: nat where
  "MAX_BROWSE_REQ = 244"

text \<open>
  The loop that fills the array of ids.  Of an id that cannot be converted to its end only the
  first bytes are written; what the array held before stays behind them.
\<close>

fun fill_ids :: "string list \<Rightarrow> nat \<Rightarrow> byte option list \<Rightarrow> byte option list result" where
  "fill_ids [] i cells = Inr cells"
| "fill_ids (a # as) i cells =
     rbind (hex_ascii_to_bytes a 16) (\<lambda>(bytes, _). fill_ids as (i + 1) (store_at cells (i * 16) (map Some bytes)))"

text \<open>Bytes that are read must have been written.\<close>

definition written :: "byte option list \<Rightarrow> byte list result" where
  "written cells = (if None \<in> set cells then Inl Uninit else Inr (map the cells))"

text \<open>The loop over the received tracks.\<close>

definition restrict :: "string \<Rightarrow> ds_track \<Rightarrow> ds_track" where
  "restrict country tr =
     (let r = despotify_is_track_restricted tr country
      in tr\<lparr>geo_restricted := r, playable := (if r then False else playable tr)\<rparr>)"

definition despotify_get_tracks :: "'z libs \<Rightarrow> string list \<Rightarrow> waits \<Rightarrow> table \<Rightarrow> client \<Rightarrow> ds_track list option answered" where
  "despotify_get_tracks L track_ids ws t c =
     (if MAX_BROWSE_REQ < length track_ids
      then Inr (None, ws, t, c\<lparr>d_last_error := Some ''Too many ids in track browse request''\<rparr>)
      else
        rbind (fill_ids track_ids 0 (replicate (length track_ids * 16) None)) (\<lambda>cells.
        rbind (written cells) (\<lambda>tracklist.
        rbind (fetch (cmd_browse BROWSE_TRACK tracklist (int (length track_ids)) Gzip_Callback)
                 ''Timeout while browsing track(s)'' ws t (c\<lparr>d_response := Some buf_new\<rparr>)) (\<lambda>(ok, ws, t, c).
          if \<not> ok then Inr (None, ws, t, c)
          else rbind (inflated L c) (\<lambda>b.
            rbind (case b of
                     None \<Rightarrow> Inr (0, [zero_track])
                   | Some xml \<Rightarrow> xml_parse_tracklist (parse_xml L) [zero_track] xml False (d_high_bitrate c)) (\<lambda>(_, ts).
              Inr (Some (map (restrict (ui_country (user_info (sess c)))) ts), ws, t, c\<lparr>d_response := None\<rparr>)))))))"

definition despotify_get_track :: "'z libs \<Rightarrow> string \<Rightarrow> waits \<Rightarrow> table \<Rightarrow> client \<Rightarrow> ds_track list option answered" where
  "despotify_get_track L i ws t c = despotify_get_tracks L [i] ws t c"

section \<open>Searches\<close>

text \<open>
  A result with its two pointers.  \<open>sr_own\<close> is \<open>None\<close> as long as \<open>search->playlist\<close> is still the
  playlist the client works on, \<open>ds->playlist\<close>; when that has been replaced, it is the search's.
  \<open>search->tracks\<close> are the tracks of that playlist.
\<close>

record search = ds_search_result +
  sr_own :: "ds_playlist option"

definition zero_search_result :: ds_search_result where
  "zero_search_result = \<lparr>query = [], suggestion = [], total_artists = 0, total_albums = 0, total_tracks = 0,
     sr_artists = [], sr_albums = []\<rparr>"

definition search_playlist :: "ds_playlist \<Rightarrow> string \<Rightarrow> string \<Rightarrow> ds_playlist" where
  "search_playlist pl searchtext user =
     pl\<lparr>pl_name := DSFYstrncpy (take 79 (''Search: '' @ searchtext)) 256, author := DSFYstrncpy user 256\<rparr>"

definition set_playlist :: "ds_playlist \<Rightarrow> client \<Rightarrow> client" where
  "set_playlist pl c = c\<lparr>d_playlist := pl # tl (d_playlist c)\<rparr>"

definition the_playlist :: "client \<Rightarrow> ds_playlist result" where
  "the_playlist c = (case d_playlist c of [] \<Rightarrow> Inl Null_Deref | pl # _ \<Rightarrow> Inr pl)"

text \<open>Sending a search; this one does not disconnect when that fails.\<close>

definition ask_search :: "string \<Rightarrow> int \<Rightarrow> int \<Rightarrow> waits \<Rightarrow> table \<Rightarrow> client \<Rightarrow> bool answered" where
  "ask_search searchtext offset maxresults ws t c =
     rbind (cmd_search searchtext (word_of_int offset) (word_of_int maxresults) Gzip_Callback t c) (\<lambda>(ret, t, c).
       if ret \<noteq> 0 then Inr (False, ws, t, c\<lparr>d_last_error := Some ''cmd_search() failed''\<rparr>)
       else rbind (despotify_wait_timeout ws t c) (\<lambda>(ready, ws, t, c).
              if ready then Inr (True, ws, t, c)
              else Inr (False, ws, t, c\<lparr>d_last_error := Some ''Timeout when searching''\<rparr>)))"

definition despotify_search :: "'z libs \<Rightarrow> string \<Rightarrow> int \<Rightarrow> waits \<Rightarrow> table \<Rightarrow> client \<Rightarrow> search option answered" where
  "despotify_search L searchtext maxresults ws t c =
     (let c = c\<lparr>d_response := Some buf_new,
                d_playlist := [search_playlist zero_playlist searchtext (username (sess c))]\<rparr>
      in rbind (ask_search searchtext 0 maxresults ws t c) (\<lambda>(ok, ws, t, c).
        if \<not> ok then Inr (None, ws, t, c)
        else rbind (the_playlist c) (\<lambda>pl.
          let pl = (if tracks pl = [] then pl\<lparr>tracks := [zero_track]\<rparr> else pl);
              c = set_playlist pl c
          in rbind (inflated L c) (\<lambda>b.
            case b of
              None \<Rightarrow> Inr (None, ws, t, c\<lparr>d_response := None, d_last_error := Some ''Error when searching''\<rparr>)
            | Some xml \<Rightarrow>
                rbind (xml_parse_search (parse_xml L) (zero_search_result\<lparr>query := DSFYstrncpy searchtext 256\<rparr>)
                         (tracks pl) xml (d_high_bitrate c)) (\<lambda>(n, r, ts).
                  Inr (Some (ds_search_result.extend r (search.fields None)), ws, t,
                       (set_playlist (pl\<lparr>num_tracks := n, tracks := ts\<rparr>) c)\<lparr>d_response := None\<rparr>))))))"

text \<open>The tracks of a search, and their replacement.\<close>

definition search_tracks :: "search \<Rightarrow> client \<Rightarrow> ds_track list result" where
  "search_tracks s c = (case sr_own s of Some pl \<Rightarrow> Inr (tracks pl) | None \<Rightarrow> rbind (the_playlist c) (\<lambda>pl. Inr (tracks pl)))"

definition set_search_tracks :: "ds_track list \<Rightarrow> search \<Rightarrow> client \<Rightarrow> search \<times> client" where
  "set_search_tracks ts s c =
     (case sr_own s of
        Some pl \<Rightarrow> (s\<lparr>sr_own := Some (pl\<lparr>tracks := ts\<rparr>)\<rparr>, c)
      | None \<Rightarrow> (s, case d_playlist c of [] \<Rightarrow> c | pl # _ \<Rightarrow> set_playlist (pl\<lparr>tracks := ts\<rparr>) c))"

text \<open>
  \<open>despotify_search_more\<close>: the new tracks go to the end of the search's list, their number is
  added to the playlist the client works on.
\<close>

definition despotify_search_more ::
  "'z libs \<Rightarrow> search option \<Rightarrow> int \<Rightarrow> int \<Rightarrow> waits \<Rightarrow> table \<Rightarrow> client \<Rightarrow> search option answered" where
  "despotify_search_more L search offset maxresults ws t c =
     (case search of
        None \<Rightarrow> Inr (None, ws, t, c)
      | Some s \<Rightarrow>
          rbind (search_tracks s c) (\<lambda>ts.
          if ts = [] then Inr (None, ws, t, c)
          else if total_tracks s \<le> offset then Inr (Some s, ws, t, c)
          else rbind (ask_search (query s) offset maxresults ws t (c\<lparr>d_response := Some buf_new\<rparr>)) (\<lambda>(ok, ws, t, c).
            if \<not> ok then Inr (None, ws, t, c)
            else rbind (inflated L c) (\<lambda>b.
              case b of
                None \<Rightarrow> Inr (Some s, ws, t, c\<lparr>d_response := None\<rparr>)
              | Some xml \<Rightarrow>
                  rbind (search_tracks s c) (\<lambda>ts.
                  rbind (xml_parse_tracklist (parse_xml L) [zero_track] xml False (d_high_bitrate c)) (\<lambda>(n, new).
                    let (s, c) = set_search_tracks (ts @ new) s c
                    in rbind (the_playlist c) (\<lambda>pl.
                         Inr (Some s, ws, t, (set_playlist (pl\<lparr>num_tracks := num_tracks pl + n\<rparr>) c)\<lparr>d_response := None\<rparr>))))))))"

section \<open>By link\<close>

definition link_id :: "ds_link \<Rightarrow> string result" where
  "link_id link = (case link_arg link of None \<Rightarrow> Inl Null_Deref | Some a \<Rightarrow> despotify_uri2id a)"

definition despotify_link_get_album :: "'z libs \<Rightarrow> ds_link \<Rightarrow> waits \<Rightarrow> table \<Rightarrow> client \<Rightarrow> ds_album_browse option answered" where
  "despotify_link_get_album L link ws t c = rbind (link_id link) (\<lambda>buf. despotify_get_album L buf ws t c)"

definition despotify_link_get_artist :: "'z libs \<Rightarrow> ds_link \<Rightarrow> waits \<Rightarrow> table \<Rightarrow> client \<Rightarrow> ds_artist_browse option answered" where
  "despotify_link_get_artist L link ws t c = rbind (link_id link) (\<lambda>buf. despotify_get_artist L buf ws t c)"

definition despotify_link_get_search :: "'z libs \<Rightarrow> ds_link \<Rightarrow> waits \<Rightarrow> table \<Rightarrow> client \<Rightarrow> search option answered" where
  "despotify_link_get_search L link ws t c =
     (case link_arg link of
        None \<Rightarrow> Inl Null_Deref
      | Some a \<Rightarrow> despotify_search L a (int MAX_SEARCH_RESULTS) ws t c)"

definition despotify_link_get_track :: "'z libs \<Rightarrow> ds_link \<Rightarrow> waits \<Rightarrow> table \<Rightarrow> client \<Rightarrow> ds_track list option answered" where
  "despotify_link_get_track L link ws t c = rbind (link_id link) (\<lambda>buf. despotify_get_track L buf ws t c)"

section \<open>From the request to the text\<close>

text \<open>
  The server's side of an answer: headers and packets whose bytes, behind the gzip header, are a
  stream that decompresses to \<open>out\<close>, fewer than \<open>2 ^ 30\<close> bytes.
\<close>

definition serves :: "'z libs \<Rightarrow> ('z \<Rightarrow> byte list \<Rightarrow> bool) \<Rightarrow> byte list list \<Rightarrow> byte list list \<Rightarrow> byte list \<Rightarrow> bool" where
  "serves L D hs ds out \<longleftrightarrow> packets_ok hs ds \<and> 10 < length (concat ds) \<and> length out < 2 ^ 30 \<and> decodes (z_inflate L) D \<and>
     (\<exists>z. z_init L (drop 10 (concat ds)) = (0, z) \<and> D z out)"

lemma inflated_served:
  assumes "serves L D hs ds out" "d_response c = Some b" "buf_bytes b = drop 10 (concat ds)"
  shows "inflated L c = Inr (Some (out @ [0]))"
proof -
  obtain z where z: "z_init L (drop 10 (concat ds)) = (0, z)" "D z out" "decodes (z_inflate L) D" "drop 10 (concat ds) \<noteq> []"
    "length out < 2 ^ 30"
    using assms(1) by (auto simp: serves_def)
  from inflated_all [OF z(3,1,2,4,5)] assms(2,3) show ?thesis by (auto simp: inflated_def)
qed

text \<open>A request for compressed text that is answered in time.\<close>

lemma browse_answered:
  assumes req: "request_ok req" "table_ok t" "run_request req Gzip_Callback t (c :: client) = Inr (0, t1, c1)"
    and st: "first_state req = CHANNEL_HEADER" "d_response c = Some buf_new"
    and i: "i = next_channel_id t" "i < 65536" and answer: "serves L D hs ds out"
  shows "\<exists>t' s n b. fetch (run_request req Gzip_Callback) late (([], [handled i mac hs ds]) # ws) t c =
      Inr (True, ws, t', c\<lparr>sess := s, sock := n, d_response := Some b, d_synced := d_synced c + 1\<rparr>) \<and>
    inflated L (c\<lparr>sess := s, sock := n, d_response := Some b, d_synced := d_synced c + 1\<rparr>) = Inr (Some (out @ [0])) \<and>
    (\<forall>j. find_ch j t' = find_ch j t) \<and>
    wire n = wire (sock c) @ packet_bytes (sess c) (request_cmd req) (request_payload req (word_of_int i))"
proof -
  have ok: "packets_ok hs ds" using answer by (simp add: serves_def)
  from fetch_answered [OF req _ st buf_inv_new _ i ok, of late mac ws] obtain t' s n b
    where "fetch (run_request req Gzip_Callback) late (([], [handled i mac hs ds]) # ws) t c =
      Inr (True, ws, t', c\<lparr>sess := s, sock := n, d_response := Some b, d_synced := d_synced c + 1\<rparr>)"
      "buf_bytes b = drop 10 (concat ds)" "\<forall>j. find_ch j t' = find_ch j t"
      "wire n = wire (sock c) @ packet_bytes (sess c) (request_cmd req) (request_payload req (word_of_int i))" by auto
  with inflated_served [OF answer, of "c\<lparr>sess := s, sock := n, d_response := Some b, d_synced := d_synced c + 1\<rparr>" b]
  show ?thesis by auto
qed

section \<open>Properties\<close>

text \<open>
  C9: An artist, from the request to the cache.  When the request goes out and its answer comes in
  time, the artist is what the parser makes of the text the server compressed, however it was
  cut into packets.  With the cache in use and room on the disk the second request is answered
  from there, with the same artist and without any packet.
\<close>

theorem artist_fetched:
  assumes miss: "cached artist_id c = None" and i: "hex_id artist_id 16 = Inr h"
    and sent: "cmd_browse BROWSE_ARTIST h 1 Gzip_Callback t
        (c\<lparr>d_artist_browse := Some zero_artist_browse, d_response := Some buf_new\<rparr>) = Inr (0, t1, c1)"
    and table: "table_ok t" "k = next_channel_id t" "k < 65536" and answer: "serves L D hs ds out"
    and parsed: "xml_parse_browse_artist (parse_xml L) zero_artist_browse (out @ [0]) (d_high_bitrate c) = Inr a"
  shows "\<exists>t' c'. despotify_get_artist L artist_id (([], [handled k mac hs ds]) # ws) t c = Inr (Some a, ws, t', c') \<and>
    (\<forall>j. find_ch j t' = find_ch j t) \<and>
    (d_use_cache c \<and> storable (d_disk c) artist_id (length out + 1) \<longrightarrow>
       (\<forall>ws2 t2. despotify_get_artist L artist_id ws2 t2 c' = Inr (Some a, ws2, t2, c')))"
proof -
  let ?c = "c\<lparr>d_artist_browse := Some zero_artist_browse, d_response := Some buf_new\<rparr>"
  have ok: "request_ok (Browse BROWSE_ARTIST [h])" using hex_id_length [OF i] by (simp add: BROWSE_ARTIST_def)
  have req: "run_request (Browse BROWSE_ARTIST [h]) Gzip_Callback t ?c = Inr (0, t1, c1)" using sent by simp
  from browse_answered [OF ok table(1) req _ _ table(2,3) answer, of "''Timeout while browsing artist''" mac ws]
  obtain t' s n b where f: "fetch (run_request (Browse BROWSE_ARTIST [h]) Gzip_Callback) ''Timeout while browsing artist''
      (([], [handled k mac hs ds]) # ws) t ?c =
      Inr (True, ws, t', ?c\<lparr>sess := s, sock := n, d_response := Some b, d_synced := d_synced c + 1\<rparr>)"
    "inflated L (?c\<lparr>sess := s, sock := n, d_response := Some b, d_synced := d_synced c + 1\<rparr>) = Inr (Some (out @ [0]))"
    "\<forall>j. find_ch j t' = find_ch j t"
    by (auto simp: first_state_def)
  have run: "run_request (Browse BROWSE_ARTIST [h]) Gzip_Callback = (cmd_browse BROWSE_ARTIST h 1 Gzip_Callback :: table \<Rightarrow> client \<Rightarrow> _)"
    by (intro ext) simp
  let ?c' = "(to_cache (d_use_cache c) artist_id (out @ [0])
      (?c\<lparr>sess := s, sock := n, d_response := Some b, d_synced := d_synced c + 1\<rparr>))\<lparr>d_artist_browse := Some a, d_response := None\<rparr>"
  have "cached artist_id (c\<lparr>d_artist_browse := Some zero_artist_browse\<rparr>) = None" using miss by (auto simp: cached_def split: if_splits)
  then have "despotify_get_artist L artist_id (([], [handled k mac hs ds]) # ws) t c = Inr (Some a, ws, t', ?c')"
    using f(1,2) parsed unfolding run by (simp add: despotify_get_artist_def i to_cache_def)
  moreover have "despotify_get_artist L artist_id ws2 t2 ?c' = Inr (Some a, ws2, t2, ?c')"
    if "d_use_cache c \<and> storable (d_disk c) artist_id (length out + 1)" for ws2 t2
    using that parsed by (simp add: despotify_get_artist_def cached_def to_cache_def cache.load_store cache.contains_store)
  ultimately show ?thesis using f(3) by blast
qed

definition zero_id :: string where
  "zero_id = replicate 32 (CHR ''0'')"

lemma zero_id_hex: "hex_id zero_id 16 = Inr (replicate 16 0)"
  by code_simp

lemma serves_stored: "10 < length (concat ds) \<Longrightarrow> packets_ok hs ds \<Longrightarrow> serves stored (=) hs ds (drop 10 (concat ds))"
proof -
  assume a: "10 < length (concat ds)" "packets_ok hs ds"
  then have "length (drop 10 (concat ds)) < 2 ^ 30" by (simp add: packets_ok_def) linarith
  with a stored_decodes show ?thesis by (simp add: serves_def) (simp add: stored_def)
qed

definition caching :: client where
  "caching = sending (plain_client\<lparr>d_use_cache := True\<rparr>)"

lemma caching_disk: "d_disk caching = empty_disk" "d_use_cache caching" "cached i caching = None"
  by (simp_all add: caching_def sending_def cached_def plain_client_def client_of_def client.defs conn.defs
      cache_contains_def empty_disk_def)

theorem artist_fetched_witness:
  "\<exists>a t' c'. despotify_get_artist stored zero_id [([], [handled 0 [0, 0, 0, 0] [] [replicate 9 0, [0, 60, 62]]])]
      no_channels caching = Inr (Some a, [], t', c') \<and>
     despotify_get_artist stored zero_id [] no_channels c' = Inr (Some a, [], no_channels, c')"
proof -
  let ?c = "caching\<lparr>d_artist_browse := Some zero_artist_browse, d_response := Some buf_new\<rparr>"
  have "sock ?c = \<lparr>rx_q = [], tx_q = [Taken 65000], wire = []\<rparr>" by (simp add: caching_def sending_def)
  moreover have "request_ok (Browse BROWSE_ARTIST [replicate 16 0])" by (simp add: BROWSE_ARTIST_def)
  ultimately obtain t1 c1 where sent: "cmd_browse BROWSE_ARTIST (replicate 16 0) 1 Gzip_Callback no_channels ?c = Inr (0, t1, c1)"
    using sending_request [of "Browse BROWSE_ARTIST [replicate 16 0]" ?c Gzip_Callback no_channels] by (auto simp: BROWSE_ARTIST_def)
  have sv: "serves stored (=) [] [replicate 9 0, [0, 60, 62]] (drop 10 (concat [replicate 9 0, [0, 60, 62]]))"
    by (rule serves_stored) (simp_all add: packets_ok_def)
  have "\<exists>a. xml_parse_browse_artist (parse_xml stored) zero_artist_browse (drop 10 (concat [replicate 9 0, [0, 60, 62]]) @ [0])
      (d_high_bitrate caching) = Inr a"
    by (simp add: xml_parse_browse_artist_def stored_def parse_browse_albums_def)
  then obtain a where a: "xml_parse_browse_artist (parse_xml stored) zero_artist_browse
      (drop 10 (concat [replicate 9 0, [0, 60, 62]]) @ [0]) (d_high_bitrate caching) = Inr a" by blast
  note r = artist_fetched [OF caching_disk(3) zero_id_hex sent no_channels_ok(1) no_channels_ok(2) [symmetric] _ sv a,
      of "[0, 0, 0, 0]" "[]"]
  have "storable (d_disk caching) zero_id (length (drop 10 (concat [replicate 9 0, [0, 60, 62 :: byte]])) + 1)"
    by (simp add: caching_disk storable_def empty_disk_def PATH_MAX_def zero_id_def)
  with r caching_disk(2) show ?thesis by auto
qed

text \<open>The array of ids is the ids one after the other when each of them can be converted.\<close>

lemma fill_ids_all:
  assumes "list_all2 (\<lambda>a h. hex_id a 16 = Inr h) as hs" "length cells = n * 16" "i + length as \<le> n"
  shows "fill_ids as i cells = Inr (take (i * 16) cells @ map Some (concat hs) @ drop ((i + length as) * 16) cells)"
  using assms
proof (induction as hs arbitrary: i cells rule: list_all2_induct)
  case (Cons a as h hs)
  have h: "hex_ascii_to_bytes a 16 = Inr (h, True)" "length h = 16"
    using Cons.hyps(1) hex_id_length [OF Cons.hyps(1)] by (auto simp: hex_id_def rbind_Inr_iff split: if_splits)
  let ?cells = "store_at cells (i * 16) (map Some h)"
  have le: "i * 16 \<le> length cells" "(i + 1) * 16 \<le> length cells" using Cons.prems by auto
  have len: "length ?cells = n * 16" using Cons.prems le h(2) by (simp add: store_at_def)
  have tk: "take ((i + 1) * 16) ?cells = take (i * 16) cells @ map Some h"
    using le h(2) by (simp add: store_at_def min_def)
  have dr: "drop ((i + 1 + length as) * 16) ?cells = drop ((i + 1 + length as) * 16) cells"
    using le h(2) by (simp add: store_at_def min_def algebra_simps)
  have "fill_ids (a # as) i cells = fill_ids as (i + 1) ?cells" using h(1) by simp
  also have "\<dots> = Inr (take ((i + 1) * 16) ?cells @ map Some (concat hs) @ drop ((i + 1 + length as) * 16) ?cells)"
    using Cons.prems by (intro Cons.IH [OF len]) simp
  also have "\<dots> = Inr (take (i * 16) cells @ map Some (concat (h # hs)) @ drop ((i + length (a # as)) * 16) cells)"
    unfolding tk dr by simp
  finally show ?case .
qed simp

lemma written_all: "written (map Some bs) = Inr bs"
  by (auto simp: written_def o_def)


lemma caching_sock: "sock (caching\<lparr>d_response := Some buf_new\<rparr>) = \<lparr>rx_q = [], tx_q = [Taken 65000], wire = []\<rparr>"
  by (simp add: caching_def sending_def)


text \<open>
  Continuing a search.  The new tracks are put behind those the search has.  Their number is
  added to the playlist the client works on: after another search or playlist has been loaded
  that is not the search's any more, whose own count then stays behind, while the other
  one's grows without a track.
\<close>

lemma search_continued:
  assumes s: "search_tracks s c = Inr (tr # trs)" "offset < total_tracks s" "length (query s) < 256"
      "(word_of_int maxresults :: u32) \<noteq> 0"
    and sent: "run_request (Search (query s) (word_of_int offset) (word_of_int maxresults)) Gzip_Callback t
        (c\<lparr>d_response := Some buf_new\<rparr>) = Inr (0, t1, c1)"
    and table: "table_ok t" "k = next_channel_id t" "k < 65536" and answer: "serves L D hs ds out"
    and parsed: "xml_parse_tracklist (parse_xml L) [zero_track] (out @ [0]) False (d_high_bitrate c) = Inr (n, new)"
    and pl: "d_playlist c = pl # pls"
  shows "\<exists>s' t' c'. despotify_search_more L (Some s) offset maxresults (([], [handled k mac hs ds]) # ws) t c =
      Inr (Some s', ws, t', c') \<and> search_tracks s' c' = Inr (tr # trs @ new) \<and>
    (\<exists>pl'. d_playlist c' = pl' # pls \<and> num_tracks pl' = num_tracks pl + n \<and>
      (case sr_own s of None \<Rightarrow> tracks pl' = tr # trs @ new
       | Some own \<Rightarrow> tracks pl' = tracks pl \<and> sr_own s' = Some (own\<lparr>tracks := tr # trs @ new\<rparr>)))"
proof -
  have ok: "request_ok (Search (query s) (word_of_int offset) (word_of_int maxresults))" using s(3,4) by simp
  have pk: "packets_ok hs ds" using answer by (simp add: serves_def)
  from wait_answered [OF ok table(1) sent _ _ _ buf_inv_new _ table(2,3) pk, of mac ws] obtain t' se m b
    where w: "despotify_wait_timeout (([], [handled k mac hs ds]) # ws) t1 c1 =
      Inr (True, ws, t', c\<lparr>sess := se, sock := m, d_response := Some b, d_synced := d_synced c + 1\<rparr>)"
      "buf_bytes b = drop 10 (concat ds)"
    by (auto simp: first_state_def)
  let ?c = "c\<lparr>sess := se, sock := m, d_response := Some b, d_synced := d_synced c + 1\<rparr>"
  have inf: "inflated L ?c = Inr (Some (out @ [0]))" using inflated_served [OF answer] w(2) by simp
  have ask: "ask_search (query s) offset maxresults (([], [handled k mac hs ds]) # ws) t (c\<lparr>d_response := Some buf_new\<rparr>) =
      Inr (True, ws, t', ?c)"
    using sent by (simp add: ask_search_def w(1))
  have st: "search_tracks s ?c = Inr (tr # trs)"
    using s(1) pl by (cases "sr_own s") (simp_all add: search_tracks_def the_playlist_def)
  show ?thesis
  proof (cases "sr_own s")
    case None
    with s(1) pl have "tracks pl = tr # trs" by (simp add: search_tracks_def the_playlist_def)
    with None show ?thesis using s(1,2) ask inf st parsed pl
      by (simp add: despotify_search_more_def set_search_tracks_def set_playlist_def the_playlist_def search_tracks_def)
  next
    case (Some own)
    with s(1) have "tracks own = tr # trs" by (simp add: search_tracks_def)
    with Some show ?thesis using s(1,2) ask inf st parsed pl
      by (simp add: despotify_search_more_def set_search_tracks_def set_playlist_def the_playlist_def search_tracks_def)
  qed
qed

definition abba :: search where
  "abba = ds_search_result.extend (zero_search_result\<lparr>query := ''abba'', total_tracks := 5\<rparr>)
     (search.fields (Some (zero_playlist\<lparr>num_tracks := 1, tracks := [zero_track]\<rparr>)))"

lemma search_continued_witness:
  "\<exists>s' t' c'. despotify_search_more stored (Some abba) 1 100 [([], [handled 0 [0, 0, 0, 0] [] [replicate 9 0, [0, 60, 62]]])]
      no_channels (caching\<lparr>d_playlist := [zero_playlist]\<rparr>) = Inr (Some s', [], t', c') \<and>
     search_tracks s' c' = Inr [zero_track, zero_track]"
proof -
  let ?c = "caching\<lparr>d_playlist := [zero_playlist]\<rparr>"
  have q: "query abba = ''abba''" "total_tracks abba = 5" "search_tracks abba ?c = Inr [zero_track]"
    by (simp_all add: abba_def search_tracks_def ds_search_result.defs search.defs)
  have r: "request_ok (Search (query abba) (word_of_int 1) (word_of_int 100))"
    "\<forall>i. length (request_payload (Search (query abba) (word_of_int 1) (word_of_int 100)) i) < 60000"
    by (simp_all add: q)
  have so: "sock (?c\<lparr>d_response := Some buf_new\<rparr>) = \<lparr>rx_q = [], tx_q = [Taken 65000], wire = []\<rparr>"
    by (simp add: caching_def sending_def)
  obtain t1 c1 where sent: "run_request (Search (query abba) (word_of_int 1) (word_of_int 100)) Gzip_Callback no_channels
      (?c\<lparr>d_response := Some buf_new\<rparr>) = Inr (0, t1, c1)"
    using sending_request [OF r so, of Gzip_Callback no_channels] by blast
  have sv: "serves stored (=) [] [replicate 9 0, [0, 60, 62]] (drop 10 (concat [replicate 9 0, [0, 60, 62]]))"
    by (rule serves_stored) (simp_all add: packets_ok_def)
  have p: "xml_parse_tracklist (parse_xml stored) [zero_track] (drop 10 (concat [replicate 9 0, [0, 60, 62]]) @ [0]) False
      (d_high_bitrate ?c) = Inr (0, [zero_track])"
    by (simp add: xml_parse_tracklist_def parse_tracks_def stored_def)
  have d: "d_playlist ?c = zero_playlist # []" by simp
  show ?thesis
    using search_continued [OF q(3) _ _ _ sent no_channels_ok(1) no_channels_ok(2) [symmetric] _ sv p d, of "[0, 0, 0, 0]" "[]"] q
    by auto
qed

end
