(* ===== verification/Caching.thy ===== *)
theory Caching
  imports Browse
begin

text \<open>
  What leaves the cache alone.  Between storing a blob and asking for it again the client sends
  requests, waits for them and stores other blobs, while the network thread handles whatever
  packets come in.  None of that touches the blob; only \<open>dump_generic\<close>, which no request of
  \<^verbatim>\<open>src/src/lib/despotify.c\<close> registers, writes files of its own.
\<close>

section \<open>An invariant of the dispatch\<close>

text \<open>
  A condition on the channel table and the world that the callbacks keep, and that does not
  depend on the counters and states of the channels, is kept by \<open>channel_process\<close>.
\<close>

locale channel_invariant =
  fixes run :: "('cb, 'w) runner"
    and I :: "'cb chan_table \<Rightarrow> 'w \<Rightarrow> bool"
  assumes upd: "I t w \<Longrightarrow> (\<And>ch. ch_callback (f ch) = ch_callback ch) \<Longrightarrow> I (upd_ch i f t) w"
    and unregister: "I t w \<Longrightarrow> channel_unregister i t = Inr t' \<Longrightarrow> I t' w"
    and run_keeps: "I t w \<Longrightarrow> find_ch i t = Some ch \<Longrightarrow> run (ch_callback ch) ch d t w = Inr (r, t', w') \<Longrightarrow> I t' w'"
begin

lemma header_loop_keeps:
  "\<lbrakk>header_loop run i buf len ptr consumed prev t w = Inr (r, t', w'); I t w\<rbrakk> \<Longrightarrow> I t' w'"
proof (induction "length buf - ptr" arbitrary: ptr consumed prev t w rule: less_induct)
  case less
  from less.prems(1) show ?case
  proof (cases rule: header_loop_cases)
    case stop
    with less.prems(2) show ?thesis by simp
  next
    case (step hl ch ret t1 w1)
    have "I (upd_ch i count_header t) w" using less.prems(2) by (rule upd) simp
    from run_keeps [OF this step(4,2)] have "I (upd_ch i (add_header_len hl) t1) w1" by (rule upd) simp
    moreover have "length buf - (ptr + 2 + unat hl) < length buf - ptr" using step(1) by simp
    ultimately show ?thesis using less.hyps step(3) by blast
  qed
qed

lemma process_header_keeps:
  assumes "process_header run i buf len t w = Inr (r, t', w')" "I t w"
  shows "I t' w'"
proof -
  from assms(1) obtain q t1 w1 where l: "header_loop run i buf len 0 0 0 t w = Inr (q, t1, w1)"
    by (auto simp: process_header_def rbind_Inr_iff split: if_splits)
  with assms(1) have t': "(t' = t1 \<or> t' = upd_ch i (set_state CHANNEL_DATA) t1) \<and> w' = w1"
    by (cases q) (auto simp: process_header_def split: if_splits)
  have "I t1 w1" by (rule header_loop_keeps [OF l assms(2)])
  moreover from this have "I (upd_ch i (set_state CHANNEL_DATA) t1) w1" by (rule upd) simp
  ultimately show ?thesis using t' by auto
qed

lemma process_data_keeps:
  assumes "process_data run i buf len t w = Inr (r, t', w')" "I t w"
  shows "I t' w'"
proof -
  define t0 where "t0 = (if len = 0 then upd_ch i (set_state CHANNEL_END) t else t)"
  have "I (upd_ch i (set_state CHANNEL_END) t) w" using assms(2) by (rule upd) simp
  then have t0: "I t0 w" using assms(2) by (simp add: t0_def)
  from assms(1) obtain ch t1 where f: "find_ch i t0 = Some ch" and
    r: "run (ch_callback ch) ch (take (unat len) buf) t0 w = Inr (r, t1, w')"
    and t': "t' = upd_ch i (add_data_len len) t1 \<or>
      channel_unregister i (upd_ch i (add_data_len len) t1) = Inr t'"
    by (auto simp: process_data_def Let_def rbind_Inr_iff t0_def split: if_splits option.splits)
  from run_keeps [OF t0 f r] have "I (upd_ch i (add_data_len len) t1) w'" by (rule upd) simp
  with t' show ?thesis using unregister by blast
qed

lemma process_keeps:
  assumes "channel_process run buf len error t w = Inr (r, t', w')" "I t w"
  shows "I t' w'"
proof -
  have "I (upd_ch i (set_state CHANNEL_ERROR) t) w" for i using assms(2) by (rule upd) simp
  with assms show ?thesis
    by (auto simp: channel_process_def Let_def rbind_Inr_iff split: option.splits if_splits
        dest: process_header_keeps process_data_keeps)
qed

end

section \<open>The client's callbacks\<close>

definition no_dumps :: "table \<Rightarrow> bool" where
  "no_dumps t \<longleftrightarrow> (\<forall>ch \<in> set (head t). ch_callback ch \<noteq> Dump_Generic)"

lemma no_dumps_upd: "no_dumps t \<Longrightarrow> (\<And>ch. ch_callback (f ch) = ch_callback ch) \<Longrightarrow> no_dumps (upd_ch i f t)"
  by (auto simp: no_dumps_def upd_ch_def)

lemma no_dumps_unregister: "no_dumps t \<Longrightarrow> channel_unregister i t = Inr t' \<Longrightarrow> no_dumps t'"
  by (auto simp: no_dumps_def channel_unregister_def dest!: unlink_ch_Some split: option.splits)

lemma no_dumps_register:
  "no_dumps t \<Longrightarrow> cb \<noteq> Dump_Generic \<Longrightarrow> channel_register name cb t = (ch, t') \<Longrightarrow> no_dumps t'"
  by (auto simp: no_dumps_def channel_register_def Let_def)

text \<open>Nothing of the disk or the use of the cache has changed.\<close>

definition same_disk :: "client \<Rightarrow> client \<Rightarrow> bool" where
  "same_disk c c' \<longleftrightarrow> d_disk c' = d_disk c \<and> d_use_cache c' = d_use_cache c"

lemma write_buf_disk: "write_buf cmd b t c = Inr (r, t', c') \<Longrightarrow> t' = t \<and> (\<exists>s n. c' = c\<lparr>sess := s, sock := n\<rparr>)"
  by (auto simp: write_buf_def rbind_Inr_iff split_def)

lemma snd_ioctl_disk: "snd_ioctl cmd data len c = Inr c' \<Longrightarrow> same_disk c c'"
  by (auto simp: snd_ioctl_def same_disk_def Let_def rbind_Inr_iff split: if_splits option.splits)

lemma cmd_aeskey_disk:
  assumes "cmd_aeskey fid tid Aes_Callback t c = Inr (r, t', c')" "no_dumps t"
  shows "no_dumps t' \<and> same_disk c c'"
proof -
  from assms(1) obtain f where f: "slice fid 0 20 = Inr f" by (auto simp: cmd_aeskey_def rbind_Inr_iff)
  obtain ch t1 where reg: "channel_register (Some (''key-'' @ hex_bytes_to_ascii f 20)) Aes_Callback t = (ch, t1)"
    by fastforce
  from assms(1) have "t' = upd_ch (ch_id ch) (\<lambda>ch. ch\<lparr>ch_state := CHANNEL_DATA\<rparr>) t1"
    "\<exists>s n. c' = c\<lparr>sess := s, sock := n\<rparr>"
    using reg by (auto simp: cmd_aeskey_def f Let_def rbind_Inr_iff dest!: write_buf_disk)
  with no_dumps_register [OF assms(2) _ reg] show ?thesis
    by (auto simp: same_disk_def intro!: no_dumps_upd)
qed

lemma request_key_disk: "request_key t c = Inr (r, t', c') \<Longrightarrow> no_dumps t \<Longrightarrow> no_dumps t' \<and> same_disk c c'"
  by (auto simp: request_key_def rbind_Inr_iff split: list.splits dest: cmd_aeskey_disk)

lemma substream_end_disk:
  "substream_end ch t c = Inr (r, t', c') \<Longrightarrow> no_dumps t \<Longrightarrow> no_dumps t' \<and> same_disk c c'"
  by (auto simp: substream_end_def Let_def rbind_Inr_iff same_disk_def split: if_splits
      dest!: snd_ioctl_disk request_key_disk)

lemma ds_run_disk:
  assumes "ds_run cb ch d t c = Inr (r, t', c')" "cb \<noteq> Dump_Generic" "no_dumps t"
  shows "no_dumps t' \<and> same_disk c c'"
proof (cases cb)
  case Substream_Callback
  with assms(1) have r: "despotify_substream_callback ch d t c = Inr (r, t', c')" by (simp add: ds_run_def)
  have "substream_data d c = Inr c1 \<Longrightarrow> same_disk c c1" for c1
    by (auto simp: substream_data_def Let_def same_disk_def split: prod.splits dest!: snd_ioctl_disk)
  with r assms(3) show ?thesis
    by (auto simp: despotify_substream_callback_def rbind_Inr_iff Let_def same_disk_def
        split: channel_state.splits if_splits dest: substream_end_disk)
qed (use assms in \<open>auto simp: ds_run_def despotify_aes_callback_def despotify_plain_callback_def
    despotify_gzip_callback_def append_response_def tell_done_def same_disk_def Let_def rbind_Inr_iff
    split: channel_state.splits if_splits list.splits option.splits dest!: snd_ioctl_disk\<close>)

interpretation disk: channel_invariant ds_run "\<lambda>t c'. no_dumps t \<and> same_disk c c'" for c
proof
  fix i d r t t' ch and w w' :: client
  assume i: "no_dumps t \<and> same_disk c w" and f: "find_ch i t = Some ch" and r: "ds_run (ch_callback ch) ch d t w = Inr (r, t', w')"
  have "ch_callback ch \<noteq> Dump_Generic" using find_ch_Some [OF f] i by (simp add: no_dumps_def)
  from ds_run_disk [OF r this] i show "no_dumps t' \<and> same_disk c w'" by (auto simp: same_disk_def)
qed (auto intro: no_dumps_upd no_dumps_unregister)

section \<open>The network thread's packets\<close>

text \<open>A step of the script in which the network thread handles some packets: bytes, length and error flag.\<close>

fun handle_packets :: "(byte list \<times> u16 \<times> bool) list \<Rightarrow> table \<Rightarrow> client \<Rightarrow> (table \<times> client) result" where
  "handle_packets [] t c = Inr (t, c)"
| "handle_packets ((buf, len, error) # ps) t c =
     rbind (channel_process ds_run buf len error t c) (\<lambda>(_, t, c). handle_packets ps t c)"

lemma handle_packets_disk:
  "\<lbrakk>handle_packets ps t c = Inr (t', c'); no_dumps t\<rbrakk> \<Longrightarrow> no_dumps t' \<and> same_disk c c'"
proof (induction ps arbitrary: t c)
  case (Cons p ps)
  from Cons.prems(1) obtain r t1 c1 where p: "channel_process ds_run (fst p) (fst (snd p)) (snd (snd p)) t c = Inr (r, t1, c1)"
    "handle_packets ps t1 c1 = Inr (t', c')"
    by (cases p) (auto simp: rbind_Inr_iff)
  have "no_dumps t1 \<and> same_disk c c1"
    by (rule disk.process_keeps [OF p(1)]) (use Cons.prems(2) in \<open>simp add: same_disk_def\<close>)
  with Cons.IH [OF p(2)] show ?case by (auto simp: same_disk_def)
qed (simp add: same_disk_def)

text \<open>The answers of the server, as the properties deliver them, are such steps.\<close>

lemma handled_packets: "\<exists>ps. handled k mac hs ds = handle_packets ps"
proof -
  have "deliver_all ds_run k mac bs t c = handle_packets
      (map (\<lambda>b. (put_u16 (word_of_int k) @ b @ mac, word_of_nat (length b + 2), False)) bs) t c" for bs t c
    by (induction bs arbitrary: t c) (simp_all add: deliver_def split_def)
  then show ?thesis by (intro exI ext) (simp add: handled_def)
qed

text \<open>A script in which nothing but that happens.\<close>

definition only_packets :: "waits \<Rightarrow> bool" where
  "only_packets ws \<longleftrightarrow> (\<forall>(before, during) \<in> set ws. \<forall>f \<in> set (before @ during). \<exists>ps. f = handle_packets ps)"

lemma all_steps_disk:
  "\<lbrakk>all_steps es t c = Inr (t', c'); \<forall>f \<in> set es. \<exists>ps. f = handle_packets ps; no_dumps t\<rbrakk> \<Longrightarrow>
   no_dumps t' \<and> same_disk c c'"
proof (induction es arbitrary: t c)
  case (Cons e es)
  from Cons.prems(1) obtain t1 c1 where e: "e t c = Inr (t1, c1)" "all_steps es t1 c1 = Inr (t', c')"
    by (auto simp: rbind_Inr_iff)
  have "no_dumps t1 \<and> same_disk c c1" using e(1) Cons.prems(2,3) by (auto dest: handle_packets_disk)
  with Cons.IH [OF e(2)] Cons.prems(2) show ?case by (auto simp: same_disk_def)
qed (simp add: same_disk_def)

lemma wait_timeout_disk:
  assumes "despotify_wait_timeout ws t c = Inr (ready, ws', t', c')" "only_packets ws" "no_dumps t"
  shows "only_packets ws' \<and> no_dumps t' \<and> same_disk c c'"
proof (cases ws)
  case Nil
  with assms show ?thesis by (auto simp: despotify_wait_timeout_def same_disk_def Let_def)
next
  case (Cons w ws1)
  obtain before during where w: "w = (before, during)" by (cases w)
  from assms(1) obtain t1 c1 where r: "all_steps before t c = Inr (t1, c1)" "all_steps during t1 c1 = Inr (t', c')" "ws' = ws1"
    by (auto simp: Cons w despotify_wait_timeout_def rbind_Inr_iff Let_def)
  have p: "\<forall>f \<in> set before. \<exists>ps. f = handle_packets ps" "\<forall>f \<in> set during. \<exists>ps. f = handle_packets ps" "only_packets ws1"
    using assms(2) by (auto simp: only_packets_def Cons w)
  from all_steps_disk [OF r(1) p(1) assms(3)] all_steps_disk [OF r(2) p(2)] p(3) r(3)
  show ?thesis by (auto simp: same_disk_def)
qed

section \<open>Requests for tracks\<close>

text \<open>
  \<open>cmd_browse\<close> with any number of ids: what it does to the channel table and the client, whatever
  the answer of the socket.
\<close>

lemma cmd_browse_split:
  assumes "cmd_browse kind idlist num cb t (c :: client) = Inr (r, t', c')"
  obtains name ch where "channel_register (Some name) cb t = (ch, t')" "\<exists>s n. c' = c\<lparr>sess := s, sock := n\<rparr>"
proof -
  from assms obtain f where f: "slice idlist 0 16 = Inr f" by (auto simp: cmd_browse_def rbind_Inr_iff split: if_splits)
  obtain ch t1 where reg: "channel_register (Some (''browse-'' @ hex_bytes_to_ascii f 16)) cb t = (ch, t1)"
    by fastforce
  have c': "t' = t1" "\<exists>s n. c' = c\<lparr>sess := s, sock := n\<rparr>"
    using assms reg by (auto simp: cmd_browse_def f Let_def rbind_Inr_iff split: if_splits dest!: write_buf_disk)
  from that [OF reg [folded c'(1)] c'(2)] show thesis .
qed

lemma cmd_browse_result:
  assumes "cmd_browse kind idlist num cb t (c :: client) = Inr (r, t', c')" "table_ok t"
  defines "i \<equiv> next_channel_id t"
  shows "table_ok t'" "\<And>j. j \<noteq> i \<Longrightarrow> find_ch j t' = find_ch j t"
    "\<exists>ch. find_ch i t' = Some ch \<and> ch_callback ch = cb \<and> ch_state ch = CHANNEL_HEADER \<and> ch_total_data_len ch = 0"
proof -
  obtain name ch where reg: "channel_register (Some name) cb t = (ch, t')" using cmd_browse_split [OF assms(1)] .
  note ok = channel_register_ok [OF assms(2) reg]
  show "table_ok t'" by (rule ok(1))
  show "\<And>j. j \<noteq> i \<Longrightarrow> find_ch j t' = find_ch j t" using ok(2,3) by (simp add: find_ch_def i_def)
  show "\<exists>ch. find_ch i t' = Some ch \<and> ch_callback ch = cb \<and> ch_state ch = CHANNEL_HEADER \<and> ch_total_data_len ch = 0"
    using ok(2,3) reg by (auto simp: find_ch_def i_def channel_register_def Let_def)
qed

lemma cmd_browse_frame:
  assumes "cmd_browse kind idlist num cb t (c :: client) = Inr (r, t', c')"
  shows "\<exists>s n. c' = c\<lparr>sess := s, sock := n\<rparr>" "no_dumps t \<Longrightarrow> cb \<noteq> Dump_Generic \<Longrightarrow> no_dumps t'"
proof -
  obtain name ch where reg: "channel_register (Some name) cb t = (ch, t')"
    and c': "\<exists>s n. c' = c\<lparr>sess := s, sock := n\<rparr>"
    using cmd_browse_split [OF assms] .
  from c' show "\<exists>s n. c' = c\<lparr>sess := s, sock := n\<rparr>" .
  show "no_dumps t \<Longrightarrow> cb \<noteq> Dump_Generic \<Longrightarrow> no_dumps t'" by (rule no_dumps_register [OF _ _ reg])
qed

lemma fetch_tracks_disk:
  assumes "fetch (cmd_browse BROWSE_TRACK idlist num Gzip_Callback) late ws t c = Inr (ok, ws', t', c')"
    "only_packets ws" "no_dumps t"
  shows "only_packets ws' \<and> no_dumps t' \<and> same_disk c c'"
proof -
  from assms(1) obtain e t1 c1 where a: "cmd_browse BROWSE_TRACK idlist num Gzip_Callback t c = Inr (e, t1, c1)"
    by (auto simp: fetch_def rbind_Inr_iff)
  have 1: "no_dumps t1" "same_disk c c1" using cmd_browse_frame [OF a] assms(3) by (auto simp: same_disk_def)
  show ?thesis
  proof (cases "e = 0")
    case False
    with assms(1,2) a 1 show ?thesis by (auto simp: fetch_def network_error_def same_disk_def)
  next
    case True
    with assms(1) a obtain ready c2 where w: "despotify_wait_timeout ws t1 c1 = Inr (ready, ws', t', c2)"
      "c' = c2 \<or> c' = c2\<lparr>d_last_error := Some late\<rparr>"
      by (auto simp: fetch_def rbind_Inr_iff split: if_splits)
    from wait_timeout_disk [OF w(1) assms(2) 1(1)] 1(2) w(2) show ?thesis by (auto simp: same_disk_def)
  qed
qed

end
