(* ===== verification/Playlists.thy ===== *)
theory Playlists
  imports Caching
begin

text \<open>
  The playlists of \<^verbatim>\<open>src/src/lib/despotify.c\<close>: fetching one with its tracks, fetching all that are
  stored, renaming and sharing.  A playlist whose pointer is given to the user is a value; one
  that has been freed while the client still points at it is no playlist any more.
\<close>

section \<open>The tracks of a playlist\<close>

text \<open>
  The name under which a batch is cached: the hash of its ids.  40 digits and a NUL are written
  into \<open>tracks_hash[33]\<close>.
\<close>

definition tracks_hash :: "'z libs \<Rightarrow> SHA1_CTX \<Rightarrow> byte list \<Rightarrow> (string \<times> SHA1_CTX) result" where
  "tracks_hash L ctx tracklist =
     (case sha1_of ctx [tracklist] of
        None \<Rightarrow> Inl Uninit
      | Some (hash, ctx) \<Rightarrow>
          if 33 + frame_slack L < 2 * 20 + 1 then Inl Out_Of_Bounds
          else Inr (hex_bytes_to_ascii hash 20, ctx))"

text \<open>
  One turn of the loop, from the track with index \<open>k\<close> on: whether it went well, how many tracks
  it asked for, how many got their data.  \<open>cells\<close> is the array of ids, which keeps what
  earlier turns have put there; of an empty batch its first 16 bytes are read nevertheless.
\<close>

definition load_batch ::
  "'z libs \<Rightarrow> bool \<Rightarrow> nat \<Rightarrow> byte option list \<Rightarrow> SHA1_CTX \<Rightarrow> ds_track list \<Rightarrow> waits \<Rightarrow> table \<Rightarrow> client
   \<Rightarrow> (bool \<times> nat \<times> int \<times> byte option list \<times> SHA1_CTX \<times> ds_track list) answered" where
  "load_batch L cache_do_store k cells ctx ts ws t c =
     (let c = c\<lparr>d_response := Some buf_new\<rparr>;
          batch = take MAX_BROWSE_REQ (drop k ts);
          count = length batch
      in rbind (fill_ids (map track_id batch) 0 cells) (\<lambda>cells.
         rbind (written (take (count * 16) cells)) (\<lambda>tracklist.
         rbind (tracks_hash L ctx tracklist) (\<lambda>(hash, ctx).
           case cached hash c of
             Some data \<Rightarrow>
               rbind (xml_parse_tracklist (parse_xml L) (drop k ts) data True (d_high_bitrate c)) (\<lambda>(n, new).
                 Inr ((True, count, n, cells, ctx, take k ts @ new), ws, t, c))
           | None \<Rightarrow>
               rbind (written (take (max 16 (count * 16)) cells)) (\<lambda>tracklist.
               rbind (fetch (cmd_browse BROWSE_TRACK tracklist (int count) Gzip_Callback)
                        ''Timeout while loading tracks'' ws t c) (\<lambda>(ok, ws, t, c).
                 if \<not> ok then Inr ((False, count, 0, cells, ctx, ts), ws, t, c)
                 else rbind (inflated L c) (\<lambda>b.
                   case b of
                     None \<Rightarrow> Inr ((True, count, 0, cells, ctx, ts), ws, t, c\<lparr>d_response := None\<rparr>)
                   | Some xml \<Rightarrow>
                       let c = to_cache cache_do_store hash xml c
                       in rbind (xml_parse_tracklist (parse_xml L) (drop k ts) xml True (d_high_bitrate c)) (\<lambda>(n, new).
                            Inr ((True, count, n, cells, ctx, take k ts @ new), ws, t, c\<lparr>d_response := None\<rparr>)))))))))"

text \<open>The loop; \<open>None\<close> is a call that never returns.\<close>

partial_function (option) load_batches ::
  "'z libs \<Rightarrow> bool \<Rightarrow> int \<Rightarrow> int \<Rightarrow> nat \<Rightarrow> byte option list \<Rightarrow> SHA1_CTX \<Rightarrow> int \<Rightarrow> ds_track list
   \<Rightarrow> waits \<Rightarrow> table \<Rightarrow> client \<Rightarrow> (bool \<times> int \<times> ds_track list) answered option" where
  "load_batches L cache_do_store num totcount k cells ctx track_count ts ws t c =
     (if totcount < num then
        (case load_batch L cache_do_store k cells ctx ts ws t c of
           Inl e \<Rightarrow> Some (Inl e)
         | Inr ((ok, count, n, cells, ctx, ts), ws, t, c) \<Rightarrow>
             if \<not> ok then Some (Inr ((False, track_count, ts), ws, t, c))
             else load_batches L cache_do_store num (totcount + int count) (k + count) cells ctx
                    (track_count + n) ts ws t c)
      else Some (Inr ((True, track_count, ts), ws, t, c)))"

text \<open>A track that is listed twice got its data once; the others are copied from it.\<close>

definition copy_track :: "ds_track \<Rightarrow> ds_track" where
  "copy_track tt = tt\<lparr>artist := (if artist tt = [] then [zero_artist] else artist tt), has_meta_data := True\<rparr>"

definition fill_duplicate :: "nat \<Rightarrow> ds_track list \<times> int \<Rightarrow> ds_track list \<times> int" where
  "fill_duplicate i =
     (\<lambda>(ts, n).
        if has_meta_data (ts ! i) then (ts, n)
        else case find (\<lambda>tt. has_meta_data tt \<and> strncmp_eq (track_id tt) (track_id (ts ! i)) 33) ts of
               None \<Rightarrow> (ts, n)
             | Some tt \<Rightarrow> (ts[i := copy_track tt], n + 1))"

definition fill_duplicates :: "ds_track list \<Rightarrow> int \<Rightarrow> ds_track list \<times> int" where
  "fill_duplicates ts n = fold fill_duplicate [0..<length ts] (ts, n)"

definition despotify_load_tracks :: "'z libs \<Rightarrow> bool \<Rightarrow> waits \<Rightarrow> table \<Rightarrow> client \<Rightarrow> bool answered" where
  "despotify_load_tracks L cache_do_store ws t c =
     rbind (the_playlist c) (\<lambda>pl.
       if num_tracks pl = 0 then Inr (True, ws, t, c)
       else case load_batches L cache_do_store (num_tracks pl) 0 0 (replicate (MAX_BROWSE_REQ * 16) None)
                   (stack_ctx L) 0 (tracks pl) ws t c of
              None \<Rightarrow> Inl Blocked
            | Some r \<Rightarrow> rbind r (\<lambda>((ok, n, ts), ws, t, c).
                if \<not> ok then Inr (False, ws, t, c)
                else let (ts, n) = (if n < num_tracks pl then fill_duplicates ts n else (ts, n))
                     in Inr (True, ws, t, set_playlist (pl\<lparr>tracks := ts, num_tracks := n\<rparr>) c)))"

section \<open>One playlist\<close>

definition load_lists :: string where
  "load_lists = ''<?xml version='' @ [CHR 0x22] @ ''1.0'' @ [CHR 0x22] @ '' encoding='' @ [CHR 0x22] @ ''utf-8'' @
     [CHR 0x22] @ '' ?>'' @ [CHR 0x0A] @ ''<playlist>'' @ [CHR 0x0A]"

text \<open>What both ways of getting a playlist end with; the struct is freed when that fails.\<close>

definition with_tracks :: "'z libs \<Rightarrow> bool \<Rightarrow> waits \<Rightarrow> table \<Rightarrow> client \<Rightarrow> ds_playlist list option answered" where
  "with_tracks L cache_do_store ws t c =
     rbind (despotify_load_tracks L cache_do_store ws t c) (\<lambda>(ok, ws, t, c).
       if ok then Inr (Some (d_playlist c), ws, t, c)
       else Inr (None, ws, t, c\<lparr>d_last_error := Some ''Failed loading track info'', d_playlist := []\<rparr>))"

definition set_id :: "string \<Rightarrow> ds_playlist list \<Rightarrow> ds_playlist list" where
  "set_id i pls = (case pls of [] \<Rightarrow> [] | pl # rest \<Rightarrow> pl\<lparr>playlist_id := DSFYstrncpy i 35\<rparr> # rest)"

definition despotify_get_playlist ::
  "'z libs \<Rightarrow> string option \<Rightarrow> bool \<Rightarrow> waits \<Rightarrow> table \<Rightarrow> client \<Rightarrow> ds_playlist list option answered" where
  "despotify_get_playlist L the_id cache_do_store ws t c =
     (let c = c\<lparr>d_playlist := [zero_playlist]\<rparr>
      in case (case the_id of None \<Rightarrow> None | Some i \<Rightarrow> cached i c) of
        Some data \<Rightarrow>
          rbind (xml_parse_playlist (parse_xml L) zero_playlist data False) (\<lambda>pls.
            with_tracks L cache_do_store ws t (c\<lparr>d_playlist := set_id (the the_id) pls\<rparr>))
      | None \<Rightarrow>
          let c = c\<lparr>d_response := Some (buf_append_data buf_new (bytes_of load_lists))\<rparr>;
              c = (if the_id = None then c\<lparr>d_list_of_lists := True\<rparr> else c)
          in rbind (case the_id of None \<Rightarrow> Inr (replicate 17 0) | Some i \<Rightarrow> hex_id i 17) (\<lambda>pid.
             rbind (fetch (cmd_getplaylist pid PLAYLIST_CURRENT Plain_Callback) ''Timeout while loading playlist'' ws t c)
               (\<lambda>(ok, ws, t, c).
               if \<not> ok then Inr (None, ws, t, c)
               else case d_response c of
                 None \<Rightarrow> Inl Null_Deref
               | Some b \<Rightarrow>
                   rbind (buf_append_u8_checked b 0) (\<lambda>b.
                   let c = (case the_id of None \<Rightarrow> c | Some i \<Rightarrow> to_cache cache_do_store i (buf_bytes b) c)
                   in rbind (the_playlist c) (\<lambda>pl.
                      rbind (xml_parse_playlist (parse_xml L) pl (buf_bytes b) (d_list_of_lists c)) (\<lambda>pls.
                        let pls = (case the_id of
                                     Some i \<Rightarrow> if d_list_of_lists c then pls else set_id i pls
                                   | None \<Rightarrow> pls);
                            c = c\<lparr>d_playlist := pls, d_response := None, d_list_of_lists := False\<rparr>
                        in if the_id = None then Inr (Some (d_playlist c), ws, t, c)
                           else with_tracks L cache_do_store ws t c))))))"

section \<open>All stored playlists\<close>

text \<open>
  The list that is built: the playlists up to \<open>prev\<close>, and the list \<open>prev\<close> starts.  After a
  playlist that could not be fetched \<open>prev\<close> is null, and the next one becomes the root.
\<close>

definition link :: "ds_playlist list \<times> ds_playlist list \<Rightarrow> ds_playlist list \<Rightarrow> ds_playlist list \<times> ds_playlist list" where
  "link chain new = (case chain of (done, []) \<Rightarrow> ([], new) | (done, prev # _) \<Rightarrow> (done @ [prev], new))"

fun get_all ::
  "'z libs \<Rightarrow> bool \<Rightarrow> ds_playlist list \<Rightarrow> ds_playlist list \<times> ds_playlist list \<Rightarrow> waits \<Rightarrow> table \<Rightarrow> client
   \<Rightarrow> (ds_playlist list \<times> ds_playlist list) answered" where
  "get_all L store [] chain ws t c = Inr (chain, ws, t, c)"
| "get_all L store (p # ps) chain ws t c =
     (if playlist_id p = [] then Inr (chain, ws, t, c)
      else rbind (despotify_get_playlist L (Some (playlist_id p)) store ws t c) (\<lambda>(new, ws, t, c).
             get_all L store ps (link chain (case new of None \<Rightarrow> [] | Some pls \<Rightarrow> pls)) ws t c))"

definition despotify_get_stored_playlists :: "'z libs \<Rightarrow> waits \<Rightarrow> table \<Rightarrow> client \<Rightarrow> ds_playlist list answered" where
  "despotify_get_stored_playlists L ws t c =
     (let old_use_cache = d_use_cache c
      in rbind (despotify_get_playlist L None False ws t (c\<lparr>d_use_cache := False\<rparr>)) (\<lambda>(metalist, ws, t, c).
         rbind (if \<not> old_use_cache then Inr c
                else case metalist of
                  Some (m # _) \<Rightarrow>
                    if cache_get_meta_playlist_revision (d_disk c) < revision m
                    then Inr (c\<lparr>d_use_cache := False, d_disk := cache_set_meta_playlist_revision (revision m) (d_disk c)\<rparr>)
                    else Inr (c\<lparr>d_use_cache := old_use_cache\<rparr>)
                | _ \<Rightarrow> Inl Null_Deref) (\<lambda>c.
         rbind (get_all L old_use_cache (case metalist of None \<Rightarrow> [] | Some ps \<Rightarrow> ps) ([], []) ws t c)
           (\<lambda>((done, cur), ws, t, c).
             Inr (done @ cur, ws, t, c\<lparr>d_use_cache := old_use_cache\<rparr>)))))"

section \<open>Changing a playlist\<close>

definition pad10 :: "u32 \<Rightarrow> string" where
  "pad10 w = (let s = dec (unat w) in replicate (10 - length s) (CHR ''0'') @ s)"

definition bit_digit :: "bool \<Rightarrow> string" where
  "bit_digit b = (if b then ''1'' else ''0'')"

text \<open>The text of a change; \<open>clock\<close> is what \<open>time\<close> returns.  \<open>snprintf\<close> cuts it for \<open>xml[512]\<close>.\<close>

definition change_text :: "string \<Rightarrow> u32 \<Rightarrow> string \<Rightarrow> ds_playlist \<Rightarrow> string" where
  "change_text ops clock usertag pl =
     ''<change><ops>'' @ ops @ ''</ops><time>'' @ dec (unat clock) @ ''</time>'' @ usertag @
     ''</change><version>'' @ pad10 (revision pl + 1) @ '','' @ pad10 (word_of_int (num_tracks pl)) @ '','' @
     pad10 (checksum pl) @ '','' @ bit_digit (is_collaborative pl) @ ''</version>''"

definition change_xml :: "string \<Rightarrow> u32 \<Rightarrow> string \<Rightarrow> ds_playlist \<Rightarrow> string" where
  "change_xml ops clock usertag pl = take 511 (change_text ops clock usertag pl)"

text \<open>Asking for a change and reading the answer, the same for both changes.\<close>

definition change_playlist ::
  "'z libs \<Rightarrow> ds_playlist \<Rightarrow> string \<Rightarrow> string \<Rightarrow> waits \<Rightarrow> table \<Rightarrow> client \<Rightarrow> (bool \<times> ds_playlist) option answered" where
  "change_playlist L pl xml late ws t c =
     rbind (hex_id (playlist_id pl) 17) (\<lambda>pid.
     rbind (fetch (cmd_changeplaylist pid xml (revision pl) (word_of_int (num_tracks pl)) (checksum pl)
                     (of_bool (is_collaborative pl)) Plain_Callback) late ws t c) (\<lambda>(ok, ws, t, c).
       if \<not> ok then Inr (None, ws, t, c)
       else case d_response c of
         None \<Rightarrow> Inl Null_Deref
       | Some b \<Rightarrow>
           rbind (buf_append_u8_checked b 0) (\<lambda>b.
           rbind (xml_parse_confirm (parse_xml L) pl (buf_bytes b)) (\<lambda>r.
             Inr (Some r, ws, t, c)))))"

definition despotify_rename_playlist ::
  "'z libs \<Rightarrow> u32 \<Rightarrow> ds_playlist \<Rightarrow> string \<Rightarrow> waits \<Rightarrow> table \<Rightarrow> client \<Rightarrow> (bool \<times> ds_playlist) answered" where
  "despotify_rename_playlist L clock pl name ws t c =
     (let user = ui_username (user_info (sess c))
      in if author pl \<noteq> user
         then Inr ((False, pl), ws, t, c\<lparr>d_last_error := Some ''Not your playlist.''\<rparr>)
         else rbind (change_playlist L pl (change_xml (xml_gen_tag ''name'' name) clock (xml_gen_tag ''user'' user) pl)
                       ''Timeout while renaming playlist'' ws t (c\<lparr>d_response := Some buf_new\<rparr>)) (\<lambda>(r, ws, t, c).
           case r of
             None \<Rightarrow> Inr ((False, pl), ws, t, c)
           | Some (confirm, pl) \<Rightarrow>
               if confirm then Inr ((True, pl\<lparr>pl_name := DSFYstrncpy name 256\<rparr>), ws, t, c\<lparr>d_response := None\<rparr>)
               else Inr ((False, pl), ws, t,
                         c\<lparr>d_last_error := Some ''Failed renaming playlist'', d_response := None\<rparr>)))"

definition despotify_set_playlist_collaboration ::
  "'z libs \<Rightarrow> u32 \<Rightarrow> ds_playlist \<Rightarrow> bool \<Rightarrow> waits \<Rightarrow> table \<Rightarrow> client \<Rightarrow> (bool \<times> ds_playlist) answered" where
  "despotify_set_playlist_collaboration L clock pl collaborative ws t c =
     (let user = ui_username (user_info (sess c))
      in if author pl \<noteq> user
         then Inr ((False, pl), ws, t, c\<lparr>d_last_error := Some ''Not your playlist.''\<rparr>)
         else rbind (change_playlist L pl
                       (change_xml (''<pub>'' @ bit_digit collaborative @ ''</pub>'') clock (xml_gen_tag ''user'' user) pl)
                       ''Timeout while setting playlist collaboration'' ws t (c\<lparr>d_response := Some buf_new\<rparr>)) (\<lambda>(r, ws, t, c).
           case r of
             None \<Rightarrow> Inr ((False, pl), ws, t, c)
           | Some (confirm, pl) \<Rightarrow>
               if confirm then Inr ((True, pl\<lparr>is_collaborative := collaborative\<rparr>), ws, t, c\<lparr>d_response := None\<rparr>)
               else Inr ((False, pl), ws, t,
                         c\<lparr>d_last_error := Some ''Failed setting playlist collabor'', d_response := None\<rparr>)))"

section \<open>By link\<close>

definition despotify_link_get_playlist :: "'z libs \<Rightarrow> ds_link \<Rightarrow> waits \<Rightarrow> table \<Rightarrow> client \<Rightarrow> ds_playlist list option answered" where
  "despotify_link_get_playlist L the_link ws t c =
     rbind (link_id the_link) (\<lambda>buf.
       let old_use_cache = d_use_cache c
       in rbind (despotify_get_playlist L (Some (buf @ ''02'')) old_use_cache ws t (c\<lparr>d_use_cache := False\<rparr>))
            (\<lambda>(r, ws, t, c). Inr (r, ws, t, c\<lparr>d_use_cache := old_use_cache\<rparr>)))"

section \<open>What a batch does\<close>

lemma meta_count_append [simp]: "meta_count (xs @ ys) = meta_count xs + meta_count ys"
  by (simp add: meta_count_def)

lemma meta_count_split: "meta_count (take k ts) + meta_count (drop k ts) = meta_count ts"
  using meta_count_append [of "take k ts" "drop k ts"] by simp

lemma tracklist_count:
  assumes "xml_parse_tracklist p ts d True hb = Inr (n, new)"
  shows "length new = length ts \<and> meta_count new = meta_count ts + n"
proof -
  have "parse_ordered hb (ezxml_get (first (ezxml_get (p d) [''tracks''])) [''track'']) ts 0 = Inr (n, new)"
    using assms by (simp add: xml_parse_tracklist_def parse_tracks_def Let_def)
  from parse_ordered_count [OF this] show ?thesis by simp
qed

lemma load_batch_counts:
  assumes "load_batch L store k cells ctx ts ws t c = Inr ((ok, count, n, cells', ctx', ts'), ws', t', c')"
  shows "count = min MAX_BROWSE_REQ (length ts - k)" "length ts' = length ts" "meta_count ts' = meta_count ts + n"
  using assms meta_count_split [of k ts]
  by (auto simp: load_batch_def Let_def rbind_Inr_iff split_def dest!: tracklist_count split: option.splits if_splits)

text \<open>
  With as many tracks as the playlist claims, the loop ends, whatever the server or the cache
  does, and counts the tracks that got their data.
\<close>

lemma load_batches_end:
  assumes "num \<le> int (length ts)"
  shows "\<exists>r. load_batches L store num (int k) k cells ctx count ts ws t c = Some r \<and>
    (\<forall>ok n ts' ws' t' c'. r = Inr ((ok, n, ts'), ws', t', c') \<longrightarrow>
       length ts' = length ts \<and> (ok \<longrightarrow> n - count = meta_count ts' - meta_count ts))"
  using assms
proof (induction "nat (num - int k)" arbitrary: k cells ctx count ts ws t c rule: less_induct)
  case less
  show ?case
  proof (cases "int k < num")
    case False
    then show ?thesis by (subst load_batches.simps) simp
  next
    case True
    show ?thesis
    proof (cases "load_batch L store k cells ctx ts ws t c")
      case (Inl e)
      with True show ?thesis by (subst load_batches.simps) simp
    next
      case (Inr r)
      obtain ok m n cells' ctx' ts' ws' t' c' where r: "r = ((ok, m, n, cells', ctx', ts'), ws', t', c')"
        by (metis prod_cases3 prod.exhaust)
      note b = load_batch_counts [OF Inr [unfolded r]]
      have "0 < m" "num \<le> int (length ts')" using b(1,2) True less.prems by (auto simp: MAX_BROWSE_REQ_def)
      with less.hyps [of "k + m" ts' cells' ctx' "count + n" ws' t' c'] True
      have "\<exists>r. load_batches L store num (int (k + m)) (k + m) cells' ctx' (count + n) ts' ws' t' c' = Some r \<and>
          (\<forall>ok n' ts'' ws' t' c'. r = Inr ((ok, n', ts''), ws', t', c') \<longrightarrow>
             length ts'' = length ts' \<and> (ok \<longrightarrow> n' - (count + n) = meta_count ts'' - meta_count ts'))"
        by simp
      with True Inr b(2,3) show ?thesis
        by (subst load_batches.simps) (auto simp: r)
    qed
  qed
qed

section \<open>Duplicates\<close>

text \<open>The ids of the tracks that have their data, as far as they are compared.\<close>

definition known_ids :: "ds_track list \<Rightarrow> string set" where
  "known_ids ts = (\<lambda>u. take 33 (track_id u)) ` {u \<in> set ts. has_meta_data u}"

lemma fill_duplicate_step:
  assumes "fill_duplicate i (ts, n) = (ts', n')" "i < length ts"
  shows "length ts' = length ts" "meta_count ts' - meta_count ts = n' - n" "known_ids ts' = known_ids ts"
    "\<forall>j < length ts. j \<noteq> i \<longrightarrow> ts' ! j = ts ! j"
    "has_meta_data (ts' ! i) \<or> ts' ! i = ts ! i \<and> take 33 (track_id (ts ! i)) \<notin> known_ids ts"
proof -
  let ?same = "\<lambda>tt. has_meta_data tt \<and> strncmp_eq (track_id tt) (track_id (ts ! i)) 33"
  have "length ts' = length ts \<and> meta_count ts' - meta_count ts = n' - n \<and> known_ids ts' = known_ids ts \<and>
    (\<forall>j < length ts. j \<noteq> i \<longrightarrow> ts' ! j = ts ! j) \<and>
    (has_meta_data (ts' ! i) \<or> ts' ! i = ts ! i \<and> take 33 (track_id (ts ! i)) \<notin> known_ids ts)"
  proof (cases "has_meta_data (ts ! i)")
    case True
    with assms show ?thesis by (simp add: fill_duplicate_def)
  next
    case no: False
    show ?thesis
    proof (cases "find ?same ts")
      case None
      with no assms(1) have "ts' = ts" "n' = n" by (simp_all add: fill_duplicate_def)
      moreover have "take 33 (track_id (ts ! i)) \<notin> known_ids ts"
        using None by (auto simp: find_None_iff known_ids_def strncmp_eq_def)
      ultimately show ?thesis by simp
    next
      case (Some tt)
      with no assms(1) have r: "ts' = ts[i := copy_track tt]" "n' = n + 1" by (simp_all add: fill_duplicate_def)
      from Some have tt: "tt \<in> set ts" "has_meta_data tt" "take 33 (track_id tt) = take 33 (track_id (ts ! i))"
        by (auto simp: find_Some_iff strncmp_eq_def)
      have m: "meta_count ts' = meta_count ts + 1"
        unfolding r by (rule meta_count_update [OF assms(2) no]) (simp add: copy_track_def)
      have id: "take 33 (track_id (copy_track tt)) = take 33 (track_id tt)" by (simp add: copy_track_def)
      have "take 33 (track_id tt) \<in> known_ids ts" using tt(1,2) by (auto simp: known_ids_def)
      then have "known_ids ts' \<subseteq> known_ids ts"
        using id unfolding r by (auto simp: known_ids_def dest!: set_update_subset_insert [THEN subsetD])
      moreover have "known_ids ts \<subseteq> known_ids ts'"
      proof
        fix x
        assume "x \<in> known_ids ts"
        then obtain j where j: "j < length ts" "has_meta_data (ts ! j)" "x = take 33 (track_id (ts ! j))"
          by (auto simp: known_ids_def in_set_conv_nth)
        with no have "j \<noteq> i" by auto
        with j have "ts' ! j = ts ! j" "j < length ts'" by (simp_all add: r)
        then have "ts ! j \<in> set ts'" by (metis nth_mem)
        with j show "x \<in> known_ids ts'" by (auto simp: known_ids_def)
      qed
      moreover have "has_meta_data (ts' ! i)" using assms(2) by (simp add: r copy_track_def)
      ultimately show ?thesis using m r by auto
    qed
  qed
  then show "length ts' = length ts" "meta_count ts' - meta_count ts = n' - n" "known_ids ts' = known_ids ts"
    "\<forall>j < length ts. j \<noteq> i \<longrightarrow> ts' ! j = ts ! j"
    "has_meta_data (ts' ! i) \<or> ts' ! i = ts ! i \<and> take 33 (track_id (ts ! i)) \<notin> known_ids ts"
    by blast+
qed

lemma fill_duplicates_upto:
  assumes "fold fill_duplicate [0..<j] (ts, n) = (ts', n')" "j \<le> length ts"
  shows "length ts' = length ts \<and> meta_count ts' - meta_count ts = n' - n \<and> known_ids ts' = known_ids ts \<and>
    (\<forall>i < j. has_meta_data (ts' ! i) \<or> take 33 (track_id (ts' ! i)) \<notin> known_ids ts)"
  using assms
proof (induction j arbitrary: ts' n')
  case (Suc j)
  obtain us m where u: "fold fill_duplicate [0..<j] (ts, n) = (us, m)" by fastforce
  with Suc.prems have step: "fill_duplicate j (us, m) = (ts', n')" by simp
  note ih = Suc.IH [OF u] and st = fill_duplicate_step [OF step]
  from ih Suc.prems(2) have l: "j < length us" by simp
  show ?case using ih Suc.prems(2) st [OF l] by (auto simp: less_Suc_eq)
qed simp

lemma fill_duplicates_all:
  assumes "fill_duplicates ts n = (ts', n')"
  shows "length ts' = length ts" "meta_count ts' - meta_count ts = n' - n"
    "\<forall>u \<in> set ts'. \<not> has_meta_data u \<longrightarrow> (\<forall>v \<in> set ts'. has_meta_data v \<longrightarrow> \<not> strncmp_eq (track_id u) (track_id v) 33)"
proof -
  note r = fill_duplicates_upto [OF assms [unfolded fill_duplicates_def]]
  then show "length ts' = length ts" "meta_count ts' - meta_count ts = n' - n" by simp_all
  have "take 33 (track_id u) \<notin> known_ids ts'" if "u \<in> set ts'" "\<not> has_meta_data u" for u
    using r that by (metis in_set_conv_nth order_refl)
  then show "\<forall>u \<in> set ts'. \<not> has_meta_data u \<longrightarrow> (\<forall>v \<in> set ts'. has_meta_data v \<longrightarrow> \<not> strncmp_eq (track_id u) (track_id v) 33)"
    by (fastforce simp: known_ids_def strncmp_eq_def)
qed

section \<open>One batch\<close>

lemma length_hex_take: "length (hex_bytes_to_ascii bs n) = 2 * min n (length bs)"
proof -
  have "length (concat (map hex_of_byte xs)) = 2 * length xs" for xs
    by (induction xs) (auto simp: hex_of_byte_def)
  then show ?thesis by (simp add: hex_bytes_to_ascii_def)
qed

lemma tracks_hash_fips:
  assumes "8 \<le> frame_slack L" "length (buffer ctx) = 64" "length tracklist < 2 ^ 29"
  shows "\<exists>ctx'. tracks_hash L ctx tracklist = Inr (hex_bytes_to_ascii (fips_sha1 tracklist) 20, ctx') \<and> length (buffer ctx') = 64"
  using sha1_of_fips [OF assms(2), of "[tracklist]"] assms(1,3) by (auto simp: tracks_hash_def)

text \<open>The name a list of ids has in the cache.\<close>

definition batch_name :: "byte list list \<Rightarrow> string" where
  "batch_name hids = hex_bytes_to_ascii (fips_sha1 (concat hids)) 20"

text \<open>Loading tracks, when one batch is enough and its answer comes from the server in time.\<close>

lemma load_tracks_run:
  assumes pl: "d_playlist c = pl # pls" "0 < num_tracks pl" "num_tracks pl \<le> int (length (tracks pl))" "length (tracks pl) \<le> 244"
    and ids: "list_all2 (\<lambda>tr h. hex_id (track_id tr) 16 = Inr h) (tracks pl) hids"
    and stack: "8 \<le> frame_slack L" "length (buffer (stack_ctx L)) = 64"
    and miss: "cached (batch_name hids) c = None"
    and sent: "run_request (Browse BROWSE_TRACK hids) Gzip_Callback t (c\<lparr>d_response := Some buf_new\<rparr>) = Inr (0, t1, c1)"
    and table: "table_ok t" "k = next_channel_id t" "k < 65536" and answer: "serves L D hs ds out"
    and parsed: "xml_parse_tracklist (parse_xml L) (tracks pl) (out @ [0]) True (d_high_bitrate c) = Inr (n, trs)"
    and dups: "(if n < num_tracks pl then fill_duplicates trs n else (trs, n)) = (trs', n')"
  shows "\<exists>t' c'. despotify_load_tracks L store (([], [handled k mac hs ds]) # ws) t c = Inr (True, ws, t', c') \<and>
    d_playlist c' = pl\<lparr>tracks := trs', num_tracks := n'\<rparr> # pls \<and> (\<forall>j. find_ch j t' = find_ch j t) \<and>
    d_disk c' = (if store then cache_store (batch_name hids) (out @ [0]) (d_disk c) else d_disk c) \<and>
    d_use_cache c' = d_use_cache c \<and> d_list_of_lists c' = d_list_of_lists c"
proof -
  let ?c = "c\<lparr>d_response := Some buf_new\<rparr>"
  have len: "length (tracks pl) = length hids" using ids by (rule list_all2_lengthD)
  have sixteen: "\<forall>x \<in> set hids. length x = 16"
    using ids by (induction rule: list_all2_induct) (auto intro: hex_id_length)
  then have clen: "length (concat hids) = length hids * 16" by (induction hids) auto
  have pos: "0 < length hids" using pl(2,3) len by linarith
  then have ok: "request_ok (Browse BROWSE_TRACK hids)" using pl(4) len sixteen by (auto simp: BROWSE_TRACK_def)
  from browse_answered [OF ok table(1) sent _ _ table(2,3) answer, of "''Timeout while loading tracks''" mac ws]
  obtain t' s m b where f: "fetch (run_request (Browse BROWSE_TRACK hids) Gzip_Callback) ''Timeout while loading tracks''
      (([], [handled k mac hs ds]) # ws) t ?c =
      Inr (True, ws, t', ?c\<lparr>sess := s, sock := m, d_response := Some b, d_synced := d_synced c + 1\<rparr>)"
    "inflated L (?c\<lparr>sess := s, sock := m, d_response := Some b, d_synced := d_synced c + 1\<rparr>) = Inr (Some (out @ [0]))"
    "\<forall>j. find_ch j t' = find_ch j t"
    by (auto simp: first_state_def)
  have run: "run_request (Browse BROWSE_TRACK hids) Gzip_Callback =
      (cmd_browse BROWSE_TRACK (concat hids) (int (length (tracks pl))) Gzip_Callback :: table \<Rightarrow> client \<Rightarrow> _)"
    by (intro ext) (simp add: len)
  let ?cells = "map Some (concat hids) @ drop (length hids * 16) (replicate (MAX_BROWSE_REQ * 16) None)"
  have "list_all2 (\<lambda>a h. hex_id a 16 = Inr h) (map track_id (tracks pl)) hids"
    using ids by (simp add: list_all2_map1)
  from fill_ids_all [OF this, of "replicate (MAX_BROWSE_REQ * 16) None" MAX_BROWSE_REQ 0]
  have fill: "fill_ids (map track_id (tracks pl)) 0 (replicate (MAX_BROWSE_REQ * 16) None) = Inr ?cells"
    using pl(4) len by (simp add: MAX_BROWSE_REQ_def)
  have sixteen': "max 16 (length (tracks pl) * 16) = length (tracks pl) * 16" using pos len by (intro max_absorb2) linarith
  have wr: "written (take (length (tracks pl) * 16) ?cells) = Inr (concat hids)"
    "written (take (max 16 (length (tracks pl) * 16)) ?cells) = Inr (concat hids)"
    unfolding sixteen' using clen len by (simp_all add: written_all)
  obtain cells where cells: "fill_ids (map track_id (tracks pl)) 0 (replicate (MAX_BROWSE_REQ * 16) None) = Inr cells"
    "written (take (length (tracks pl) * 16) cells) = Inr (concat hids)"
    "written (take (max 16 (length (tracks pl) * 16)) cells) = Inr (concat hids)"
    using fill wr by blast
  have "length (concat hids) < 2 ^ 29" using clen pl(4) len by simp
  from tracks_hash_fips [OF stack this] obtain ctx' where
    h: "tracks_hash L (stack_ctx L) (concat hids) = Inr (batch_name hids, ctx')" by (auto simp: batch_name_def)
  have miss': "cached (batch_name hids) ?c = None" using miss by (auto simp: cached_def split: if_splits)
  let ?c' = "to_cache store (batch_name hids) (out @ [0])
      (?c\<lparr>sess := s, sock := m, d_response := Some b, d_synced := d_synced c + 1\<rparr>)\<lparr>d_response := None\<rparr>"
  have "take MAX_BROWSE_REQ (tracks pl) = tracks pl" using pl(4) by (simp add: MAX_BROWSE_REQ_def)
  then have batch: "load_batch L store 0 (replicate (MAX_BROWSE_REQ * 16) None) (stack_ctx L) (tracks pl)
      (([], [handled k mac hs ds]) # ws) t c = Inr ((True, length (tracks pl), n, cells, ctx', trs), ws, t', ?c')"
    using f(1,2) parsed unfolding run
    by (simp add: load_batch_def cells h miss' Let_def to_cache_def)
  have "load_batches L store (num_tracks pl) 0 0 (replicate (MAX_BROWSE_REQ * 16) None) (stack_ctx L) 0 (tracks pl)
      (([], [handled k mac hs ds]) # ws) t c = Some (Inr ((True, n, trs), ws, t', ?c'))"
    using pl(2,3) by (subst load_batches.simps, simp add: batch, subst load_batches.simps, simp)
  then have "despotify_load_tracks L store (([], [handled k mac hs ds]) # ws) t c =
      Inr (True, ws, t', set_playlist (pl\<lparr>tracks := trs', num_tracks := n'\<rparr>) ?c')"
    using pl(1,2) dups by (simp add: despotify_load_tracks_def the_playlist_def)
  then show ?thesis using f(3) pl(1) by (auto simp: set_playlist_def to_cache_def)
qed

section \<open>One playlist\<close>

text \<open>What is parsed: the opening text, what the server sent, and a NUL.\<close>

definition playlist_text :: "byte list list \<Rightarrow> byte list" where
  "playlist_text ds = bytes_of load_lists @ concat ds @ [0]"

lemma text_fetched:
  assumes "length pid = 17" "d_response c = Some (buf_append_data buf_new (bytes_of load_lists))"
    and sent: "run_request (Get_Playlist pid PLAYLIST_CURRENT) Plain_Callback t c = Inr (0, t1, c1)"
    and table: "table_ok t" "k = next_channel_id t" "k < 65536" and answer: "packets_ok hs ds"
  shows "\<exists>t' s m b. fetch (cmd_getplaylist pid PLAYLIST_CURRENT Plain_Callback) late (([], [handled k mac hs ds]) # ws) t c =
      Inr (True, ws, t', c\<lparr>sess := s, sock := m, d_response := Some b, d_synced := d_synced c + 1\<rparr>) \<and>
    buf_append_u8_checked b 0 = Inr (buf_append_u8 b 0) \<and> buf_bytes (buf_append_u8 b 0) = playlist_text ds \<and>
    table_ok t' \<and> (\<forall>j. find_ch j t' = find_ch j t)"
proof -
  have b: "buf_inv (buf_append_data buf_new (bytes_of load_lists))" by simp
  have ok: "request_ok (Get_Playlist pid PLAYLIST_CURRENT)" using assms(1) by simp
  have run: "run_request (Get_Playlist pid PLAYLIST_CURRENT) Plain_Callback =
      (cmd_getplaylist pid PLAYLIST_CURRENT Plain_Callback :: table \<Rightarrow> client \<Rightarrow> _)"
    by (intro ext) simp
  have small: "buf_len (buf_append_data buf_new (bytes_of load_lists)) \<le> 1000"
    using length_buf_bytes [OF b] by (simp add: load_lists_def bytes_of_def)
  from fetch_answered [OF ok table(1) sent _ _ assms(2) b small table(2,3) answer, of late mac ws] obtain t' s m b'
    where "fetch (cmd_getplaylist pid PLAYLIST_CURRENT Plain_Callback) late (([], [handled k mac hs ds]) # ws) t c =
      Inr (True, ws, t', c\<lparr>sess := s, sock := m, d_response := Some b', d_synced := d_synced c + 1\<rparr>)"
      "buf_inv b'" "table_ok t'" "\<forall>j. find_ch j t' = find_ch j t" "buf_bytes b' = bytes_of load_lists @ concat ds"
    unfolding run by (auto simp: first_state_def)
  moreover have "buf_append_u8_checked b' 0 = Inr (buf_append_u8 b' 0)"
    using answer length_buf_bytes [OF calculation(2)] calculation(5)
    by (intro buf_append_u8_in_range calculation(2)) (simp add: packets_ok_def load_lists_def bytes_of_def)
  ultimately show ?thesis by (intro exI [of _ t'] exI [of _ s] exI [of _ m] exI [of _ b']) (simp add: playlist_text_def)
qed

lemma get_playlist_run:
  assumes miss: "cached i c = None" and hex: "hex_id i 17 = Inr pid"
    and sent: "run_request (Get_Playlist pid PLAYLIST_CURRENT) Plain_Callback t
        (c\<lparr>d_playlist := [zero_playlist], d_response := Some (buf_append_data buf_new (bytes_of load_lists))\<rparr>) = Inr (0, t1, c1)"
    and table: "table_ok t" "k = next_channel_id t" "k < 65536" and answer: "packets_ok hs ds"
    and parsed: "xml_parse_playlist (parse_xml L) zero_playlist (playlist_text ds) (d_list_of_lists c) = Inr pls"
  shows "\<exists>t' c'. despotify_get_playlist L (Some i) store (([], [handled k mac hs ds]) # ws) t c =
      with_tracks L store ws t' c' \<and> table_ok t' \<and> (\<forall>j. find_ch j t' = find_ch j t) \<and>
    d_playlist c' = (if d_list_of_lists c then pls else set_id i pls) \<and> \<not> d_list_of_lists c' \<and>
    d_disk c' = (if store then cache_store i (playlist_text ds) (d_disk c) else d_disk c) \<and>
    d_use_cache c' = d_use_cache c"
proof -
  let ?c = "c\<lparr>d_playlist := [zero_playlist], d_response := Some (buf_append_data buf_new (bytes_of load_lists))\<rparr>"
  from text_fetched [OF hex_id_length [OF hex] _ sent table answer, of "''Timeout while loading playlist''" mac ws]
  obtain t' s m b where f: "fetch (cmd_getplaylist pid PLAYLIST_CURRENT Plain_Callback) ''Timeout while loading playlist''
      (([], [handled k mac hs ds]) # ws) t ?c =
      Inr (True, ws, t', ?c\<lparr>sess := s, sock := m, d_response := Some b, d_synced := d_synced c + 1\<rparr>)"
    and r: "buf_bytes (buf_append_u8 b 0) = playlist_text ds" "table_ok t'" "\<forall>j. find_ch j t' = find_ch j t"
      "buf_append_u8_checked b 0 = Inr (buf_append_u8 b 0)"
    by auto
  have miss': "cached i (c\<lparr>d_playlist := [zero_playlist]\<rparr>) = None"
    using miss by (auto simp: cached_def split: if_splits)
  let ?c' = "(to_cache store i (playlist_text ds) (?c\<lparr>sess := s, sock := m, d_response := Some b, d_synced := d_synced c + 1\<rparr>))
      \<lparr>d_playlist := (if d_list_of_lists c then pls else set_id i pls), d_response := None, d_list_of_lists := False\<rparr>"
  have "despotify_get_playlist L (Some i) store (([], [handled k mac hs ds]) # ws) t c = with_tracks L store ws t' ?c'"
    using f parsed r(1,4) by (simp add: despotify_get_playlist_def miss' hex to_cache_def the_playlist_def Let_def)
  then show ?thesis using r(2,3) by (intro exI [of _ t'] exI [of _ ?c']) (auto simp: to_cache_def)
qed

lemma listing_run:
  assumes sent: "run_request (Get_Playlist (replicate 17 0) PLAYLIST_CURRENT) Plain_Callback t
        (c\<lparr>d_playlist := [zero_playlist], d_response := Some (buf_append_data buf_new (bytes_of load_lists)),
           d_list_of_lists := True\<rparr>) = Inr (0, t1, c1)"
    and table: "table_ok t" "k = next_channel_id t" "k < 65536" and answer: "packets_ok hs ds"
    and parsed: "xml_parse_playlist (parse_xml L) zero_playlist (playlist_text ds) True = Inr pls"
  shows "\<exists>t' c'. despotify_get_playlist L None store (([], [handled k mac hs ds]) # ws) t c = Inr (Some pls, ws, t', c') \<and>
    \<not> d_list_of_lists c' \<and> d_disk c' = d_disk c \<and> d_use_cache c' = d_use_cache c"
proof -
  let ?c = "c\<lparr>d_playlist := [zero_playlist], d_response := Some (buf_append_data buf_new (bytes_of load_lists)), d_list_of_lists := True\<rparr>"
  from text_fetched [OF _ _ sent table answer, of "''Timeout while loading playlist''" mac ws]
  obtain t' s m b where f: "fetch (cmd_getplaylist (replicate 17 0) PLAYLIST_CURRENT Plain_Callback) ''Timeout while loading playlist''
      (([], [handled k mac hs ds]) # ws) t ?c =
      Inr (True, ws, t', ?c\<lparr>sess := s, sock := m, d_response := Some b, d_synced := d_synced c + 1\<rparr>)"
    and r: "buf_append_u8_checked b 0 = Inr (buf_append_u8 b 0)" "buf_bytes (buf_append_u8 b 0) = playlist_text ds" by auto
  let ?c' = "?c\<lparr>sess := s, sock := m, d_response := Some b, d_synced := d_synced c + 1,
      d_playlist := pls, d_response := None, d_list_of_lists := False\<rparr>"
  have "despotify_get_playlist L None store (([], [handled k mac hs ds]) # ws) t c = Inr (Some pls, ws, t', ?c')"
    using f parsed r by (simp add: despotify_get_playlist_def the_playlist_def Let_def)
  then show ?thesis by (intro exI [of _ t'] exI [of _ ?c']) simp
qed

section \<open>Properties\<close>

text \<open>
  C12: The tracks of a playlist that lists at least as many as it claims.  The loop over the batches
  ends, whatever the server and the cache say; when it is successful no track is lost or
  added, the playlist's count becomes the number of those with data, and if all were asked
  for, a track still without data is not a duplicate of one that has them.
\<close>

theorem tracks_counted:
  assumes "d_playlist c = pl # pls" "num_tracks pl \<le> int (length (tracks pl))" "meta_count (tracks pl) = 0"
  shows "(\<exists>r. load_batches L store (num_tracks pl) 0 0 cells ctx 0 (tracks pl) ws t c = Some r) \<and>
    (\<forall>ws' t' c'. despotify_load_tracks L store ws t c = Inr (True, ws', t', c') \<longrightarrow>
       (\<exists>pl' pls'. d_playlist c' = pl' # pls' \<and> length (tracks pl') = length (tracks pl) \<and>
          num_tracks pl' = meta_count (tracks pl') \<and>
          (num_tracks pl = int (length (tracks pl)) \<longrightarrow>
             (\<forall>u \<in> set (tracks pl'). \<not> has_meta_data u \<longrightarrow>
                (\<forall>v \<in> set (tracks pl'). has_meta_data v \<longrightarrow> \<not> strncmp_eq (track_id u) (track_id v) 33)))))"
proof (intro conjI allI impI)
  show "\<exists>r. load_batches L store (num_tracks pl) 0 0 cells ctx 0 (tracks pl) ws t c = Some r"
    using load_batches_end [OF assms(2), of L store 0] by fastforce
next
  fix ws' t' c'
  assume run: "despotify_load_tracks L store ws t c = Inr (True, ws', t', c')"
  have none: "\<not> has_meta_data u" if "u \<in> set (tracks pl)" for u
    using assms(3) that by (auto simp: meta_count_def filter_empty_conv)
  show "\<exists>pl' pls'. d_playlist c' = pl' # pls' \<and> length (tracks pl') = length (tracks pl) \<and>
          num_tracks pl' = meta_count (tracks pl') \<and>
          (num_tracks pl = int (length (tracks pl)) \<longrightarrow>
             (\<forall>u \<in> set (tracks pl'). \<not> has_meta_data u \<longrightarrow>
                (\<forall>v \<in> set (tracks pl'). has_meta_data v \<longrightarrow> \<not> strncmp_eq (track_id u) (track_id v) 33)))"
  proof (cases "num_tracks pl = 0")
    case True
    with run assms none show ?thesis by (auto simp: despotify_load_tracks_def the_playlist_def)
  next
    case False
    let ?cells = "replicate (MAX_BROWSE_REQ * 16) None :: byte option list"
    from load_batches_end [OF assms(2), of L store 0 ?cells "stack_ctx L" 0 ws t c]
    obtain r where r: "load_batches L store (num_tracks pl) 0 0 ?cells (stack_ctx L) 0 (tracks pl) ws t c = Some r"
      and count: "\<And>ok n ts ws' t' c'. r = Inr ((ok, n, ts), ws', t', c') \<Longrightarrow>
        length ts = length (tracks pl) \<and> (ok \<longrightarrow> n = meta_count ts)" using assms(3) by auto
    from run r False assms(1) obtain n ts c2 where r': "r = Inr ((True, n, ts), ws', t', c2)"
      and c': "c' = (let r = (if n < num_tracks pl then fill_duplicates ts n else (ts, n))
        in set_playlist (pl\<lparr>tracks := fst r, num_tracks := snd r\<rparr>) c2)"
      by (auto simp: despotify_load_tracks_def the_playlist_def rbind_Inr_iff split_def Let_def split: if_splits)
    note n = count [OF r']
    show ?thesis
    proof (cases "n < num_tracks pl")
      case True
      obtain ts' n' where f: "fill_duplicates ts n = (ts', n')" by fastforce
      with fill_duplicates_all [OF f] n c' True show ?thesis by (simp add: set_playlist_def)
    next
      case ge: False
      have "num_tracks pl = int (length (tracks pl)) \<Longrightarrow> \<forall>u \<in> set ts. has_meta_data u"
        using ge n by (metis (no_types, lifting) length_filter_le meta_count_def nle_le not_less of_nat_le_iff length_filter_less)
      with ge n c' show ?thesis by (auto simp: set_playlist_def)
    qed
  qed
qed


text \<open>A playlist with the same track twice, and a parser that finds it once.\<close>

definition twice :: ds_playlist where
  "twice = zero_playlist\<lparr>num_tracks := 2, tracks := [zero_track\<lparr>track_id := zero_id\<rparr>, zero_track\<lparr>track_id := zero_id\<rparr>]\<rparr>"

definition one_track :: "byte list libs" where
  "one_track = stored\<lparr>parse_xml := (\<lambda>_. Some (Ezxml ''result'' [] [] [Ezxml ''tracks'' [] []
     [Ezxml ''track'' [] [] [tag ''id'' zero_id]]]))\<rparr>"

definition ten_bytes :: "byte list list" where
  "ten_bytes = [replicate 9 0, [0, 60, 62]]"

definition with_twice :: client where
  "with_twice = caching\<lparr>d_playlist := [twice]\<rparr>"

lemma one_track_serves: "serves one_track (=) [] ten_bytes (drop 10 (concat ten_bytes))"
  using serves_stored [of ten_bytes "[]"]
  by (simp add: serves_def one_track_def ten_bytes_def packets_ok_def)

lemma one_track_stack: "8 \<le> frame_slack one_track" "length (buffer (stack_ctx one_track)) = 64"
  by (simp_all add: one_track_def stored_def some_ctx_def)

lemma twice_ids: "list_all2 (\<lambda>tr h. hex_id (track_id tr) 16 = Inr h) (tracks twice) [replicate 16 0, replicate 16 0]"
  by (simp add: twice_def zero_id_hex)

definition filled :: ds_track where
  "filled = zero_track\<lparr>track_id := zero_id, has_meta_data := True, artist := [zero_artist]\<rparr>"

lemma one_track_parsed:
  "xml_parse_tracklist (parse_xml one_track) (tracks twice) d True hb = Inr (1, [filled, zero_track\<lparr>track_id := zero_id\<rparr>])"
  by (simp add: xml_eval one_track_def twice_def filled_def zero_id_def strncmp_eq_def zero_track_def Let_def)

lemma twice_filled: "fill_duplicates [filled, zero_track\<lparr>track_id := zero_id\<rparr>] 1 = ([filled, filled], 2)"
  by (simp add: fill_duplicates_def fill_duplicate_def filled_def zero_track_def strncmp_eq_def copy_track_def)

lemma twice_sent: "\<exists>t1 c1. run_request (Browse BROWSE_TRACK [replicate 16 0, replicate 16 0]) Gzip_Callback no_channels
    (with_twice\<lparr>d_response := Some buf_new\<rparr>) = Inr (0, t1, c1)"
  by (rule sending_request) (simp_all add: BROWSE_TRACK_def with_twice_def caching_def sending_def)

lemma twice_claims: "0 < num_tracks twice" "num_tracks twice \<le> int (length (tracks twice))" "length (tracks twice) \<le> 244"
  "meta_count (tracks twice) = 0" "d_playlist with_twice = [twice]" "cached i with_twice = None"
  using caching_disk(3) [of i]
  by (auto simp: twice_def meta_count_def zero_track_def with_twice_def cached_def split: if_splits)


theorem tracks_counted_witness:
  "\<exists>t' c' pl. despotify_load_tracks one_track True [([], [handled 0 [0, 0, 0, 0] [] ten_bytes])] no_channels with_twice =
     Inr (True, [], t', c') \<and> d_playlist c' = [pl] \<and> num_tracks pl = meta_count (tracks pl)"
proof -
  obtain t1 c1 where sent: "run_request (Browse BROWSE_TRACK [replicate 16 0, replicate 16 0]) Gzip_Callback no_channels
    (with_twice\<lparr>d_response := Some buf_new\<rparr>) = Inr (0, t1, c1)" using twice_sent by blast
  have d: "(if 1 < num_tracks twice then fill_duplicates [filled, zero_track\<lparr>track_id := zero_id\<rparr>] 1
      else ([filled, zero_track\<lparr>track_id := zero_id\<rparr>], 1)) = ([filled, filled], 2)"
    using twice_filled by (simp add: twice_def)
  from load_tracks_run [OF twice_claims(5,1-3) twice_ids one_track_stack twice_claims(6) sent
    no_channels_ok(1) no_channels_ok(2) [symmetric] _ one_track_serves one_track_parsed d, of True "[0, 0, 0, 0]" "[]"]
  obtain t' c' pl where r: "despotify_load_tracks one_track True [([], [handled 0 [0, 0, 0, 0] [] ten_bytes])] no_channels with_twice =
     Inr (True, [], t', c')" "d_playlist c' = [pl]" by auto
  from tracks_counted [OF twice_claims(5,2,4), of one_track True "[]" some_ctx
      "[([], [handled 0 [0, 0, 0, 0] [] ten_bytes])]" no_channels] r
  show ?thesis by auto
qed

lemma parse_nothing: "xml_parse_tracklist p [] d True hb = Inr (0, [])"
proof -
  have red: "find_redirect res [] = None" for res by (induction res) simp_all
  have "parse_ordered hb xs [] n = Inr (n, [])" for xs n
    by (induction xs) (simp_all add: red Let_def split: list.split)
  then show ?thesis by (simp add: xml_parse_tracklist_def parse_tracks_def)
qed

text \<open>From a turn on that finds the batch of no tracks in the cache, the loop goes on for ever.\<close>

lemma cached_batch_hangs:
  assumes "8 \<le> frame_slack L" "length (buffer ctx) = 64" "cached (batch_name []) c = Some data"
    and "length ts \<le> k" "totcount < num"
  shows "load_batches L store num totcount k cells ctx count ts ws t c = None"
proof (rule ccontr)
  define stuck where "stuck = (\<lambda>L (num :: int) totcount k ctx (ts :: ds_track list) c. 8 \<le> frame_slack (L :: 'a libs) \<and>
    length (buffer (ctx :: SHA1_CTX)) = 64 \<and> cached (batch_name []) c = Some data \<and> length ts \<le> (k :: nat) \<and> totcount < num)"
  assume "load_batches L store num totcount k cells ctx count ts ws t c \<noteq> None"
  then obtain r where "load_batches L store num totcount k cells ctx count ts ws t c = Some r" by blast
  moreover have "\<not> stuck L num totcount k ctx ts c" if "load_batches L store num totcount k cells ctx count ts ws t c = Some r"
    for L :: "'a libs" and store num totcount k cells ctx count ts ws t c r
    using that
  proof (rule load_batches.raw_induct [where P = "\<lambda>L store num totcount k cells ctx count ts ws t c r. \<not> stuck L num totcount k ctx ts c", rotated])
    fix f and L :: "'a libs" and store num totcount k cells ctx count ts ws t c r
    assume ih: "\<And>L store num totcount k cells ctx count ts ws t c r.
        f L store num totcount k cells ctx count ts ws t c = Some r \<Longrightarrow> \<not> stuck L num totcount k ctx ts c"
      and run: "(if totcount < num then
        (case load_batch L store k cells ctx ts ws t c of
           Inl e \<Rightarrow> Some (Inl e)
         | Inr ((ok, m, n, cells, ctx, ts), ws, t, c) \<Rightarrow>
             if \<not> ok then Some (Inr ((False, count, ts), ws, t, c))
             else f L store num (totcount + int m) (k + m) cells ctx (count + n) ts ws t c)
        else Some (Inr ((True, count, ts), ws, t, c))) = Some r"
    show "\<not> stuck L num totcount k ctx ts c"
    proof
      assume st: "stuck L num totcount k ctx ts c"
      then obtain ctx' where ctx': "tracks_hash L ctx [] = Inr (batch_name [], ctx')" "length (buffer ctx') = 64"
        using tracks_hash_fips [of L ctx "[]"] by (auto simp: stuck_def batch_name_def)
      let ?c = "c\<lparr>d_response := Some buf_new\<rparr>"
      have hit: "cached (batch_name []) ?c = Some data" using st by (simp add: stuck_def cached_def split: if_splits)
      have "load_batch L store k cells ctx ts ws t c = Inr ((True, 0, 0, cells, ctx', ts), ws, t, ?c)"
        using st hit by (simp add: stuck_def load_batch_def written_def ctx' parse_nothing)
      with run st have "f L store num totcount k cells ctx' count ts ws t ?c = Some r"
        by (simp add: stuck_def)
      from ih [OF this] st hit ctx'(2) show False by (simp add: stuck_def)
    qed
  qed
  ultimately have "\<not> stuck L num totcount k ctx ts c" by blast
  with assms show False by (simp add: stuck_def)
qed

text \<open>
  C16: A playlist that claims more tracks than it lists, with at least eight unused bytes behind
  \<open>tracks_hash\<close>.  When the last track has been asked for, the loop goes on with a batch of no
  tracks.  It is asked for like any other, its answer is stored under the hash of nothing, no track
  comes of it, and the count of tracks that are left stays as it was: from then on each turn
  finds that answer in the cache, and the call never returns.
\<close>

theorem missing_tracks_hang:
  assumes stack: "8 \<le> frame_slack L" "length (buffer ctx) = 64" and more: "length ts \<le> k" "totcount < num"
    and miss: "cached (batch_name []) c = None" and ids: "written (take 16 cells) = Inr idl"
    and sent: "cmd_browse BROWSE_TRACK idl 0 Gzip_Callback t (c\<lparr>d_response := Some buf_new\<rparr>) = Inr (0, t1, c1)"
    and table: "table_ok t" "i = next_channel_id t" "i < 65536" and answer: "serves L D hs ds out"
    and cache: "d_use_cache c" "storable (d_disk c) (batch_name []) (length out + 1)"
  shows "(\<exists>ctx' t' c'. load_batch L True k cells ctx ts (([], [handled i mac hs ds]) # ws) t c =
      Inr ((True, 0, 0, cells, ctx', ts), ws, t', c') \<and> cached (batch_name []) c' = Some (out @ [0])) \<and>
    load_batches L True num totcount k cells ctx count ts (([], [handled i mac hs ds]) # ws) t c = None"
proof -
  let ?c = "c\<lparr>d_response := Some buf_new\<rparr>"
  obtain ctx' where ctx': "tracks_hash L ctx [] = Inr (batch_name [], ctx')" "length (buffer ctx') = 64"
    using tracks_hash_fips [OF stack, of "[]"] by (auto simp: batch_name_def)
  have miss': "cached (batch_name []) ?c = None" using miss by (auto simp: cached_def split: if_splits)
  note res = cmd_browse_result [OF sent table(1), folded table(2)]
  obtain ch where ch: "find_ch i t1 = Some ch" "ch_callback ch = Gzip_Callback" "ch_state ch = CHANNEL_HEADER" "ch_total_data_len ch = 0"
    using res(3) by blast
  obtain s n where c1: "c1 = ?c\<lparr>sess := s, sock := n\<rparr>" using cmd_browse_frame(1) [OF sent] by blast
  have i: "0 \<le> i" using table by (simp add: table_ok_def)
  have ok: "packets_ok hs ds" using answer by (simp add: serves_def)
  have cb: "ch_callback ch \<in> {Plain_Callback, Gzip_Callback}" and r: "d_response c1 = Some buf_new"
    and room: "buf_len buf_new + length (concat ds) \<le> 2 ^ 30"
    using ch(2) ok by (simp_all add: c1 packets_ok_def)
  from answer_collected_run [OF ch(1,3) cb ch(4) r buf_inv_new res(1) ok i table(3) room, of mac] ch(2) obtain t' b
    where run: "handled i mac hs ds t1 c1 = Inr (t', c1\<lparr>d_response := Some b, d_synced := d_synced c1 + 1\<rparr>)"
      "buf_bytes b = drop 10 (concat ds)" unfolding handled_def by auto
  let ?d = "c1\<lparr>d_response := Some b, d_synced := d_synced c1 + 1\<rparr>"
  have f: "fetch (cmd_browse BROWSE_TRACK idl 0 Gzip_Callback) ''Timeout while loading tracks'' (([], [handled i mac hs ds]) # ws) t ?c =
      Inr (True, ws, t', ?d)"
    using sent run(1) by (simp add: fetch_def despotify_wait_timeout_def)
  have inf: "inflated L ?d = Inr (Some (out @ [0]))" by (rule inflated_served [OF answer, of _ b]) (simp_all add: run(2))
  let ?e = "(to_cache True (batch_name []) (out @ [0]) ?d)\<lparr>d_response := None\<rparr>"
  have batch: "load_batch L True k cells ctx ts (([], [handled i mac hs ds]) # ws) t c = Inr ((True, 0, 0, cells, ctx', ts), ws, t', ?e)"
    using more(1) ctx'(1) miss' ids f inf by (simp add: load_batch_def written_def parse_nothing Let_def)
  have hit: "cached (batch_name []) ?e = Some (out @ [0])"
    using cache by (simp add: cached_def to_cache_def c1 cache.load_store cache.contains_store)
  have "load_batches L True num totcount k cells ctx' count ts ws t' ?e = None"
    by (rule cached_batch_hangs [OF stack(1) ctx'(2) hit more])
  then have "load_batches L True num totcount k cells ctx count ts (([], [handled i mac hs ds]) # ws) t c = None"
    using more(2) by (subst load_batches.simps) (simp add: batch)
  with batch hit show ?thesis by blast
qed

theorem missing_tracks_hang_witness:
  "load_batches one_track True 3 2 2 (replicate 16 (Some 0)) some_ctx 2 (tracks twice)
     [([], [handled 0 [0, 0, 0, 0] [] ten_bytes])] no_channels caching = None"
proof -
  let ?c = "caching\<lparr>d_response := Some buf_new\<rparr>" and ?ids = "replicate 16 0 :: byte list"
  have ids: "written (take 16 (replicate 16 (Some 0))) = Inr ?ids" by (simp add: written_def)
  obtain ch t1 where reg: "channel_register (Some (''browse-'' @ hex_bytes_to_ascii ?ids 16)) Gzip_Callback no_channels = (ch, t1)"
    by fastforce
  let ?b = "buf_append_u8 (buf_append_u16 buf_new (word_of_int (ch_id ch))) BROWSE_TRACK"
  have "length (buf_bytes ?b) < 60000" by (simp add: put_u16_def)
  from sending_sends [OF this caching_sock, of CMD_BROWSE t1] obtain c1 where
    "write_buf CMD_BROWSE ?b t1 ?c = Inr (0, t1, c1)" by (auto simp: write_buf_send)
  then have sent: "cmd_browse BROWSE_TRACK ?ids 0 Gzip_Callback no_channels ?c = Inr (0, t1, c1)"
    using reg by (simp add: cmd_browse_def slice_def BROWSE_TRACK_def BROWSE_ALBUM_def BROWSE_ARTIST_def)
  have st: "storable (d_disk caching) (batch_name []) (length (drop 10 (concat ten_bytes)) + 1)"
    by (simp add: caching_disk storable_def empty_disk_def PATH_MAX_def batch_name_def ten_bytes_def length_hex_take min_def)
  have two: "length (tracks twice) \<le> 2" "(2 :: int) < 3" "length (buffer some_ctx) = 64" by (simp_all add: twice_def some_ctx_def)
  from missing_tracks_hang [OF one_track_stack(1) two(3,1,2) caching_disk(3) ids sent no_channels_ok(1) no_channels_ok(2) [symmetric] _
    one_track_serves caching_disk(2) st, of "[0, 0, 0, 0]" "[]"] show ?thesis by simp
qed

text \<open>
  The buffer of the hash.  With fewer than eight unused bytes behind \<open>tracks_hash[33]\<close>, loading
  the tracks of any playlist with well-formed ids writes over what lies there.
\<close>

lemma tracks_hash_overflows:
  assumes "frame_slack L < 8" "length (buffer (stack_ctx L)) = 64" "d_playlist c = pl # pls" "0 < num_tracks pl"
    and "list_all2 (\<lambda>tr h. hex_id (track_id tr) 16 = Inr h) (take 244 (tracks pl)) hids"
  shows "despotify_load_tracks L store ws t c = Inl Out_Of_Bounds"
proof -
  let ?cells = "replicate (MAX_BROWSE_REQ * 16) None :: byte option list"
  have len: "length (take 244 (tracks pl)) = length hids" using assms(5) by (rule list_all2_lengthD)
  have "\<forall>x \<in> set hids. length x = 16"
    using assms(5) by (induction rule: list_all2_induct) (auto intro: hex_id_length)
  then have clen: "length (concat hids) = length hids * 16" by (induction hids) auto
  have "list_all2 (\<lambda>a h. hex_id a 16 = Inr h) (map track_id (take 244 (tracks pl))) hids"
    using assms(5) by (simp add: list_all2_map1)
  from fill_ids_all [OF this, of ?cells MAX_BROWSE_REQ 0] obtain cells
    where cells: "fill_ids (map track_id (take 244 (tracks pl))) 0 ?cells = Inr (map Some (concat hids) @ cells)"
    by (auto simp: MAX_BROWSE_REQ_def)
  have wr: "written (take (length (take 244 (tracks pl)) * 16) (map Some (concat hids) @ cells)) = Inr (concat hids)"
    unfolding len using clen by (simp add: written_all)
  have "length (concat hids) < 2 ^ 29" using clen len by (simp add: min_def split: if_splits)
  with sha1_of_fips [OF assms(2), of "[concat hids]"] assms(1)
  have "tracks_hash L (stack_ctx L) (concat hids) = Inl Out_Of_Bounds" by (auto simp: tracks_hash_def)
  then have "load_batch L store 0 ?cells (stack_ctx L) (tracks pl) ws t c = Inl Out_Of_Bounds"
    using cells wr unfolding load_batch_def MAX_BROWSE_REQ_def by (simp only: drop_0 Let_def rbind.simps)
  then have "load_batches L store (num_tracks pl) 0 0 ?cells (stack_ctx L) 0 (tracks pl) ws t c = Some (Inl Out_Of_Bounds)"
    using assms(4) by (subst load_batches.simps) simp
  then show ?thesis using assms(3,4) by (simp add: despotify_load_tracks_def the_playlist_def)
qed

lemma tracks_hash_overflows_witness:
  "despotify_load_tracks (one_track\<lparr>frame_slack := 7\<rparr>) True [] no_channels with_twice = Inl Out_Of_Bounds"
proof (rule tracks_hash_overflows [OF _ _ twice_claims(5,1)])
  show "list_all2 (\<lambda>tr h. hex_id (track_id tr) 16 = Inr h) (take 244 (tracks twice)) [replicate 16 0, replicate 16 0]"
    using twice_ids twice_claims(3) by simp
qed (simp_all add: one_track_def stored_def some_ctx_def)

section \<open>What is cached stays cached\<close>

definition kept_blob :: "string \<Rightarrow> client \<Rightarrow> client \<Rightarrow> bool" where
  "kept_blob i c c' \<longleftrightarrow> cached i c' = cached i c \<and> d_use_cache c' = d_use_cache c \<and>
     cache_directory (d_disk c') = cache_directory (d_disk c)"

lemma kept_blob_same: "same_disk c c' \<Longrightarrow> kept_blob i c c'"
  by (simp add: same_disk_def kept_blob_def cached_def)

lemma kept_blob_refl: "kept_blob i c c"
  by (simp add: kept_blob_def)

lemma kept_blob_trans: "kept_blob i c c' \<Longrightarrow> kept_blob i c' c'' \<Longrightarrow> kept_blob i c c''"
  by (simp add: kept_blob_def)

lemma kept_blob_upd: "kept_blob i c (c'\<lparr>d_response := r\<rparr>) = kept_blob i c c'" "kept_blob i (c\<lparr>d_response := r\<rparr>) c' = kept_blob i c c'"
  "kept_blob i c (c'\<lparr>d_playlist := pls\<rparr>) = kept_blob i c c'" "kept_blob i c (c'\<lparr>d_last_error := e\<rparr>) = kept_blob i c c'"
  by (simp_all add: kept_blob_def cached_def)

text \<open>The name of a batch is never that of a playlist, an id of 34 digits.\<close>

lemma tracks_hash_name:
  assumes "tracks_hash L ctx l = Inr (hash, ctx')"
  shows "length hash \<le> 40" "length hash \<noteq> 34"
proof -
  from assms obtain h where h: "sha1_of ctx [l] = Some (h, ctx')" "hash = hex_bytes_to_ascii h 20"
    by (auto simp: tracks_hash_def split: option.splits if_splits)
  have "length (concat (map put_u32 ws)) = 4 * length ws" for ws
    by (induction ws) (simp_all add: put_u32_def)
  with h(1) obtain n where "length h = 4 * n" by (auto simp: sha1_of_def SHA1Final_def Let_def)
  then have "length hash = 2 * min 20 (4 * n)" by (simp add: h(2) length_hex_take)
  then show "length hash \<le> 40" "length hash \<noteq> 34" by (cases "5 \<le> n"; simp add: min_def; presburger)+
qed

lemma to_cache_kept:
  assumes "length i = 34" "length hash \<le> 40" "length hash \<noteq> 34" "length (cache_directory (d_disk c)) + 41 < PATH_MAX"
  shows "kept_blob i c (to_cache st hash data c)"
proof -
  have f: "cache_filename hash (d_disk c) \<noteq> cache_filename i (d_disk c)"
    using assms by (subst (1 2) cache_filename_fits) auto
  have "files (cache_store hash data (d_disk c)) (cache_filename i (d_disk c)) = files (d_disk c) (cache_filename i (d_disk c))"
    using f by (simp add: cache_store_def write_file_def)
  moreover have "cache_directory (cache_store hash data (d_disk c)) = cache_directory (d_disk c)"
    by (simp add: cache_store_def write_file_def)
  ultimately show ?thesis by (simp add: kept_blob_def to_cache_def cached_def cache_contains_def cache_load_def)
qed

lemma load_batch_kept:
  assumes "load_batch L store k cells ctx ts ws t c = Inr (x, ws', t', c')" "only_packets ws" "no_dumps t"
    and i: "length i = 34" "length (cache_directory (d_disk c)) + 41 < PATH_MAX"
  shows "only_packets ws' \<and> no_dumps t' \<and> kept_blob i c c'"
proof -
  let ?c = "c\<lparr>d_response := Some buf_new\<rparr>" and ?n = "length (take MAX_BROWSE_REQ (drop k ts))"
  from assms(1) obtain cs idl hash ctx' where h: "fill_ids (map track_id (take MAX_BROWSE_REQ (drop k ts))) 0 cells = Inr cs"
    "written (take (?n * 16) cs) = Inr idl" "tracks_hash L ctx idl = Inr (hash, ctx')"
    unfolding load_batch_def Let_def by (auto simp: rbind_Inr_iff)
  show ?thesis
  proof (cases "cached hash ?c")
    case (Some data)
    from assms(1) [unfolded load_batch_def Let_def h rbind.simps prod.case Some option.case]
    have "ws' = ws" "t' = t" "c' = ?c" by (auto simp: rbind_Inr_iff)
    then show ?thesis using assms(2,3) by (simp add: kept_blob_def cached_def)
  next
    case None
    from assms(1) [unfolded load_batch_def Let_def h rbind.simps prod.case None option.case] obtain idlist ok ws1 t1 c1
      where f: "fetch (cmd_browse BROWSE_TRACK idlist (int ?n) Gzip_Callback) ''Timeout while loading tracks'' ws t ?c = Inr (ok, ws1, t1, c1)"
      and rest: "(if \<not> ok then Inr ((False, ?n, 0, cs, ctx', ts), ws1, t1, c1)
        else rbind (inflated L c1) (\<lambda>b. case b of
           None \<Rightarrow> Inr ((True, ?n, 0, cs, ctx', ts), ws1, t1, c1\<lparr>d_response := None\<rparr>)
         | Some xml \<Rightarrow> rbind (xml_parse_tracklist (parse_xml L) (drop k ts) xml True (d_high_bitrate (to_cache store hash xml c1)))
             (\<lambda>(n, new). Inr ((True, ?n, n, cs, ctx', take k ts @ new), ws1, t1,
                (to_cache store hash xml c1)\<lparr>d_response := None\<rparr>)))) = Inr (x, ws', t', c')"
      unfolding rbind_Inr_iff split_paired_Ex prod.case by blast
    from rest have same: "ws1 = ws'" "t1 = t'"
      and c': "c' = c1 \<or> c' = c1\<lparr>d_response := None\<rparr> \<or> (\<exists>xml. c' = (to_cache store hash xml c1)\<lparr>d_response := None\<rparr>)"
      by (auto simp: rbind_Inr_iff split: if_splits option.splits)
    note f = f [unfolded same]
    from fetch_tracks_disk [OF f assms(2,3)] have r: "only_packets ws'" "no_dumps t'" "same_disk ?c c1" by simp_all
    from kept_blob_same [OF r(3)] have 1: "kept_blob i c c1" by (simp add: kept_blob_upd)
    then have "length (cache_directory (d_disk c1)) + 41 < PATH_MAX" using i(2) by (simp add: kept_blob_def)
    from kept_blob_trans [OF 1 to_cache_kept [OF i(1) tracks_hash_name [OF h(3)] this]] c' 1 r(1,2)
    show ?thesis by (auto simp: kept_blob_upd)
  qed
qed

lemma load_batches_kept:
  assumes "load_batches L store num totcount k cells ctx count ts ws t c = Some (Inr (x, ws', t', c'))"
    "only_packets ws" "no_dumps t" "length i = 34" "length (cache_directory (d_disk c)) + 41 < PATH_MAX"
  shows "kept_blob i c c'"
proof -
  have "\<forall>x ws' t' c'. r = Inr (x, ws', t', c') \<longrightarrow> only_packets ws \<longrightarrow> no_dumps t \<longrightarrow>
      length (cache_directory (d_disk c)) + 41 < PATH_MAX \<longrightarrow> kept_blob i c c'"
    if "load_batches L store num totcount k cells ctx count ts ws t c = Some r"
    for L :: "'a libs" and store num totcount k cells ctx count ts ws t c r
    using that
  proof (rule load_batches.raw_induct [where P = "\<lambda>L store num totcount k cells ctx count ts ws t c r.
      \<forall>x ws' t' c'. r = Inr (x, ws', t', c') \<longrightarrow> only_packets ws \<longrightarrow> no_dumps t \<longrightarrow>
      length (cache_directory (d_disk c)) + 41 < PATH_MAX \<longrightarrow> kept_blob i c c'", rotated])
    fix f and L :: "'a libs" and store num totcount k cells ctx count ts ws t c r
    assume ih: "\<And>L store num totcount k cells ctx count ts ws t c r.
        f L store num totcount k cells ctx count ts ws t c = Some r \<Longrightarrow>
        \<forall>x ws' t' c'. r = Inr (x, ws', t', c') \<longrightarrow> only_packets ws \<longrightarrow> no_dumps t \<longrightarrow>
          length (cache_directory (d_disk c)) + 41 < PATH_MAX \<longrightarrow> kept_blob i c c'"
      and run: "(if totcount < num then
        (case load_batch L store k cells ctx ts ws t c of
           Inl e \<Rightarrow> Some (Inl e)
         | Inr ((ok, m, n, cells, ctx, ts), ws, t, c) \<Rightarrow>
             if \<not> ok then Some (Inr ((False, count, ts), ws, t, c))
             else f L store num (totcount + int m) (k + m) cells ctx (count + n) ts ws t c)
        else Some (Inr ((True, count, ts), ws, t, c))) = Some r"
    show "\<forall>x ws' t' c'. r = Inr (x, ws', t', c') \<longrightarrow> only_packets ws \<longrightarrow> no_dumps t \<longrightarrow>
      length (cache_directory (d_disk c)) + 41 < PATH_MAX \<longrightarrow> kept_blob i c c'"
    proof (intro allI impI)
      fix x ws' t' c'
      assume r: "r = Inr (x, ws', t', c')" and ok: "only_packets ws" "no_dumps t"
        and dir: "length (cache_directory (d_disk c)) + 41 < PATH_MAX"
      show "kept_blob i c c'"
      proof (cases "totcount < num")
        case False
        with run r show ?thesis by (simp add: kept_blob_refl)
      next
        case True
        with run r obtain good m n cells' ctx' ts' ws1 t1 c1
          where b: "load_batch L store k cells ctx ts ws t c = Inr ((good, m, n, cells', ctx', ts'), ws1, t1, c1)"
          by (auto split: sum.splits)
        from load_batch_kept [OF b ok assms(4) dir] have 1: "only_packets ws1" "no_dumps t1" "kept_blob i c c1" by simp_all
        show ?thesis
        proof (cases good)
          case False
          with run r True b 1 show ?thesis by simp
        next
          case True
          with run r \<open>totcount < num\<close> b
          have "f L store num (totcount + int m) (k + m) cells' ctx' (count + n) ts' ws1 t1 c1 = Some (Inr (x, ws', t', c'))" by simp
          moreover have "length (cache_directory (d_disk c1)) + 41 < PATH_MAX" using 1(3) dir by (simp add: kept_blob_def)
          ultimately have "kept_blob i c1 c'" using ih [rule_format, OF _ refl 1(1,2)] by blast
          with 1(3) show ?thesis by (rule kept_blob_trans)
        qed
      qed
    qed
  qed
  with assms show ?thesis by blast
qed

lemma with_tracks_kept:
  assumes "with_tracks L store ws t c = Inr (r, ws', t', c')" "only_packets ws" "no_dumps t"
    "length i = 34" "length (cache_directory (d_disk c)) + 41 < PATH_MAX"
  shows "kept_blob i c c'"
proof -
  from assms(1) obtain ok c1 where l: "despotify_load_tracks L store ws t c = Inr (ok, ws', t', c1)"
    "c' = c1 \<or> c' = c1\<lparr>d_last_error := Some ''Failed loading track info'', d_playlist := []\<rparr>"
    by (auto simp: with_tracks_def rbind_Inr_iff split: if_splits)
  from l(1) obtain pl where pl: "the_playlist c = Inr pl" by (auto simp: despotify_load_tracks_def rbind_Inr_iff)
  have "kept_blob i c c1"
  proof (cases "num_tracks pl = 0")
    case True
    with l(1) pl show ?thesis by (simp add: despotify_load_tracks_def kept_blob_refl)
  next
    case False
    with l(1) pl obtain good n ts ws1 t1 c2 where b: "load_batches L store (num_tracks pl) 0 0 (replicate (MAX_BROWSE_REQ * 16) None)
        (stack_ctx L) 0 (tracks pl) ws t c = Some (Inr ((good, n, ts), ws1, t1, c2))"
      and rest: "(if \<not> good then Inr (False, ws1, t1, c2)
        else let (ts, n) = (if n < num_tracks pl then fill_duplicates ts n else (ts, n))
             in Inr (True, ws1, t1, set_playlist (pl\<lparr>tracks := ts, num_tracks := n\<rparr>) c2)) = (Inr (ok, ws', t', c1) :: bool answered)"
    proof -
      obtain x where x: "load_batches L store (num_tracks pl) 0 0 (replicate (MAX_BROWSE_REQ * 16) None)
          (stack_ctx L) 0 (tracks pl) ws t c = Some (Inr x)"
        using l(1) pl False by (auto simp: despotify_load_tracks_def rbind_Inr_iff split: option.splits)
      obtain good n ts ws1 t1 c2 where xs: "x = ((good, n, ts), ws1, t1, c2)" by (metis prod_cases3 prod.exhaust)
      from l(1) x pl False show thesis
        by (intro that [of good n ts ws1 t1 c2]) (auto simp: despotify_load_tracks_def xs Let_def split: if_splits)
    qed
    from rest have "ws1 = ws'" "t1 = t'" "c1 = c2 \<or> (\<exists>p. c1 = set_playlist p c2)"
      by (auto simp: Let_def split_def split: if_splits)
    note b = b [unfolded this(1,2)] this(3)
    from load_batches_kept [OF b(1) assms(2-5)] b(2) show ?thesis by (auto simp: set_playlist_def kept_blob_upd)
  qed
  with l(2) show ?thesis by (auto simp: kept_blob_upd)
qed

lemma same_channels_no_dumps:
  assumes "no_dumps t" "table_ok t'" "\<forall>j. find_ch j t' = find_ch j t"
  shows "no_dumps t'"
  unfolding no_dumps_def
proof
  fix ch assume "ch \<in> set (head t')"
  then have "find_ch (ch_id ch) t' = Some ch" using assms(2) by (intro find_ch_in) (simp_all add: table_ok_def)
  then have "ch \<in> set (head t)" using assms(3) find_ch_Some by metis
  then show "ch_callback ch \<noteq> Dump_Generic" using assms(1) by (simp add: no_dumps_def)
qed


definition zero_pid :: string where
  "zero_pid = replicate 34 (CHR ''0'')"

lemma zero_pid_hex: "hex_id zero_pid 17 = Inr (replicate 17 0)"
  by code_simp

text \<open>A listing of one playlist, and a playlist of which no tracks are claimed.\<close>

definition one_list :: "byte list libs" where
  "one_list = stored\<lparr>parse_xml := (\<lambda>_. Some (Ezxml ''playlist'' [] [] [Ezxml ''next-change'' [] []
     [Ezxml ''change'' [] [] [Ezxml ''ops'' [] [] [Ezxml ''add'' [] [] [tag ''items'' zero_pid]]],
      tag ''version'' ''0,0,0,0'']]))\<rparr>"

lemma one_list_parsed:
  "xml_parse_playlist (parse_xml one_list) zero_playlist x b =
     Inr [if b then zero_playlist\<lparr>playlist_id := zero_pid\<rparr>
          else zero_playlist\<lparr>tracks := [zero_track\<lparr>track_id := replicate 32 (CHR ''0'')\<rparr>]\<rparr>]"
proof -
  have four: "(4 :: nat) = Suc (Suc (Suc (Suc 0)))" by simp
  have scan: "scan_us 4 ''0,0,0,0'' = [0, 0, 0, 0]"
    unfolding four by (simp add: scan_u_def Let_def isspace_def isdigit_def digits_val_def digit_def)
  have pid: "zero_pid = replicate 34 (CHR ''0'')" by (simp add: zero_pid_def)
  have "strtok [] = []" by (subst strtok.simps) simp
  then have tok: "strtok zero_pid = [zero_pid]" "dropWhile isspace zero_pid = zero_pid"
    by (subst strtok.simps) (simp_all add: pid is_delim_def isspace_def)
  show ?thesis
    by (simp add: one_list_def xml_parse_playlist_def xml_parse_version_def xmlstrncpy_def ezxml_child_def tag_def scan
        list_of_playlists_def list_of_tracks_def tok)
      (simp add: zero_playlist_def pid DSFYstrncpy_def)
qed

definition plain_list :: "byte list libs" where
  "plain_list = stored\<lparr>parse_xml := short_playlist\<rparr>"

lemma short_playlist_parsed: "\<exists>p. xml_parse_playlist short_playlist zero_playlist x False = Inr [p] \<and> num_tracks p = 3"
proof -
  have four: "(4 :: nat) = Suc (Suc (Suc (Suc 0)))" by simp
  have "scan_us 4 ''7,3,9,0'' = [7, 3, 9, 0]"
    unfolding four by (simp add: scan_u_def Let_def isspace_def isdigit_def digits_val_def digit_def)
  then show ?thesis
  by (simp add: short_playlist_def xml_parse_playlist_def xml_parse_version_def xmlstrncpy_def ezxml_child_def tag_def
      isspace_def scan_u_def isdigit_def digits_val_def digit_def Let_def zero_playlist_def)
qed

lemma playlist_sent:
  assumes "sock c = \<lparr>rx_q = [], tx_q = [Taken 65000], wire = []\<rparr>"
  shows "\<exists>t1 c1. run_request (Get_Playlist (replicate 17 0) PLAYLIST_CURRENT) Plain_Callback no_channels (c :: client) = Inr (0, t1, c1)"
  using assms by (intro sending_request) simp_all


text \<open>When the listing of all playlists is late the mark that it was asked for stays.\<close>

lemma listing_late:
  assumes "run_request (Get_Playlist (replicate 17 0) PLAYLIST_CURRENT) Plain_Callback t
      (c\<lparr>d_playlist := [zero_playlist], d_response := Some (buf_append_data buf_new (bytes_of load_lists)),
         d_list_of_lists := True\<rparr>) = Inr (0, t1, c1)" "table_ok t"
  shows "despotify_get_playlist L None store (([], []) # ws) t c =
      Inr (None, ws, t1, c1\<lparr>d_last_error := Some ''Timeout while loading playlist''\<rparr>) \<and> d_list_of_lists c1"
proof -
  have "request_ok (Get_Playlist (replicate 17 0) PLAYLIST_CURRENT)" by simp
  from run_request_result(8) [OF this assms(2,1)] have "d_list_of_lists c1" by auto
  with assms(1) show ?thesis
    by (simp add: despotify_get_playlist_def fetch_def despotify_wait_timeout_def)
qed

lemma list_of_lists_parsed:
  assumes "xml_parse_playlist p pl xml True = Inr pls" "tracks pl = []"
  shows "pls \<noteq> [] \<and> (\<forall>q \<in> set pls. tracks q = [])"
  using assms
  by (auto simp: xml_parse_playlist_def list_of_playlists_def xml_parse_version_def Let_def rbind_Inr_iff zero_playlist_def
      split: list.splits)

text \<open>
  After a listing that timed out.  The next playlist the server sends is read as a list of
  playlists: what comes back has no tracks.  When its version counts some, they are
  asked for all the same, and the first 16 bytes of an array that holds nothing yet are read.
\<close>

lemma list_of_lists_sticks:
  assumes "d_list_of_lists c" "\<not> d_use_cache c" "hex_id i 17 = Inr pid"
    and "run_request (Get_Playlist pid PLAYLIST_CURRENT) Plain_Callback t
        (c\<lparr>d_playlist := [zero_playlist], d_response := Some (buf_append_data buf_new (bytes_of load_lists))\<rparr>) = Inr (0, t1, c1)"
    and "table_ok t" "k = next_channel_id t" "k < 65536" and "packets_ok hs ds"
    and "xml_parse_playlist (parse_xml L) zero_playlist (playlist_text ds) True = Inr (pl # pls)"
    and "8 \<le> frame_slack L" "length (buffer (stack_ctx L)) = 64"
  shows "if 0 < num_tracks pl
    then despotify_get_playlist L (Some i) store (([], [handled k mac hs ds]) # ws) t c = Inl Uninit
    else \<exists>t' c' pl'. despotify_get_playlist L (Some i) store (([], [handled k mac hs ds]) # ws) t c =
        Inr (Some (pl' # pls), ws, t', c') \<and> (\<forall>q \<in> set (pl' # pls). tracks q = [])"
proof -
  have miss: "cached i c = None" and p: "xml_parse_playlist (parse_xml L) zero_playlist (playlist_text ds) (d_list_of_lists c) = Inr (pl # pls)"
    using assms(1,2,9) by (simp_all add: cached_def)
  from get_playlist_run [OF miss assms(3-8) p, of store mac ws] assms(1,2) obtain t' c'
    where r: "despotify_get_playlist L (Some i) store (([], [handled k mac hs ds]) # ws) t c = with_tracks L store ws t' c'"
      "d_playlist c' = pl # pls" "\<not> d_use_cache c'" by auto
  have none: "tracks q = []" if "q \<in> set (pl # pls)" for q
    using list_of_lists_parsed [OF assms(9)] that by (auto simp: zero_playlist_def)
  let ?cells = "replicate (MAX_BROWSE_REQ * 16) None :: byte option list"
  show ?thesis
  proof (cases "0 < num_tracks pl")
    case True
    obtain ctx where "tracks_hash L (stack_ctx L) [] = Inr (batch_name [], ctx)"
      using tracks_hash_fips [OF assms(10,11), of "[]"] by (auto simp: batch_name_def)
    then have "load_batch L store 0 ?cells (stack_ctx L) [] ws t' c' = Inl Uninit"
      using r(3) by (simp add: load_batch_def written_def cached_def MAX_BROWSE_REQ_def)
    then have "load_batches L store (num_tracks pl) 0 0 ?cells (stack_ctx L) 0 [] ws t' c' = Some (Inl Uninit)"
      using True by (subst load_batches.simps) simp
    with True r none show ?thesis by (simp add: with_tracks_def despotify_load_tracks_def the_playlist_def)
  next
    case False
    have "fill_duplicates [] n = ([], n)" for n by (simp add: fill_duplicates_def)
    moreover have "load_batches L store (num_tracks pl) 0 0 ?cells (stack_ctx L) 0 [] ws t' c' = Some (Inr ((True, 0, []), ws, t', c'))"
      using False by (subst load_batches.simps) simp
    ultimately have "\<exists>pl'. with_tracks L store ws t' c' = Inr (Some (pl' # pls), ws, t', c'\<lparr>d_playlist := pl' # pls\<rparr>) \<and> tracks pl' = []"
      using False r(2) none
      by (cases "num_tracks pl = 0")
        (auto simp: with_tracks_def despotify_load_tracks_def the_playlist_def set_playlist_def intro!: exI [of _ pl])
    with False r(1) none show ?thesis by fastforce
  qed
qed

definition mislisted :: client where
  "mislisted = caching\<lparr>d_list_of_lists := True, d_use_cache := False\<rparr>"

lemma list_of_lists_sticks_witness:
  "despotify_get_playlist plain_list (Some zero_pid) True [([], [handled 0 [0, 0, 0, 0] [] [[60]]])] no_channels mislisted = Inl Uninit"
proof -
  have four: "(4 :: nat) = Suc (Suc (Suc (Suc 0)))" by simp
  have "scan_us 4 ''7,3,9,0'' = [7, 3, 9, 0]"
    unfolding four by (simp add: scan_u_def Let_def isspace_def isdigit_def digits_val_def digit_def)
  then have "\<exists>p ps. xml_parse_playlist (parse_xml plain_list) zero_playlist (playlist_text [[60]]) True = Inr (p # ps) \<and> num_tracks p = 3"
    by (simp add: plain_list_def short_playlist_def xml_parse_playlist_def xml_parse_version_def xmlstrncpy_def ezxml_child_def tag_def
      isspace_def list_of_playlists_def is_delim_def Let_def zero_playlist_def)
  then obtain p ps where p: "xml_parse_playlist (parse_xml plain_list) zero_playlist (playlist_text [[60]]) True = Inr (p # ps)"
    "num_tracks p = 3" by blast
  have l: "d_list_of_lists mislisted" "\<not> d_use_cache mislisted" by (simp_all add: mislisted_def)
  let ?c = "mislisted\<lparr>d_playlist := [zero_playlist], d_response := Some (buf_append_data buf_new (bytes_of load_lists))\<rparr>"
  obtain t1 c1 where sent: "run_request (Get_Playlist (replicate 17 0) PLAYLIST_CURRENT) Plain_Callback no_channels ?c = Inr (0, t1, c1)"
    using playlist_sent [of ?c] by (auto simp: mislisted_def caching_def sending_def)
  have ok: "packets_ok [] [[60]]" by (simp add: packets_ok_def)
  have st: "8 \<le> frame_slack plain_list" "length (buffer (stack_ctx plain_list)) = 64"
    by (simp_all add: plain_list_def stored_def some_ctx_def)
  from list_of_lists_sticks [OF l zero_pid_hex sent no_channels_ok(1) no_channels_ok(2) [symmetric] _ ok p(1) st,
    of True "[0, 0, 0, 0]" "[]"] p(2)
  show ?thesis by simp
qed

text \<open>The playlists of a listing, each fetched after the other; one that failed gives nothing.\<close>

fun fetch_each ::
  "'z libs \<Rightarrow> bool \<Rightarrow> ds_playlist list \<Rightarrow> waits \<Rightarrow> table \<Rightarrow> client \<Rightarrow> ds_playlist list list answered" where
  "fetch_each L store [] ws t c = Inr ([], ws, t, c)"
| "fetch_each L store (p # ps) ws t c =
     (if playlist_id p = [] then Inr ([], ws, t, c)
      else rbind (despotify_get_playlist L (Some (playlist_id p)) store ws t c) (\<lambda>(new, ws, t, c).
           rbind (fetch_each L store ps ws t c) (\<lambda>(news, ws, t, c).
             Inr ((case new of None \<Rightarrow> [] | Some pls \<Rightarrow> pls) # news, ws, t, c))))"

lemma get_all_links:
  "get_all L store ps chain ws t c =
     rbind (fetch_each L store ps ws t c) (\<lambda>(news, ws, t, c). Inr (foldl link chain news, ws, t, c))"
proof (induction ps arbitrary: chain ws t c)
  case (Cons p ps)
  show ?case
    by (cases "despotify_get_playlist L (Some (playlist_id p)) store ws t c")
      (auto simp: Cons.IH rbind_assoc split_def)
qed simp

text \<open>
  What is left of them: the first of each of those behind the last failure, and the whole of the
  last one.
\<close>

definition kept :: "ds_playlist list list \<Rightarrow> ds_playlist list" where
  "kept news = (if news = [] then []
     else map hd (rev (takeWhile (\<lambda>n. n \<noteq> []) (rev (butlast news)))) @ last news)"

lemma link_kept: "foldl link ([], []) news = (done, cur) \<Longrightarrow> done @ cur = kept news \<and> (news \<noteq> [] \<longrightarrow> cur = last news)"
proof (induction news arbitrary: "done" cur rule: rev_induct)
  case Nil
  then show ?case by (simp add: kept_def)
next
  case (snoc n news)
  obtain d e where de: "foldl link ([], []) news = (d, e)" by fastforce
  with snoc.prems have l: "link (d, e) n = (done, cur)" by simp
  note ih = snoc.IH [OF de]
  show ?case
  proof (cases "news = []")
    case True
    with de have "d = [] \<and> e = []" by simp
    with l True show ?thesis by (auto simp: link_def kept_def)
  next
    case False
    then obtain init x where n: "news = init @ [x]" by (metis append_butlast_last_id)
    with ih have e: "e = x" "d = map hd (rev (takeWhile (\<lambda>n. n \<noteq> []) (rev init)))" by (auto simp: kept_def)
    show ?thesis
    proof (cases x)
      case Nil
      with l e n show ?thesis by (auto simp: link_def kept_def butlast_append)
    next
      case (Cons y ys)
      with l e n show ?thesis by (auto simp: link_def kept_def butlast_append)
    qed
  qed
qed

lemma kept_all: "kept (map (\<lambda>p. [p]) ps) = ps"
proof (cases ps rule: rev_cases)
  case (snoc init p)
  have "map hd (rev (takeWhile (\<lambda>n. n \<noteq> []) (rev (map (\<lambda>p. [p]) init)))) = init"
    by (subst takeWhile_eq_all_conv [THEN iffD2]) (auto simp: o_def)
  then show ?thesis using snoc by (simp add: kept_def)
qed (simp add: kept_def)

lemma kept_after_failure: "news \<noteq> [] \<Longrightarrow> kept (lost @ [] # news) = kept news"
  by (simp add: kept_def butlast_append takeWhile_tail)

text \<open>
  C14: All stored playlists.  Once the listing is there, the playlists are fetched in its order,
  and the result is those that come behind the last one that failed (if that was not the last
  of all); the ones before it are lost.  If all can be fetched nothing is.  A listing newer than
  the revision kept turns the cache off for them, and its revision is kept.
\<close>

theorem stored_playlists_linked:
  assumes "despotify_get_playlist L None False ws t (c\<lparr>d_use_cache := False\<rparr>) = Inr (Some (m # ms), ws1, t1, c1)"
    and "newer = (d_use_cache c \<and> cache_get_meta_playlist_revision (d_disk c1) < revision m)"
    and "c2 = c1\<lparr>d_use_cache := (if d_use_cache c then \<not> newer else d_use_cache c1),
      d_disk := (if newer then cache_set_meta_playlist_revision (revision m) (d_disk c1) else d_disk c1)\<rparr>"
    and "fetch_each L (d_use_cache c) (m # ms) ws1 t1 c2 = Inr (news, ws3, t3, c3)"
  shows "despotify_get_stored_playlists L ws t c = Inr (kept news, ws3, t3, c3\<lparr>d_use_cache := d_use_cache c\<rparr>) \<and>
    (\<forall>ps. news = map (\<lambda>p. [p]) ps \<longrightarrow> kept news = ps) \<and>
    (\<forall>lost rest. news = lost @ [] # rest \<and> rest \<noteq> [] \<longrightarrow> kept news = kept rest)"
proof -
  obtain d cur where link: "foldl link ([], []) news = (d, cur)" by fastforce
  have same: "c1 = c1\<lparr>d_use_cache := d_use_cache c1, d_disk := d_disk c1\<rparr>" by simp
  have dec: "(if \<not> d_use_cache c then Inr c1
      else if cache_get_meta_playlist_revision (d_disk c1) < revision m
           then Inr (c1\<lparr>d_use_cache := False, d_disk := cache_set_meta_playlist_revision (revision m) (d_disk c1)\<rparr>)
           else Inr (c1\<lparr>d_use_cache := d_use_cache c\<rparr>)) = (Inr c2 :: client result)"
    using assms(2,3) by auto
  have "get_all L (d_use_cache c) (m # ms) ([], []) ws1 t1 c2 = Inr ((d, cur), ws3, t3, c3)"
    unfolding get_all_links assms(4) by (simp add: link)
  then have "despotify_get_stored_playlists L ws t c = Inr (d @ cur, ws3, t3, c3\<lparr>d_use_cache := d_use_cache c\<rparr>)"
    unfolding despotify_get_stored_playlists_def Let_def assms(1)
    by (simp only: rbind.simps prod.case option.case list.case dec)
  then show ?thesis using link_kept [OF link] kept_all kept_after_failure by auto
qed

text \<open>The playlist of the listing is in the cache.\<close>

definition one_cached :: client where
  "one_cached = caching\<lparr>d_disk := empty_disk\<lparr>files := [cache_filename zero_pid empty_disk \<mapsto> [0]]\<rparr>\<rparr>"

theorem stored_playlists_linked_witness:
  "\<exists>p t' c'. despotify_get_stored_playlists one_list [([], [handled 0 [0, 0, 0, 0] [] [[60]]])] no_channels one_cached =
     Inr ([p], [], t', c') \<and> playlist_id p = zero_pid"
proof -
  let ?m = "zero_playlist\<lparr>playlist_id := zero_pid\<rparr>"
  let ?p = "zero_playlist\<lparr>tracks := [zero_track\<lparr>track_id := replicate 32 (CHR ''0'')\<rparr>], playlist_id := zero_pid\<rparr>"
  let ?u = "one_cached\<lparr>d_use_cache := False\<rparr>"
  let ?c = "?u\<lparr>d_playlist := [zero_playlist], d_response := Some (buf_append_data buf_new (bytes_of load_lists)), d_list_of_lists := True\<rparr>"
  obtain t1 c1 where sent: "run_request (Get_Playlist (replicate 17 0) PLAYLIST_CURRENT) Plain_Callback no_channels ?c = Inr (0, t1, c1)"
    using playlist_sent [of ?c] by (auto simp: one_cached_def caching_def sending_def)
  have ok: "packets_ok [] [[60]]" by (simp add: packets_ok_def)
  have list: "xml_parse_playlist (parse_xml one_list) zero_playlist (playlist_text [[60]]) True = Inr [?m]"
    by (simp add: one_list_parsed)
  from listing_run [OF sent no_channels_ok(1) no_channels_ok(2) [symmetric] _ ok list, of False "[0, 0, 0, 0]" "[]"]
  obtain t2 c2 where l: "despotify_get_playlist one_list None False [([], [handled 0 [0, 0, 0, 0] [] [[60]]])] no_channels ?u =
      Inr (Some [?m], [], t2, c2)" "d_disk c2 = d_disk one_cached" "\<not> d_use_cache c2"
    by auto
  have use: "d_use_cache one_cached" using caching_disk(2) by (simp add: one_cached_def)
  have old: "\<not> cache_get_meta_playlist_revision (d_disk c2) < revision ?m"
    by (simp add: zero_playlist_def)
  let ?c3 = "c2\<lparr>d_use_cache := True, d_disk := d_disk c2\<rparr>"
  have "cached zero_pid (?c3\<lparr>d_playlist := [zero_playlist]\<rparr>) = Some [0]"
    using l(2) by (simp add: cached_def one_cached_def cache_contains_def cache_load_def cache_filename_def)
  moreover have zero: "num_tracks zero_playlist = 0" "DSFYstrncpy zero_pid 35 = zero_pid"
    by (simp_all add: zero_playlist_def DSFYstrncpy_def zero_pid_def)
  ultimately have "despotify_get_playlist one_list (Some zero_pid) True [] t2 ?c3 = Inr (Some [?p], [], t2, ?c3\<lparr>d_playlist := [?p]\<rparr>)"
    using zero by (simp add: despotify_get_playlist_def one_list_parsed set_id_def with_tracks_def despotify_load_tracks_def
        the_playlist_def)
  then have "fetch_each one_list (d_use_cache one_cached) [?m] [] t2 ?c3 = Inr ([[?p]], [], t2, ?c3\<lparr>d_playlist := [?p]\<rparr>)"
    using use by (simp add: zero_pid_def)
  from stored_playlists_linked [OF l(1) _ _ this, of False] use old
  have "despotify_get_stored_playlists one_list [([], [handled 0 [0, 0, 0, 0] [] [[60]]])] no_channels one_cached =
      Inr (kept [[?p]], [], t2, ?c3\<lparr>d_playlist := [?p], d_use_cache := True\<rparr>)" by simp
  then show ?thesis by (simp add: kept_def)
qed

section \<open>Renaming\<close>

lemma length_dec: "n < 10 ^ k \<Longrightarrow> 0 < k \<Longrightarrow> length (dec n) \<le> k"
proof (induction n arbitrary: k rule: dec.induct)
  case (1 n)
  show ?case
  proof (cases "n < 10")
    case True
    with 1(3) show ?thesis by (simp add: dec.simps [of n])
  next
    case False
    then have "k \<noteq> 1" using 1(2) by auto
    then obtain j where j: "k = Suc j" "0 < j" using 1(3) by (cases k) auto
    then have "n div 10 < 10 ^ j" using 1(2) by (simp add: less_mult_imp_div_less mult.commute)
    from 1(1) [OF False this j(2)] False j show ?thesis by (subst dec.simps) simp
  qed
qed

lemma length_dec_u32: "length (dec (unat (w :: u32))) \<le> 10"
proof (rule length_dec)
  have "unat w < 2 ^ 32" using unsigned_less [of w] by simp
  then show "unat w < 10 ^ 10" by simp
qed simp

lemma length_pad10: "length (pad10 w) = 10"
  using length_dec_u32 [of w] by (simp add: pad10_def Let_def)

lemma change_fits: "length ops + length usertag \<le> 407 \<Longrightarrow> change_xml ops clock usertag pl = change_text ops clock usertag pl"
  using length_dec_u32 [of clock] by (simp add: change_xml_def change_text_def length_pad10 bit_digit_def)

text \<open>A number in ten decimal digits, with zeros in front.\<close>

definition ten_digits :: "string \<Rightarrow> nat \<Rightarrow> bool" where
  "ten_digits s v \<longleftrightarrow> (\<exists>ds. numeral_in 10 s ds \<and> length ds = 10 \<and> value_of 10 ds = v)"

lemma ten_digits_unique:
  assumes "ten_digits s v" "ten_digits s' v"
  shows "s = s'"
proof -
  from assms obtain ds es where d: "numeral_in 10 s ds" "length ds = 10" "value_of 10 ds = v"
    and e: "numeral_in 10 s' es" "length es = 10" "value_of 10 es = v" by (auto simp: ten_digits_def)
  then have "ds = es" by (intro value_of_inject [of ds es 10]) (auto simp: numeral_in_def)
  with d(1) e(1) show ?thesis by (simp add: numeral_in_def)
qed

lemma dec_numeral: "\<exists>ds. numeral_in 10 (dec n) ds \<and> value_of 10 ds = n"
proof (induction n rule: dec.induct)
  case (1 n)
  have digit: "char_of (48 + d) = alphabet ! d" if "d < 10" for d
  proof -
    have "\<forall>d \<in> set [0..<10]. char_of (48 + d) = alphabet ! d" by code_simp
    with that show ?thesis by simp
  qed
  show ?case
  proof (cases "n < 10")
    case True
    then show ?thesis using digit [OF True]
      by (intro exI [of _ "[n]"]) (simp add: dec.simps [of n] numeral_in_def value_of_def)
  next
    case False
    with 1 obtain ds where ds: "numeral_in 10 (dec (n div 10)) ds" "value_of 10 ds = n div 10" by blast
    have "dec n = dec (n div 10) @ [char_of (48 + n mod 10)]" using False by (subst dec.simps) simp
    then show ?thesis using ds digit [of "n mod 10"]
      by (intro exI [of _ "ds @ [n mod 10]"]) (simp add: numeral_in_def)
  qed
qed

lemma pad10_digits: "ten_digits (pad10 w) (unat w)"
proof -
  obtain ds where ds: "numeral_in 10 (dec (unat w)) ds" "value_of 10 ds = unat w" using dec_numeral by blast
  have l: "length (dec (unat w)) = length ds" using ds(1) by (simp add: numeral_in_def)
  let ?es = "replicate (10 - length ds) 0 @ ds"
  have "value_of 10 (replicate n 0) = 0" for n by (induction n) (simp_all add: value_of_Cons)
  then have "value_of 10 ?es = unat w" using ds(2) by (simp add: value_of_append)
  moreover have "numeral_in 10 (pad10 w) ?es"
    using ds(1) unfolding pad10_def Let_def l by (auto simp: numeral_in_def alphabet_def map_replicate_const)
  moreover have "length ?es = 10" using length_dec_u32 [of w] l by simp
  ultimately show ?thesis by (auto simp: ten_digits_def)
qed

text \<open>Asking for a change that is answered in time.\<close>

lemma change_playlist_run:
  assumes hex: "hex_id (playlist_id pl) 17 = Inr pid" and len: "length xml < 65000" and b: "d_response c = Some buf_new"
    and sent: "run_request (Change_Playlist pid xml (revision pl) (word_of_int (num_tracks pl)) (checksum pl)
        (of_bool (is_collaborative pl))) Plain_Callback t c = Inr (0, t1, c1)"
    and table: "table_ok t" "k = next_channel_id t" "k < 65536" and answer: "packets_ok hs ds"
    and parsed: "xml_parse_confirm (parse_xml L) pl (concat ds @ [0]) = Inr r"
  shows "\<exists>t' c'. change_playlist L pl xml late (([], [handled k mac hs ds]) # ws) t c = Inr (Some r, ws, t', c') \<and>
    (\<forall>j. find_ch j t' = find_ch j t) \<and>
    wire (sock c') = wire (sock c) @ packet_bytes (sess c) 0x36 (put_u16 (word_of_int k) @ pid @ put_u32 (revision pl) @
      put_u32 (word_of_int (num_tracks pl)) @ put_u32 (checksum pl) @ [of_bool (is_collaborative pl), 3] @ bytes_of xml)"
proof -
  let ?req = "Change_Playlist pid xml (revision pl) (word_of_int (num_tracks pl)) (checksum pl) (of_bool (is_collaborative pl))"
  have ok: "request_ok ?req" using hex_id_length [OF hex] len by simp
  have run: "run_request ?req Plain_Callback = (cmd_changeplaylist pid xml (revision pl) (word_of_int (num_tracks pl)) (checksum pl)
      (of_bool (is_collaborative pl)) Plain_Callback :: table \<Rightarrow> client \<Rightarrow> _)"
    by (intro ext) (simp add: of_bool_def)
  from fetch_answered [OF ok table(1) sent _ _ b buf_inv_new _ table(2,3) answer, of late mac ws] obtain t' s m b'
    where f: "fetch (run_request ?req Plain_Callback) late (([], [handled k mac hs ds]) # ws) t c =
      Inr (True, ws, t', c\<lparr>sess := s, sock := m, d_response := Some b', d_synced := d_synced c + 1\<rparr>)"
      "buf_inv b'" "\<forall>j. find_ch j t' = find_ch j t" "buf_bytes b' = concat ds"
      "wire m = wire (sock c) @ packet_bytes (sess c) 0x36 (put_u16 (word_of_int k) @ pid @ put_u32 (revision pl) @
        put_u32 (word_of_int (num_tracks pl)) @ put_u32 (checksum pl) @ [of_bool (is_collaborative pl), 3] @ bytes_of xml)"
    by (auto simp: first_state_def)
  have nul: "buf_append_u8_checked b' 0 = Inr (buf_append_u8 b' 0)"
    using answer length_buf_bytes [OF f(2)] f(4) by (intro buf_append_u8_in_range f(2)) (simp add: packets_ok_def)
  have "change_playlist L pl xml late (([], [handled k mac hs ds]) # ws) t c =
      Inr (Some r, ws, t', c\<lparr>sess := s, sock := m, d_response := Some b', d_synced := d_synced c + 1\<rparr>)"
    using f(1,2,4) parsed nul unfolding run by (simp add: change_playlist_def hex)
  with f(3,5) show ?thesis
    by (intro exI [of _ t'] exI [of _ "c\<lparr>sess := s, sock := m, d_response := Some b', d_synced := d_synced c + 1\<rparr>"]) simp
qed

text \<open>
  C15: Renaming one's playlist.  When the encoded names are together no longer than 381
  characters, one packet goes out, and in it the change, uncut: the name and the user as XML, and
  in ten digits each the version, one higher than the playlist's, the number of tracks and the
  checksum.  When the server confirms it the playlist has the new name, cut to its field, and
  the version the server gave, otherwise it is left as it was.
\<close>

theorem playlist_renamed:
  assumes "author pl = ui_username (user_info (sess c))" "hex_id (playlist_id pl) 17 = Inr pid"
    and "length (ezxml_ampencode name) + length (ezxml_ampencode (author pl)) \<le> 381"
    and sent: "\<And>xml. length xml \<le> 511 \<Longrightarrow> \<exists>t1 c1. run_request (Change_Playlist pid xml (revision pl) (word_of_int (num_tracks pl))
        (checksum pl) (of_bool (is_collaborative pl))) Plain_Callback t (c\<lparr>d_response := Some buf_new\<rparr>) = Inr (0, t1, c1)"
    and "table_ok t" "k = next_channel_id t" "k < 65536" and "packets_ok hs ds"
    and "xml_parse_confirm (parse_xml L) pl (concat ds @ [0]) = Inr (confirm, pl')"
    and version: "ten_digits v ((unat (revision pl) + 1) mod 2 ^ 32)" "ten_digits n (nat (num_tracks pl mod 2 ^ 32))"
      "ten_digits s (unat (checksum pl))"
  shows "\<exists>t' c'. despotify_rename_playlist L clock pl name (([], [handled k mac hs ds]) # ws) t c =
      Inr ((confirm, if confirm then pl'\<lparr>pl_name := take 255 name\<rparr> else pl), ws, t', c') \<and>
    (\<forall>j. find_ch j t' = find_ch j t) \<and>
    wire (sock c') = wire (sock c) @ packet_bytes (sess c) 0x36 (put_u16 (word_of_int k) @ pid @ put_u32 (revision pl) @
      put_u32 (word_of_int (num_tracks pl)) @ put_u32 (checksum pl) @ [of_bool (is_collaborative pl), 3] @
      bytes_of (''<change><ops><name>'' @ ezxml_ampencode name @ ''</name></ops><time>'' @ dec (unat clock) @
        ''</time><user>'' @ ezxml_ampencode (author pl) @ ''</user></change><version>'' @ v @ '','' @ n @ '','' @ s @ '','' @
        (if is_collaborative pl then ''1'' else ''0'') @ ''</version>'')) \<and>
    (\<not> confirm \<longrightarrow> d_last_error c' = Some ''Failed renaming playlist'')"
proof -
  let ?ops = "xml_gen_tag ''name'' name" and ?user = "xml_gen_tag ''user'' (author pl)"
  let ?xml = "''<change><ops><name>'' @ ezxml_ampencode name @ ''</name></ops><time>'' @ dec (unat clock) @
        ''</time><user>'' @ ezxml_ampencode (author pl) @ ''</user></change><version>'' @ v @ '','' @ n @ '','' @ s @ '','' @
        (if is_collaborative pl then ''1'' else ''0'') @ ''</version>''"
  have "unat (revision pl + 1) = (unat (revision pl) + 1) mod 2 ^ 32" by (simp add: unat_word_ariths)
  then have "pad10 (revision pl + 1) = v" using ten_digits_unique [OF pad10_digits] version(1) by simp
  moreover have "unat (word_of_int (num_tracks pl) :: u32) = nat (num_tracks pl mod 2 ^ 32)"
    by (simp add: unat_eq_nat_uint uint_word_of_int)
  then have "pad10 (word_of_int (num_tracks pl)) = n" using ten_digits_unique [OF pad10_digits] version(2) by metis
  moreover have "pad10 (checksum pl) = s" using ten_digits_unique [OF pad10_digits version(3)] .
  ultimately have sent_xml: "change_text ?ops clock ?user pl = ?xml" by (simp add: change_text_def xml_gen_tag_def bit_digit_def)
  have "length ?ops + length ?user \<le> 407" using assms(3) by (simp add: xml_gen_tag_def)
  from change_fits [OF this] have fits: "change_xml ?ops clock ?user pl = change_text ?ops clock ?user pl" .
  have "length (change_xml ?ops clock ?user pl) \<le> 511" by (simp add: change_xml_def)
  then have len: "length (change_text ?ops clock ?user pl) \<le> 511" "length (change_text ?ops clock ?user pl) < 65000"
    unfolding fits by simp_all
  have keep: "\<not> confirm \<Longrightarrow> pl' = pl"
    using assms(9) by (auto simp: xml_parse_confirm_def rbind_Inr_iff split: option.splits if_splits)
  obtain t1 c1 where "run_request (Change_Playlist pid (change_text ?ops clock ?user pl) (revision pl) (word_of_int (num_tracks pl))
        (checksum pl) (of_bool (is_collaborative pl))) Plain_Callback t (c\<lparr>d_response := Some buf_new\<rparr>) = Inr (0, t1, c1)"
    using sent [OF len(1)] by blast
  from change_playlist_run [OF assms(2) len(2) _ this assms(5-9), of "''Timeout while renaming playlist''" mac ws] obtain t' c'
    where r: "change_playlist L pl (change_text ?ops clock ?user pl) ''Timeout while renaming playlist''
      (([], [handled k mac hs ds]) # ws) t (c\<lparr>d_response := Some buf_new\<rparr>) = Inr (Some (confirm, pl'), ws, t', c')"
      "\<forall>j. find_ch j t' = find_ch j t"
      "wire (sock c') = wire (sock c) @ packet_bytes (sess c) 0x36 (put_u16 (word_of_int k) @ pid @ put_u32 (revision pl) @
        put_u32 (word_of_int (num_tracks pl)) @ put_u32 (checksum pl) @ [of_bool (is_collaborative pl), 3] @
        bytes_of (change_text ?ops clock ?user pl))" by auto
  let ?c' = "if confirm then c'\<lparr>d_response := None\<rparr> else c'\<lparr>d_last_error := Some ''Failed renaming playlist'', d_response := None\<rparr>"
  have "despotify_rename_playlist L clock pl name (([], [handled k mac hs ds]) # ws) t c =
      Inr ((confirm, if confirm then pl'\<lparr>pl_name := take 255 name\<rparr> else pl), ws, t', ?c')"
    using fits assms(1) keep r(1) by (cases confirm) (simp_all add: despotify_rename_playlist_def DSFYstrncpy_def)
  moreover have "sock ?c' = sock c'" by simp
  ultimately show ?thesis using r(2,3) unfolding sent_xml by (intro exI [of _ t'] exI [of _ ?c']) simp
qed

definition confirmed :: "byte list libs" where
  "confirmed = stored\<lparr>parse_xml := (\<lambda>_. Some (Ezxml ''confirm'' [] [] [tag ''version'' ''2,0,9,0'']))\<rparr>"

lemma pad10_small: "ten_digits ''0000000000'' 0" "ten_digits ''0000000001'' 1"
proof -
  have "pad10 0 = ''0000000000''" "pad10 1 = ''0000000001''" by code_simp+
  with pad10_digits [of 0] pad10_digits [of 1] show "ten_digits ''0000000000'' 0" "ten_digits ''0000000001'' 1" by simp_all
qed

theorem playlist_renamed_witness:
  "\<exists>t' c' p. despotify_rename_playlist confirmed 7 (zero_playlist\<lparr>playlist_id := zero_pid\<rparr>) ''Mine''
     [([], [handled 0 [0, 0, 0, 0] [] [[60]]])] no_channels caching = Inr ((True, p), [], t', c') \<and>
   pl_name p = ''Mine'' \<and> revision p = 2 \<and>
   wire (sock c') = packet_bytes (sess caching) 0x36 (replicate 31 0 @ [0, 3] @
     bytes_of ''<change><ops><name>Mine</name></ops><time>7</time><user></user></change><version>0000000001,0000000000,0000000000,0</version>'')"
proof -
  let ?pl = "zero_playlist\<lparr>playlist_id := zero_pid\<rparr>"
  have four: "(4 :: nat) = Suc (Suc (Suc (Suc 0)))" by simp
  have "scan_us 4 ''2,0,9,0'' = [2, 0, 9, 0]"
    unfolding four by (simp add: scan_u_def Let_def isspace_def isdigit_def digits_val_def digit_def)
  then have "\<exists>p. xml_parse_confirm (parse_xml confirmed) ?pl (concat [[60]] @ [0]) = Inr (True, p) \<and> revision p = 2"
    by (simp add: confirmed_def xml_parse_confirm_def xml_parse_version_def ezxml_child_def tag_def strncmp_eq_def)
  then obtain p where p: "xml_parse_confirm (parse_xml confirmed) ?pl (concat [[60]] @ [0]) = Inr (True, p)" "revision p = 2" by blast
  have own: "author ?pl = ui_username (user_info (sess caching))" "hex_id (playlist_id ?pl) 17 = Inr (replicate 17 0)"
    by (simp_all add: zero_pid_hex zero_playlist_def caching_def sending_def plain_client_def zero_session_def zero_user_info_def
        client_of_def client.defs conn.defs)
  have amp: "ezxml_ampencode [] = []" "ezxml_ampencode ''Mine'' = ''Mine''"
    by (simp_all add: ezxml_ampencode_def amp_char_def)
  have short: "length (ezxml_ampencode ''Mine'') + length (ezxml_ampencode (author ?pl)) \<le> 381"
    using amp by (simp add: zero_playlist_def)
  have zero: "author ?pl = []" "revision ?pl = 0" "num_tracks ?pl = 0" "checksum ?pl = 0" "\<not> is_collaborative ?pl"
    by (simp_all add: zero_playlist_def)
  have v: "ten_digits ''0000000001'' ((unat (revision ?pl) + 1) mod 2 ^ 32)"
    "ten_digits ''0000000000'' (nat (num_tracks ?pl mod 2 ^ 32))" "ten_digits ''0000000000'' (unat (checksum ?pl))"
    using pad10_small zero by simp_all
  have sent: "\<exists>t1 c1. run_request (Change_Playlist (replicate 17 0) xml (revision ?pl) (word_of_int (num_tracks ?pl)) (checksum ?pl)
      (of_bool (is_collaborative ?pl))) Plain_Callback no_channels (caching\<lparr>d_response := Some buf_new\<rparr>) = Inr (0, t1, c1)"
    if "length xml \<le> 511" for xml
    using that by (intro sending_request caching_sock) (auto simp: bytes_of_def)
  have ok: "packets_ok [] [[60]]" by (simp add: packets_ok_def)
  have wire: "wire (sock caching) = []" by (simp add: caching_def sending_def)
  have body: "put_u16 0 @ replicate 17 0 @ put_u32 0 @ put_u32 0 @ put_u32 0 = (replicate 31 0 :: byte list)"
    by (simp add: put_words_0 flip: replicate_add) (simp add: eval_nat_numeral)
  from playlist_renamed [OF own short sent no_channels_ok(1) no_channels_ok(2) [symmetric] _ ok p(1) v, of 7 "[0, 0, 0, 0]" "[]"] p(2)
  obtain t' c' where r: "despotify_rename_playlist confirmed 7 ?pl ''Mine'' [([], [handled 0 [0, 0, 0, 0] [] [[60]]])] no_channels caching =
      Inr ((True, p\<lparr>pl_name := ''Mine''\<rparr>), [], t', c')"
    "wire (sock c') = packet_bytes (sess caching) 0x36 (put_u16 0 @ replicate 17 0 @ put_u32 0 @ put_u32 0 @ put_u32 0 @ [0, 3] @
      bytes_of (''<change><ops><name>'' @ ''Mine'' @ ''</name></ops><time>'' @ dec 7 @ ''</time><user>'' @ [] @
        ''</user></change><version>'' @ ''0000000001'' @ '','' @ ''0000000000'' @ '','' @ ''0000000000'' @ '','' @ ''0'' @ ''</version>''))"
    using zero amp wire by auto
  have "dec 7 = ''7''" by code_simp
  with r p(2) body show ?thesis by (simp flip: append_assoc)
qed

end
