(* ===== verification/Decode.thy ===== *)
theory Decode
  imports Sndqueue
begin

text \<open>
  The decoder's side of \<^verbatim>\<open>src/src/lib/sndqueue.c\<close>: \<open>snd_get_pcm\<close>, which the client calls for the
  next piece of sound, over the libraries libvorbisfile and libmpg123, which are parameters.

  Proved here: decoding is a function of the stream of bytes, whatever the packets that brought
  it; at the end of the last track the Vorbis decoder is freed while it is running; at the end
  of an MPEG track the last piece of sound is handed out a second time.
\<close>

section \<open>The libraries\<close>

text \<open>
  A call into libvorbisfile either returns or calls \<open>read_func\<close>, with the size and the number of
  the elements, and goes on with what that has returned and written.
\<close>

datatype 'a decoding = Return 'a | Read nat nat "nat \<Rightarrow> byte option list \<Rightarrow> 'a decoding"

text \<open>The state behind \<open>vf\<close> is of type \<open>'v\<close>; \<open>ov_read\<close> gives its result and the bytes it has written.\<close>

record 'v vorbisfile =
  ov_open_callbacks :: "(int \<times> 'v) decoding"
  ov_info :: "'v \<Rightarrow> int \<times> int"
  ov_read :: "'v \<Rightarrow> (int \<times> byte list \<times> 'v) decoding"
  ov_time_tell :: "'v \<Rightarrow> rat"

datatype mpg_param = MPG123_RVA | MPG123_ADD_FLAGS

text \<open>The state behind \<open>mf\<close> is of type \<open>'m\<close>; \<open>mpg123_position\<close> gives the seconds played.\<close>

record 'm libmpg123 =
  mpg123_init :: int
  mpg123_new :: "'m option \<times> int"
  mpg123_format_none :: "'m \<Rightarrow> int \<times> 'm"
  mpg123_format :: "'m \<Rightarrow> int \<times> 'm"
  mpg123_param :: "mpg_param \<Rightarrow> 'm \<Rightarrow> int \<times> 'm"
  mpg123_open_feed :: "'m \<Rightarrow> 'm"
  mpg123_feed :: "'m \<Rightarrow> byte option list \<Rightarrow> 'm"
  mpg123_read :: "'m \<Rightarrow> int \<times> byte list \<times> 'm"
  mpg123_getformat :: "'m \<Rightarrow> int \<times> int"
  mpg123_position :: "'m \<Rightarrow> nat \<Rightarrow> rat"

text \<open>The buffer is the array of 4096 bytes, of any content when the client passes it in.\<close>

record ds_pcm_data =
  samplerate :: int
  channels :: int
  pcm_len :: int
  pcm_buf :: "byte list"

section \<open>Vorbis\<close>

text \<open>
  Running a call.  The read function may end the playlist, and then it frees \<open>vf\<close>; the library,
  which is still at work on it, goes on with freed memory.
\<close>

primrec run_vorbis :: "'a decoding \<Rightarrow> env \<Rightarrow> table \<Rightarrow> client \<Rightarrow> 'a outcome" where
  "run_vorbis (Return a) env t c = Inr (a, env, t, c)"
| "run_vorbis (Read sz nmemb k) env t c =
     rbind (snd_ov_read_callback (replicate (sz * nmemb) None) sz nmemb env t c) (\<lambda>((got, d), env, t, c).
       if \<not> d_vf c then Inl Undefined else run_vorbis (k got d) env t c)"

text \<open>The loop over \<open>ov_read\<close>, which ends unless the decoder finds holes (-3, \<open>OV_HOLE\<close>) for ever.\<close>

partial_function (option) vorbis_loop ::
  "'v vorbisfile \<Rightarrow> 'v \<Rightarrow> ds_pcm_data \<Rightarrow> env \<Rightarrow> table \<Rightarrow> client \<Rightarrow> (int \<times> 'v \<times> ds_pcm_data) outcome option" where
  "vorbis_loop L vf pcm env t c =
     (case run_vorbis (ov_read L vf) env t c of
        Inl e \<Rightarrow> Some (Inl e)
      | Inr ((r, d, vf), env, t, c) \<Rightarrow>
          let pcm = pcm\<lparr>pcm_buf := store_at (pcm_buf pcm) 0 d, pcm_len := 0\<rparr>
          in if r = -3 then vorbis_loop L vf pcm env t c
             else if r < 0 then Some (Inr ((r, vf, pcm), env, t, c))
             else if r = 0 then Some (Inr ((0, vf, pcm), env, t, c\<lparr>d_vf := False\<rparr>))
             else Some (
               rbind (snd_fill_fifo env t (notify (DESPOTIFY_TIME_TELL (ov_time_tell L vf)) c)) (\<lambda>(_, env, t, c).
                 Inr ((0, vf, pcm\<lparr>pcm_len := r\<rparr>), env, t, c))))"

definition vorbis_play ::
  "'v vorbisfile \<Rightarrow> 'v \<Rightarrow> ds_pcm_data \<Rightarrow> env \<Rightarrow> table \<Rightarrow> client \<Rightarrow> (int \<times> 'v \<times> ds_pcm_data) outcome option" where
  "vorbis_play L vf pcm env t c =
     (case ov_info L vf of (rate, n) \<Rightarrow> vorbis_loop L vf (pcm\<lparr>samplerate := rate, channels := n\<rparr>) env t c)"

text \<open>\<open>vf\<close> is set before the decoder is opened, and reset when that fails.\<close>

definition snd_do_vorbis ::
  "'v vorbisfile \<Rightarrow> 'v \<Rightarrow> ds_pcm_data \<Rightarrow> env \<Rightarrow> table \<Rightarrow> client \<Rightarrow> (int \<times> 'v \<times> ds_pcm_data) outcome option" where
  "snd_do_vorbis L vf pcm env t c =
     (if d_vf c then vorbis_play L vf pcm env t c
      else (case run_vorbis (ov_open_callbacks L) env t (c\<lparr>d_vf := True\<rparr>) of
        Inl e \<Rightarrow> Some (Inl e)
      | Inr ((ret, vf), env, t, c) \<Rightarrow>
          if ret \<noteq> 0 then Some (Inr ((ret * 10, vf, pcm), env, t, c\<lparr>d_vf := False\<rparr>))
          else vorbis_play L vf pcm env t c))"

section \<open>MPEG\<close>

text \<open>The calls that set the decoder up, up to the first that fails.\<close>

primrec mpeg_configure :: "('m \<Rightarrow> int \<times> 'm) list \<Rightarrow> 'm \<Rightarrow> int \<times> 'm" where
  "mpeg_configure [] mf = (0, mf)"
| "mpeg_configure (f # fs) mf = (case f mf of (err, mf) \<Rightarrow> if err \<noteq> 0 then (err, mf) else mpeg_configure fs mf)"

text \<open>
  Opening: the code to return at once, or the state of the open decoder.  A handle that comes
  with an error from \<open>mpg123_new\<close> is kept.
\<close>

definition mpeg_open :: "'m libmpg123 \<Rightarrow> 'm \<Rightarrow> env \<Rightarrow> table \<Rightarrow> client \<Rightarrow> (int option \<times> 'm) outcome" where
  "mpeg_open L mf env t c =
     (if mpg123_init L \<noteq> 0 then Inr ((Some (mpg123_init L * 10), mf), env, t, c)
      else case mpg123_new L of
        (None, err) \<Rightarrow> Inr ((Some (err * 10), mf), env, t, c)
      | (Some mf, err) \<Rightarrow>
          if err \<noteq> 0 then Inr ((Some (err * 10), mf), env, t, c\<lparr>d_mf := True\<rparr>)
          else case mpeg_configure
                [mpg123_format_none L, mpg123_format L, mpg123_param L MPG123_RVA, mpg123_param L MPG123_ADD_FLAGS] mf of
            (err, mf) \<Rightarrow>
              if err \<noteq> 0 then Inr ((Some (err * 10), mf), env, t, c)
              else rbind (snd_mpeg_feed_more_data (mpg123_feed L) (mpg123_open_feed L mf) env t (c\<lparr>d_mf := True\<rparr>))
                (\<lambda>((got, mf), env, t, c).
                  if got = 0 then Inr ((Some (-10), mf), env, t, c)
                  else if \<not> d_mf c then Inl Undefined
                  else Inr ((None, mf), env, t, c)))"

text \<open>What the queue can still give; it bounds how often the decoder can be fed.\<close>

definition avail :: "client \<Rightarrow> nat" where
  "avail c = (case d_fifo c of None \<Rightarrow> 0 | Some f \<Rightarrow> sum_list (map (\<lambda>b. sb_length b - sb_consumed b + 1) (buffers f)))"

lemma avail_fifo:
  "d_fifo c = Some f \<Longrightarrow> avail c = sum_list (map (\<lambda>b. sb_length b - sb_consumed b + 1) (buffers f))"
  by (simp add: avail_def)

lemma wait_busy_length:
  "wait_busy env t c = Inr (env', t', c') \<Longrightarrow> length env' \<le> length env"
proof (induction env t c rule: wait_busy.induct)
  case (2 e es t c)
  then show ?case by (fastforce simp: rbind_Inr_iff split: if_splits)
qed (simp split: if_splits)

lemma snd_stop_less:
  assumes "snd_stop env t c = Inr (r, env', t', c')"
  shows "length env' \<le> length env \<and> avail c' = 0"
proof -
  define c0 where "c0 = (if d_dlstate c = DL_FILLING \<or> d_dlstate c = DL_FILLING_BUSY then c\<lparr>d_dlabort := True\<rparr> else c)"
  from assms obtain c1 where w: "wait_busy env t c0 = Inr (env', t', c1)"
    and r: "(case d_fifo c1 of None \<Rightarrow> Inl Null_Deref
      | Some f \<Rightarrow> rbind (snd_reset (c1\<lparr>d_dlstate := DL_DRAINING, d_fifo := Some (f\<lparr>buffers := []\<rparr>)\<rparr>)) (\<lambda>c.
          Inr (0, env', t', c\<lparr>d_dlabort := False\<rparr>))) = Inr (r, env', t', c')"
    unfolding snd_stop_def Let_def c0_def [symmetric] by (auto simp: rbind_Inr_iff snd_reset_def split: option.splits)
  from r have "avail c' = 0" by (auto simp: snd_reset_def avail_def frame split: option.splits)
  with wait_busy_length [OF w] show ?thesis by simp
qed

lemma consume_turn_less:
  assumes "consume_turn consumer req tot p f b bs env t c = Inr ((l, tot', p'), env', t', c')"
    and "d_fifo c = Some f" "buffers f = b # bs"
  shows "length env' \<le> length env \<and> tot \<le> tot' \<and> avail c' \<le> avail c \<and> (tot < tot' \<longrightarrow> avail c' < avail c)"
proof -
  have a: "avail c = sb_length b - sb_consumed b + 1 + sum_list (map (\<lambda>b. sb_length b - sb_consumed b + 1) bs)"
    by (simp add: avail_fifo [OF assms(2)] assms(3))
  have n: "avail (notify s x) = avail x" for s x by (simp add: avail_def frame)
  show ?thesis
  proof (cases "sb_cmd b")
    case SND_CMD_START
    with assms(1) show ?thesis by (auto simp: turn_start n a avail_fifo)
  next
    case SND_CMD_DATA
    with assms(1) show ?thesis
      by (auto simp: consume_turn_def Let_def rbind_Inr_iff a avail_fifo split: if_splits)
  next
    case SND_CMD_END
    show ?thesis
    proof (cases "tot = 0 \<and> bs = []")
      case True
      with assms(1) SND_CMD_END obtain r c1
        where "snd_stop env t (c\<lparr>d_fifo := Some (f\<lparr>buffers := []\<rparr>)\<rparr>) = Inr (r, env', t', c1)" "tot' = tot"
          "c' = notify DESPOTIFY_END_OF_PLAYLIST c1"
        by (auto simp: consume_turn_def rbind_Inr_iff)
      with snd_stop_less show ?thesis by (fastforce simp: n)
    next
      case False
      with assms(1) SND_CMD_END a show ?thesis by (auto simp: consume_turn_def avail_fifo split: if_splits)
    qed
  next
    case SND_CMD_CHANNEL_END
    with assms(1) show ?thesis by (simp add: consume_turn_def)
  qed
qed

lemma consume_loop_less:
  "consume_loop consumer req tot p env t c = Inr ((tot', p'), env', t', c') \<Longrightarrow>
   length env' \<le> length env \<and> tot \<le> tot' \<and>
   (length env' = length env \<longrightarrow> avail c' \<le> avail c \<and> (tot < tot' \<longrightarrow> avail c' < avail c))"
proof (induction consumer req tot p env t c rule: consume_loop.induct)
  case (1 consumer req tot p env t c)
  note run = 1(3) [unfolded consume_loop.simps [of consumer req tot p env t c]]
  then obtain f where f: "d_fifo c = Some f" by (cases "d_fifo c") simp_all
  show ?case
  proof (cases "buffers f")
    case Nil
    with run f obtain e es t1 c1 where e: "env = e # es" "e t c = Inr (t1, c1)"
      by (cases env) (auto simp: rbind_Inr_iff)
    show ?thesis
      using run f Nil e 1(1) [OF f Nil e(1) e(2) refl] by (auto split: if_splits)
  next
    case (Cons b bs)
    with run f obtain l tot1 p1 env1 t1 c1
      where s: "consume_turn consumer req tot p f b bs env t c = Inr ((l, tot1, p1), env1, t1, c1)"
      by (auto simp: rbind_Inr_iff)
    show ?thesis
      using run f Cons s consume_turn_less [OF s f Cons] 1(2) [OF f Cons s refl refl refl refl refl]
      by (auto split: if_splits)
  qed
qed

text \<open>
  The inner loop: the error code, the number of bytes decoded, the decoder and the data.  -10 is
  \<open>MPG123_NEED_MORE\<close>, -12 is \<open>MPG123_DONE\<close>.  Bytes fed to a handle that was deleted while the
  feeder waited for them are undefined.
\<close>

function mpeg_read ::
  "'m libmpg123 \<Rightarrow> 'm \<Rightarrow> ds_pcm_data \<Rightarrow> env \<Rightarrow> table \<Rightarrow> client \<Rightarrow> (int \<times> nat \<times> 'm \<times> ds_pcm_data) outcome" where
  "mpeg_read L mf pcm env t c =
     (case mpg123_read L mf of
        (err, d, mf) \<Rightarrow>
          let pcm = pcm\<lparr>pcm_buf := store_at (pcm_buf pcm) 0 d\<rparr>
          in if err \<noteq> -10 then Inr ((err, length d, mf, pcm), env, t, c)
             else (case snd_mpeg_feed_more_data (mpg123_feed L) mf env t c of
               Inl e \<Rightarrow> Inl e
             | Inr ((got, mf), env, t, c) \<Rightarrow>
                 if got = 0 then Inr ((-12, length d, mf, pcm), env, t, c)
                 else if \<not> d_mf c then Inl Undefined
                 else if d = [] then mpeg_read L mf pcm env t c
                 else Inr ((-10, length d, mf, pcm), env, t, c)))"
  by pat_completeness auto

termination
proof (relation "measures [\<lambda>(L, mf, pcm, env, t, c). length env, \<lambda>(L, mf, pcm, env, t, c). avail c]")
  fix L :: "'m libmpg123" and mf env t and c :: client
    and pcm pcm1 :: ds_pcm_data and x err y d mf1 r p q got mf2 u env1 w t1 c1
  assume fed: "snd_mpeg_feed_more_data (mpg123_feed L) mf1 env t c = Inr r" "(p, q) = r" "(got, mf2) = p" "(env1, w) = q"
    "(t1, c1) = w" and pos: "got \<noteq> 0"
  from fed have "snd_mpeg_feed_more_data (mpg123_feed L) mf1 env t c = Inr ((got, mf2), env1, t1, c1)" by auto
  then have "consume_loop (mpeg_consume (mpg123_feed L)) 4096 0 mf1 env t c = Inr ((got, mf2), env1, t1, c1)"
    by (simp add: snd_mpeg_feed_more_data_def snd_consume_data_def)
  from consume_loop_less [OF this] pos
  have "length env1 < length env \<or> length env1 = length env \<and> avail c1 < avail c" by auto
  then show "((L, mf2, pcm1, env1, t1, c1), L, mf, pcm, env, t, c)
      \<in> measures [\<lambda>(L, mf, pcm, env, t, c). length env, \<lambda>(L, mf, pcm, env, t, c). avail c]"
    by auto
qed simp

declare mpeg_read.simps [simp del]

text \<open>-11 is \<open>MPG123_NEW_FORMAT\<close>.  At the end of the track \<open>pcm\<close> is left as it is.\<close>

definition mpeg_play ::
  "'m libmpg123 \<Rightarrow> 'm \<Rightarrow> ds_pcm_data \<Rightarrow> env \<Rightarrow> table \<Rightarrow> client \<Rightarrow> (int \<times> 'm \<times> ds_pcm_data) outcome" where
  "mpeg_play L mf pcm env t c =
     rbind (mpeg_read L mf pcm env t c) (\<lambda>((err, bytes, mf, pcm), env, t, c).
       if err = -12 then Inr ((0, mf, pcm), env, t, c\<lparr>d_mf := False\<rparr>)
       else
         let pcm = (if err = -11
                    then case mpg123_getformat L mf of (rate, n) \<Rightarrow> pcm\<lparr>channels := n, samplerate := rate\<rparr>
                    else pcm);
             pcm = pcm\<lparr>pcm_len := int bytes\<rparr>
         in rbind (snd_fill_fifo env t (notify (DESPOTIFY_TIME_TELL (mpg123_position L mf bytes)) c)) (\<lambda>(_, env, t, c).
              Inr ((0, mf, pcm), env, t, c)))"

definition snd_do_mpeg ::
  "'m libmpg123 \<Rightarrow> 'm \<Rightarrow> ds_pcm_data \<Rightarrow> env \<Rightarrow> table \<Rightarrow> client \<Rightarrow> (int \<times> 'm \<times> ds_pcm_data) outcome" where
  "snd_do_mpeg L mf pcm env t c =
     (if d_mf c then mpeg_play L mf pcm env t c
      else rbind (mpeg_open L mf env t c) (\<lambda>((code, mf), env, t, c).
        case code of Some e \<Rightarrow> Inr ((e, mf, pcm), env, t, c) | None \<Rightarrow> mpeg_play L mf pcm env t c))"

section \<open>The next piece of sound\<close>

text \<open>\<open>shortsleep ()\<close> outside of a loop: the others go on if they have anything to do.\<close>

definition shortsleep :: "env \<Rightarrow> table \<Rightarrow> client \<Rightarrow> unit outcome" where
  "shortsleep env t c =
     (case env of [] \<Rightarrow> Inr ((), env, t, c) | e # es \<Rightarrow> rbind (e t c) (\<lambda>(t, c). Inr ((), es, t, c)))"

text \<open>The call of the decoder that is open, or of the one \<open>vorbis\<close> selects.\<close>

definition decode_with ::
  "'v vorbisfile \<Rightarrow> 'm libmpg123 \<Rightarrow> bool \<Rightarrow> 'v \<Rightarrow> 'm \<Rightarrow> ds_pcm_data \<Rightarrow> env \<Rightarrow> table \<Rightarrow> client
   \<Rightarrow> (int \<times> 'v \<times> 'm \<times> ds_pcm_data) outcome option" where
  "decode_with V M vorbis vf mf pcm env t c =
     (if vorbis
      then map_option (\<lambda>x. rbind x (\<lambda>((r, vf, pcm), s). Inr ((r, vf, mf, pcm), s))) (snd_do_vorbis V vf pcm env t c)
      else Some (rbind (snd_do_mpeg M mf pcm env t c) (\<lambda>((r, mf, pcm), s). Inr ((r, vf, mf, pcm), s))))"

definition snd_get_pcm ::
  "'v vorbisfile \<Rightarrow> 'm libmpg123 \<Rightarrow> 'v \<Rightarrow> 'm \<Rightarrow> ds_pcm_data \<Rightarrow> env \<Rightarrow> table \<Rightarrow> client
   \<Rightarrow> (int \<times> 'v \<times> 'm \<times> ds_pcm_data) outcome option" where
  "snd_get_pcm V M vf mf pcm env t c =
     (if queued c = 0 then
        Some (rbind (shortsleep env t c) (\<lambda>(_, s). Inr ((0, vf, mf, pcm\<lparr>pcm_len := 0\<rparr>), s)))
      else case snd_fill_fifo env t c of
        Inl e \<Rightarrow> Some (Inl e)
      | Inr (_, env, t, c) \<Rightarrow>
          if d_vf c \<or> d_mf c then decode_with V M (d_vf c) vf mf pcm env t c
          else (case snd_stream_is_vorbis env t c of
            Inl e \<Rightarrow> Some (Inl e)
          | Inr (res, env, t, c) \<Rightarrow>
              if res = 1 then decode_with V M True vf mf pcm env t c
              else if res = 0 then decode_with V M False vf mf pcm env t c
              else Some (Inr ((res, vf, mf, pcm), env, t, c))))"

section \<open>Decoding a stream\<close>

text \<open>
  What a call into the library does with a stream: its result, the tracks that began and the rest
  of the stream.  \<open>None\<close> is a call that would have to wait, or one that takes the end of the list.
\<close>

primrec decoded :: "'a decoding \<Rightarrow> item list \<Rightarrow> ('a \<times> snd_data list \<times> item list) option" where
  "decoded (Return a) xs = Some (a, [], xs)"
| "decoded (Read sz nmemb k) xs =
     (if sz * nmemb = 0 then None
      else case pull False (sz * nmemb) xs of
        None \<Rightarrow> None
      | Some (ds, bs, rest, ended) \<Rightarrow>
          if ended \<and> rest = [] then None
          else map_option (\<lambda>(a, ds', rest'). (a, ds @ ds', rest'))
                 (decoded (k (length bs) (store_at (replicate (sz * nmemb) None) 0 bs)) rest))"

text \<open>A client in the middle of a track, with a queue in order.\<close>

definition vorbis_open :: "client \<Rightarrow> bool" where
  "vorbis_open c \<longleftrightarrow> d_vf c \<and> (\<exists>f. d_fifo c = Some f \<and> list_all buf_ok (buffers f))"

lemma pulled_trans:
  "\<lbrakk>pulled c c' ds rest False; pulled c' c'' ds' rest' False\<rbrakk> \<Longrightarrow> pulled c c'' (ds @ ds') rest' False"
  by (auto simp: pulled_def announced_def)

lemma pulled_open: "pulled c c' ds rest False \<Longrightarrow> vorbis_open c \<Longrightarrow> vorbis_open c'"
  by (auto simp: pulled_def vorbis_open_def)

lemma pulled_refl: "vorbis_open c \<Longrightarrow> pulled c c [] (stream c) False"
  by (auto simp: pulled_def announced_def vorbis_open_def)

lemma run_vorbis_decoded:
  "\<lbrakk>vorbis_open c; decoded p (stream c) = Some (a, ds, rest)\<rbrakk> \<Longrightarrow>
   \<exists>c'. run_vorbis p env t c = Inr (a, env, t, c') \<and> pulled c c' ds rest False"
proof (induction p arbitrary: c ds)
  case (Return b)
  with pulled_refl [OF Return.prems(1)] show ?case by simp
next
  case (Read sz nmemb k)
  let ?buf = "replicate (sz * nmemb) None"
  from Read.prems(2) obtain d1 bs r1 ended ds2 where n: "sz * nmemb \<noteq> 0"
    and pl: "pull False (sz * nmemb) (stream c) = Some (d1, bs, r1, ended)" "\<not> (ended \<and> r1 = [])"
    and dec: "decoded (k (length bs) (store_at ?buf 0 bs)) r1 = Some (a, ds2, rest)" "ds = d1 @ ds2"
    by (auto split: if_splits option.splits)
  obtain f where f: "d_fifo c = Some f" "list_all buf_ok (buffers f)" using Read.prems(1) by (auto simp: vorbis_open_def)
  have "pull (0 < (0 :: nat)) (sz * nmemb - 0) (items (buffers f)) = Some (d1, bs, r1, ended)"
    using pl(1) by (simp add: stream_def f(1))
  from consume_loop_pull [OF f _ _ _ this, of ?buf env t] n pl(2)
  obtain c1 where c1: "snd_ov_read_callback ?buf sz nmemb env t c = Inr ((length bs, store_at ?buf 0 bs), env, t, c1)"
    "pulled c c1 d1 r1 False"
    by (auto simp: snd_ov_read_callback_def snd_consume_data_def)
  have o1: "vorbis_open c1" "stream c1 = r1" using c1(2) Read.prems(1) by (auto simp: pulled_def vorbis_open_def)
  from Read.IH [OF _ _ o1(1), unfolded o1(2)] dec(1) obtain c' where
    c': "run_vorbis (k (length bs) (store_at ?buf 0 bs)) env t c1 = Inr (a, env, t, c')" "pulled c1 c' ds2 rest False"
    by blast
  have "d_vf c1" using o1(1) by (simp add: vorbis_open_def)
  with c1 c' show ?case using pulled_trans [OF c1(2) c'(2)] by (simp add: dec(2))
qed

section \<open>Properties\<close>

text \<open>With the last track in the queue nothing more is fetched.\<close>

lemma fill_at_end: "d_dlstate c = DL_END_OF_LIST \<Longrightarrow> \<not> d_dlabort c \<Longrightarrow> snd_fill_fifo env t c = Inr ((), env, t, c)"
  by (simp add: snd_fill_fifo_def)

text \<open>Which decoder a track gets.\<close>

lemma decoder_chosen:
  assumes "d_fifo c = Some f" "buffers f = s # b # bs" "sb_cmd s = SND_CMD_START"
    and "sb_ptr b = Cells (map Some d @ junk)" "4 \<le> length d"
    and "\<not> d_vf c" "\<not> d_mf c" "snd_fill_fifo env t c = Inr ((), env, t, c)"
  shows "snd_get_pcm V M vf mf pcm env t c = decode_with V M (take 4 d = bytes_of ''OggS'') vf mf pcm env t c"
proof -
  have q: "queued c = Suc (Suc (length bs))" by (simp add: queued_def assms(1,2))
  have w: "wait_for_two env t c = Inr (env, t, c)" by (cases env) (simp_all add: q)
  have "take 4 d = [d ! 0, d ! 1, d ! 2, d ! 3]"
    using assms(5) by (auto simp: eval_nat_numeral Suc_le_length_iff)
  moreover have "cell (map Some d @ junk) i = Inr (d ! i)" if "i < 4" for i
    using that assms(5) by (simp add: nth_append)
  ultimately have "snd_stream_is_vorbis env t c = Inr (if take 4 d = bytes_of ''OggS'' then 1 else 0, env, t, c)"
    by (simp add: snd_stream_is_vorbis_def w assms(1-4))
  with assms(6-8) q show ?thesis by (simp add: snd_get_pcm_def)
qed

text \<open>
  C36: Decoding depends on the stream alone.  While a track is decoded, the call for the next piece
  of sound returns what the Vorbis decoder makes of the bytes in the queue, however packets have
  cut them into buffers; the tracks that begin on the way are announced, the time is told, and the
  queue is filled up.
\<close>

theorem decoding_follows_stream:
  assumes "vorbis_open c" "decoded (ov_read V vf) (stream c) = Some ((r, d, vf'), marks, rest)" "0 < r"
    and "ov_info V vf = (rate, n)"
  shows "\<exists>c'. snd_do_vorbis V vf pcm env t c =
      Some (rbind (snd_fill_fifo env t (notify (DESPOTIFY_TIME_TELL (ov_time_tell V vf')) c')) (\<lambda>(_, env, t, c).
        Inr ((0, vf', pcm\<lparr>samplerate := rate, channels := n, pcm_buf := store_at (pcm_buf pcm) 0 d, pcm_len := r\<rparr>), env, t, c))) \<and>
    stream c' = rest \<and> vorbis_open c' \<and> d_signals c' = d_signals c @ announced c marks False"
proof -
  obtain c' where run: "run_vorbis (ov_read V vf) env t c = Inr ((r, d, vf'), env, t, c')" and p: "pulled c c' marks rest False"
    using run_vorbis_decoded [OF assms(1,2)] by blast
  have "d_vf c" using assms(1) by (simp add: vorbis_open_def)
  moreover have "r \<noteq> -3" "\<not> r < 0" "r \<noteq> 0" using assms(3) by auto
  ultimately have "snd_do_vorbis V vf pcm env t c =
      Some (rbind (snd_fill_fifo env t (notify (DESPOTIFY_TIME_TELL (ov_time_tell V vf')) c')) (\<lambda>(_, env, t, c).
        Inr ((0, vf', pcm\<lparr>samplerate := rate, channels := n, pcm_buf := store_at (pcm_buf pcm) 0 d, pcm_len := r\<rparr>), env, t, c)))"
    by (simp add: snd_do_vorbis_def vorbis_play_def assms(4) vorbis_loop.simps [of V vf] run Let_def)
  with p pulled_open [OF p assms(1)] show ?thesis by (intro exI [of _ c']) (simp add: pulled_def)
qed

text \<open>A decoder that asks for four bytes and turns them into silence.\<close>

definition silent_vorbis :: "unit vorbisfile" where
  "silent_vorbis = \<lparr>ov_open_callbacks = Return (0, ()), ov_info = (\<lambda>_. (44100, 2)),
     ov_read = (\<lambda>_. Read 1 4 (\<lambda>got _. Return (int got, replicate got 0, ()))), ov_time_tell = (\<lambda>_. 1)\<rparr>"

definition silent_mpg :: "unit libmpg123" where
  "silent_mpg = \<lparr>mpg123_init = 0, mpg123_new = (Some (), 0), mpg123_format_none = (\<lambda>m. (0, m)),
     mpg123_format = (\<lambda>m. (0, m)), mpg123_param = (\<lambda>_ m. (0, m)), mpg123_open_feed = (\<lambda>m. m),
     mpg123_feed = (\<lambda>m _. m), mpg123_read = (\<lambda>m. (-10, [7, 7], m)), mpg123_getformat = (\<lambda>_. (44100, 2)),
     mpg123_position = (\<lambda>_ _. 0)\<rparr>"

definition old_pcm :: ds_pcm_data where
  "old_pcm = \<lparr>samplerate = 44100, channels = 2, pcm_len = 4096, pcm_buf = replicate 4096 1\<rparr>"

theorem decoding_follows_stream_witness:
  "\<exists>c'. snd_do_vorbis silent_vorbis () old_pcm [] no_channels (playing\<lparr>d_vf := True\<rparr>) =
     Some (rbind (snd_fill_fifo [] no_channels (notify (DESPOTIFY_TIME_TELL 1) c')) (\<lambda>(_, env, t, c).
       Inr ((0, (), old_pcm\<lparr>pcm_buf := [0, 0, 0] @ replicate 4093 1, pcm_len := 3\<rparr>), env, t, c))) \<and>
     stream c' = [Finish] \<and> d_signals c' = [DESPOTIFY_NEW_TRACK (Track_Copy zero_track)]"
proof -
  let ?c = "playing\<lparr>d_vf := True\<rparr>"
  have o: "vorbis_open ?c" by (simp add: vorbis_open_def playing_def buf_ok_def three_bytes_def)
  have st: "stream ?c = [Mark (Track_Copy zero_track), Audio (Some 1), Audio (Some 1), Audio (Some 1), Finish]"
    by (simp add: stream_def playing_def buf_items_def three_bytes_def numeral_3_eq_3 eval_nat_numeral)
  have d: "decoded (ov_read silent_vorbis ()) (stream ?c) = Some ((3, [0, 0, 0], ()), [Track_Copy zero_track], [Finish])"
    by (simp add: st silent_vorbis_def eval_nat_numeral)
  have i: "ov_info silent_vorbis () = (44100, 2)" "ov_time_tell silent_vorbis () = 1" by (simp_all add: silent_vorbis_def)
  have pcm: "old_pcm\<lparr>samplerate := 44100, channels := 2, pcm_buf := store_at (pcm_buf old_pcm) 0 [0, 0, 0], pcm_len := 3\<rparr> =
      old_pcm\<lparr>pcm_buf := [0, 0, 0] @ replicate 4093 1, pcm_len := 3\<rparr>"
    by (simp add: old_pcm_def store_at_def)
  have s: "announced ?c [Track_Copy zero_track] False = [DESPOTIFY_NEW_TRACK (Track_Copy zero_track)]" "d_signals ?c = []"
    by (simp_all add: announced_def playing_def fresh_client_def snd_init_def client_of_def client.defs conn_out_def conn.defs)
  from decoding_follows_stream [OF o d _ i(1), of old_pcm "[]" no_channels, unfolded pcm s i(2)]
  show ?thesis by auto
qed

text \<open>
  C37: The end of the last track.  When nothing but the end of the list is left in the queue, the
  call for the next piece of sound makes the Vorbis decoder read, the read function stops the
  player, and the player frees the decoder that is running: whatever the decoder is, it goes on
  with freed memory.
\<close>

theorem playlist_end_frees_decoder:
  assumes "d_vf c" "d_fifo c = Some f" "buffers f = [e]" "sb_cmd e = SND_CMD_END"
    and "d_dlstate c = DL_END_OF_LIST" "\<not> d_dlabort c" "ov_read V vf = Read sz nmemb k" "0 < sz * nmemb"
  shows "snd_get_pcm V M vf mf pcm env t c = Some (Inl Undefined)"
proof -
  let ?c = "c\<lparr>d_fifo := Some (f\<lparr>buffers := []\<rparr>)\<rparr>"
  obtain c1 where "snd_stop env t ?c = Inr (0, env, t, c1)" "\<not> d_vf c1"
    using snd_stop_idle [of ?c "f\<lparr>buffers := []\<rparr>" env t] assms(5) by auto
  then have "snd_ov_read_callback p sz nmemb env t c = Inr ((0, p), env, t, notify DESPOTIFY_END_OF_PLAYLIST c1)" for p
    by (simp add: snd_ov_read_callback_def snd_consume_data_def loop_step [OF assms(2,3)] consume_turn_def assms(4))
  then have "run_vorbis (ov_read V vf) env t c = Inl Undefined"
    using \<open>\<not> d_vf c1\<close> by (simp add: assms(7) frame)
  then have "snd_do_vorbis V vf pcm env t c = Some (Inl Undefined)"
    using assms(1) by (simp add: snd_do_vorbis_def vorbis_play_def vorbis_loop.simps [of V vf] split: prod.split)
  moreover have "queued c = 1" using assms(2,3) by (simp add: queued_def)
  ultimately show ?thesis
    using assms(1) fill_at_end [OF assms(5,6)] by (simp add: snd_get_pcm_def decode_with_def)
qed

definition at_the_end :: client where
  "at_the_end = playing\<lparr>d_dlstate := DL_END_OF_LIST, d_fifo := Some \<lparr>totbytes = 0, maxbytes = 100, watermark = 10,
     lastcmd = SND_CMD_END, buffers = [\<lparr>sb_length = 0, sb_cmd = SND_CMD_END, sb_consumed = 0, sb_ptr = Null\<rparr>]\<rparr>\<rparr>"

lemma at_the_end_state [simp]:
  "\<not> d_dlabort at_the_end" "d_dlstate at_the_end = DL_END_OF_LIST" "\<not> d_vf at_the_end" "\<not> d_mf at_the_end"
  by (simp_all add: at_the_end_def playing_def fresh_client_def snd_init_def client_of_def client.defs conn_out_def conn.defs)

theorem playlist_end_frees_decoder_witness:
  "snd_get_pcm silent_vorbis silent_mpg () () old_pcm [] no_channels (at_the_end\<lparr>d_vf := True\<rparr>) = Some (Inl Undefined)"
  by (rule playlist_end_frees_decoder [where f = "\<lparr>totbytes = 0, maxbytes = 100, watermark = 10, lastcmd = SND_CMD_END,
      buffers = [\<lparr>sb_length = 0, sb_cmd = SND_CMD_END, sb_consumed = 0, sb_ptr = Null\<rparr>]\<rparr>"
      and e = "\<lparr>sb_length = 0, sb_cmd = SND_CMD_END, sb_consumed = 0, sb_ptr = Null\<rparr>" and sz = 1 and nmemb = 4])
    (simp_all add: silent_vorbis_def, simp_all add: at_the_end_def)

text \<open>
  C38: The end of an MPEG track.  When the decoder needs more and the queue has the end of the track,
  \<open>snd_get_pcm\<close> reports success and leaves the length of the data as the client passed it in: what
  was decoded last is handed out again, and bytes decoded by the final call are not counted.
\<close>

theorem mpeg_end_repeats_sound:
  assumes "d_mf c" "\<not> d_vf c" "d_fifo c = Some f" "buffers f = e # bs" "sb_cmd e = SND_CMD_END"
    and "d_dlstate c = DL_END_OF_LIST" "\<not> d_dlabort c" "mpg123_read M mf = (-10, d, mf')"
  shows "\<exists>c'. snd_get_pcm V M vf mf pcm env t c =
      Some (Inr ((0, vf, mf', pcm\<lparr>pcm_buf := store_at (pcm_buf pcm) 0 d\<rparr>), env, t, c')) \<and>
    \<not> d_mf c' \<and> stream c' = items bs"
proof -
  let ?c = "c\<lparr>d_fifo := Some (f\<lparr>buffers := bs\<rparr>)\<rparr>"
  have "\<exists>c1. snd_mpeg_feed_more_data (mpg123_feed M) mf' env t c = Inr ((0, mf'), env, t, c1) \<and> stream c1 = items bs"
  proof (cases "bs = []")
    case True
    obtain c1 where "snd_stop env t ?c = Inr (0, env, t, c1)" "stream c1 = []"
      using snd_stop_idle [of ?c "f\<lparr>buffers := bs\<rparr>" env t] assms(6) by auto
    with True show ?thesis
      by (simp add: snd_mpeg_feed_more_data_def snd_consume_data_def loop_step [OF assms(3,4)] consume_turn_def assms(5)
          stream_def frame)
  next
    case False
    then show ?thesis
      by (simp add: snd_mpeg_feed_more_data_def snd_consume_data_def loop_step [OF assms(3,4)] consume_turn_def assms(5)
          stream_def)
  qed
  then obtain c1 where c1: "snd_mpeg_feed_more_data (mpg123_feed M) mf' env t c = Inr ((0, mf'), env, t, c1)"
    "stream c1 = items bs" by blast
  then have "mpeg_read M mf pcm env t c = Inr ((-12, length d, mf', pcm\<lparr>pcm_buf := store_at (pcm_buf pcm) 0 d\<rparr>), env, t, c1)"
    by (simp add: mpeg_read.simps [of M mf] assms(8) Let_def)
  then have "snd_do_mpeg M mf pcm env t c = Inr ((0, mf', pcm\<lparr>pcm_buf := store_at (pcm_buf pcm) 0 d\<rparr>), env, t, c1\<lparr>d_mf := False\<rparr>)"
    using assms(1) by (simp add: snd_do_mpeg_def mpeg_play_def)
  moreover have "queued c = Suc (length bs)" using assms(3,4) by (simp add: queued_def)
  moreover have "stream (c1\<lparr>d_mf := False\<rparr>) = items bs" using c1(2) by (simp add: stream_def)
  ultimately show ?thesis
    using assms(1,2) fill_at_end [OF assms(6,7)] by (simp add: snd_get_pcm_def decode_with_def)
qed

theorem mpeg_end_repeats_sound_witness:
  "\<exists>c'. snd_get_pcm silent_vorbis silent_mpg () () old_pcm [] no_channels (at_the_end\<lparr>d_mf := True\<rparr>) =
     Some (Inr ((0, (), (), old_pcm\<lparr>pcm_buf := [7, 7] @ replicate 4094 1\<rparr>), [], no_channels, c')) \<and> \<not> d_mf c'"
proof -
  let ?e = "\<lparr>sb_length = 0, sb_cmd = SND_CMD_END, sb_consumed = 0, sb_ptr = Null\<rparr>"
  let ?f = "\<lparr>totbytes = 0, maxbytes = 100, watermark = 10, lastcmd = SND_CMD_END, buffers = [?e]\<rparr>"
  have f: "d_fifo (at_the_end\<lparr>d_mf := True\<rparr>) = Some ?f" "buffers ?f = [?e]" "sb_cmd ?e = SND_CMD_END"
    by (simp_all add: at_the_end_def)
  have m: "mpg123_read silent_mpg () = (-10, [7, 7], ())" by (simp add: silent_mpg_def)
  have "store_at (pcm_buf old_pcm) 0 [7, 7] = [7, 7] @ replicate 4094 1" by (simp add: old_pcm_def store_at_def)
  with mpeg_end_repeats_sound [OF _ _ f _ _ m, of silent_vorbis "()" old_pcm "[]" no_channels] show ?thesis by auto
qed

end
