(* ===== verification/Structs.thy ===== *)
theory Structs
  imports Xml
begin

text \<open>
  The character arrays of \<^verbatim>\<open>src/src/lib/despotify.h\<close>, and what the parsers of
  \<^verbatim>\<open>src/src/lib/xml.c\<close> put into them.  In the model a string can have any length; proved here is
  that every string a parser stores fits the array of its field with its terminator, whatever
  the document says.
\<close>

definition fits :: "nat \<Rightarrow> string \<Rightarrow> bool" where
  "fits n s \<longleftrightarrow> length s < n"

definition artist_fits :: "ds_artist \<Rightarrow> bool" where
  "artist_fits a \<longleftrightarrow> fits 256 (ar_name a) \<and> fits 33 (ar_id a) \<and> fits 41 (ar_portrait_id a)"

definition track_fits :: "ds_track \<Rightarrow> bool" where
  "track_fits t \<longleftrightarrow> fits 33 (track_id t) \<and> fits 41 (file_id t) \<and> fits 33 (album_id t) \<and> fits 41 (cover_id t) \<and>
     fits 256 (title t) \<and> fits 256 (album t) \<and> (\<forall>a \<in> set (artist t). artist_fits a)"

definition playlist_fits :: "ds_playlist \<Rightarrow> bool" where
  "playlist_fits p \<longleftrightarrow> fits 256 (pl_name p) \<and> fits 256 (author p) \<and> fits 35 (playlist_id p) \<and>
     (\<forall>t \<in> set (tracks p). track_fits t)"

definition album_fits :: "ds_album \<Rightarrow> bool" where
  "album_fits a \<longleftrightarrow> fits 256 (al_name a) \<and> fits 33 (al_id a) \<and> fits 256 (al_artist a) \<and> fits 33 (al_artist_id a) \<and>
     fits 41 (al_cover_id a)"

definition album_browse_fits :: "ds_album_browse \<Rightarrow> bool" where
  "album_browse_fits a \<longleftrightarrow> fits 256 (ab_name a) \<and> fits 33 (ab_id a) \<and> fits 41 (ab_cover_id a) \<and>
     (\<forall>t \<in> set (ab_tracks a). track_fits t)"

definition artist_browse_fits :: "ds_artist_browse \<Rightarrow> bool" where
  "artist_browse_fits a \<longleftrightarrow> fits 256 (br_name a) \<and> fits 33 (br_id a) \<and> fits 41 (br_portrait_id a) \<and>
     fits 256 (br_genres a) \<and> fits 256 (br_years_active a) \<and> (\<forall>b \<in> set (br_albums a). album_browse_fits b)"

definition search_fits :: "ds_search_result \<Rightarrow> bool" where
  "search_fits s \<longleftrightarrow> fits 256 (query s) \<and> fits 256 (suggestion s) \<and> (\<forall>a \<in> set (sr_artists s). artist_fits a) \<and>
     (\<forall>a \<in> set (sr_albums s). album_fits a)"

named_theorems fit

lemma fits_nil [fit]: "0 < n \<Longrightarrow> fits n []"
  by (simp add: fits_def)

lemma fits_copy [fit]: "0 < n \<Longrightarrow> fits n (DSFYstrncpy s n)"
  using DSFYstrncpy_fits [of s n] by (simp add: fits_def)

lemma fits_xml [fit]: "\<lbrakk>fits n dest; 0 < n\<rbrakk> \<Longrightarrow> fits n (xmlstrncpy dest n x path)"
  by (auto simp: fits_def xmlstrncpy_def split: list.splits)

lemma zero_fits [fit]:
  "artist_fits zero_artist" "track_fits zero_track" "playlist_fits zero_playlist" "album_fits zero_album"
  "album_browse_fits zero_album_browse"
  by (simp_all add: artist_fits_def track_fits_def playlist_fits_def album_fits_def album_browse_fits_def fits_def
      zero_artist_def zero_track_def zero_playlist_def zero_album_def zero_album_browse_def)

section \<open>Tracks\<close>

lemma zip_artists_fit: "a \<in> set (zip_artists xas xids) \<Longrightarrow> artist_fits a"
  by (induction xas xids rule: zip_artists.induct)
    (auto simp: artist_fits_def zero_artist_def fit split: list.splits)

lemma track_artists_fit: "a \<in> set (parse_track_artists x) \<Longrightarrow> artist_fits a"
  using zip_artists_fit [of a "ezxml_child x ''artist''" "ezxml_child x ''artist-id''"]
  by (auto simp: parse_track_artists_def zero_fits split: list.splits)

lemma set_file_id_fits: "track_fits t \<Longrightarrow> track_fits (set_file_id f t)"
  by (auto simp: set_file_id_def track_fits_def fit split: option.splits)

lemma parse_files_fits: "\<lbrakk>parse_files hb fs t = Inr t'; track_fits t\<rbrakk> \<Longrightarrow> track_fits t'"
proof (induction hb fs t rule: parse_files.induct)
  case (2 hb f fs t)
  have keep: "track_fits (t\<lparr>file_bitrate := b\<rparr>)" for b using "2.prems"(2) by (simp add: track_fits_def)
  show ?case using "2.prems" "2.IH" set_file_id_fits [OF keep] set_file_id_fits [OF "2.prems"(2)]
    by (auto split: option.splits ogg_match.splits if_splits)
qed simp

lemma track_fits_other [simp]:
  "track_fits (t\<lparr>allowed := a, forbidden := f\<rparr>) = track_fits t"
  "track_fits (t\<lparr>year := y, tr_length := l, tracknumber := n, popularity := p, has_meta_data := m\<rparr>) = track_fits t"
  by (simp_all add: track_fits_def)

lemma parse_restrictions_fits: "track_fits t \<Longrightarrow> track_fits (parse_restrictions rs t)"
proof (induction rs arbitrary: t)
  case (Cons r rs)
  show ?case unfolding parse_restrictions.simps
    by (rule Cons.IH) (simp add: Cons.prems split: option.split)
qed simp

lemma fill_track_fits:
  assumes "fill_track hb x t = Inr t'" "track_fits t"
  shows "track_fits t'"
proof -
  let ?t = "t\<lparr>title := xmlstrncpy (title t) 256 (Some x) [''title''], album := xmlstrncpy (album t) 256 (Some x) [''album''],
      track_id := xmlstrncpy (track_id t) 33 (Some x) [''id''], cover_id := xmlstrncpy (cover_id t) 41 (Some x) [''cover''],
      album_id := xmlstrncpy (album_id t) 33 (Some x) [''album-id''], artist := parse_track_artists x\<rparr>"
  have "track_fits ?t" using assms(2) by (auto simp: track_fits_def fit track_artists_fit)
  moreover obtain u y l n p where u: "parse_files hb (ezxml_get (Some x) [''files'', ''file'']) ?t = Inr u"
    "t' = (parse_restrictions (ezxml_get (Some x) [''restrictions'', ''restriction'']) u)
       \<lparr>year := y, tr_length := l, tracknumber := n, popularity := p, has_meta_data := True\<rparr>"
    using assms(1) unfolding fill_track_def Let_def rbind_Inr_iff by blast
  ultimately show ?thesis by (simp add: parse_restrictions_fits parse_files_fits)
qed

lemma update_fits: "\<lbrakk>\<forall>t \<in> set ts. track_fits t; track_fits u\<rbrakk> \<Longrightarrow> \<forall>t \<in> set (ts[k := u]). track_fits t"
  by (auto dest!: set_update_subset_insert [THEN subsetD])

lemma parse_ordered_fits:
  "\<lbrakk>parse_ordered hb xs ts n = Inr (m, ts'); \<forall>t \<in> set ts. track_fits t\<rbrakk> \<Longrightarrow> \<forall>t \<in> set ts'. track_fits t"
proof (induction hb xs ts n arbitrary: m ts' rule: parse_ordered.induct)
  case (2 hb x xs ts n)
  show ?case
  proof (cases "ezxml_child x ''id''")
    case Nil
    with "2.prems" have "parse_ordered hb xs ts n = Inr (m, ts')" by (auto split: if_splits)
    with "2.IH"(1) [OF Nil] "2.prems" Nil show ?thesis by (auto split: if_splits)
  next
    case (Cons y ys)
    let ?tid = "take 32 (xtxt y)"
    show ?thesis
    proof (cases "find_track ?tid ts")
      case (Some k)
      with "2.prems" Cons obtain t where f: "fill_track hb x (ts ! k) = Inr t"
        and rest: "parse_ordered hb xs (ts[k := t]) (n + 1) = Inr (m, ts')"
        by (auto simp: Let_def rbind_Inr_iff)
      have "track_fits t"
        using fill_track_fits [OF f] find_track_Some [OF Some] "2.prems"(2) by simp
      from "2.IH"(4) [OF Cons refl Some f rest] update_fits [OF "2.prems"(2) this] show ?thesis by simp
    next
      case None
      show ?thesis
      proof (cases "find_redirect (ezxml_child x ''redirect'') ts")
        case none2: None
        with "2.prems" Cons None have "parse_ordered hb xs ts n = Inr (m, ts')" by (simp add: Let_def)
        with "2.IH"(2) [OF Cons refl None none2] "2.prems"(2) show ?thesis by simp
      next
        case (Some k)
        with "2.prems" Cons None obtain t where f: "fill_track hb x ((ts ! k)\<lparr>track_id := ?tid\<rparr>) = Inr t"
          and rest: "parse_ordered hb xs (ts[k := t]) (n + 1) = Inr (m, ts')"
          by (auto simp: Let_def rbind_Inr_iff)
        have "track_fits (ts ! k)" using find_redirect_Some [OF Some] "2.prems"(2) by simp
        then have "track_fits ((ts ! k)\<lparr>track_id := ?tid\<rparr>)" by (simp add: track_fits_def fits_def)
        from "2.IH"(3) [OF Cons refl None Some f rest] update_fits [OF "2.prems"(2) fill_track_fits [OF f this]]
        show ?thesis by simp
      qed
    qed
  qed
qed simp

lemma parse_unordered_fits:
  "\<lbrakk>parse_unordered hb xs ts k n = Inr (m, ts'); \<forall>t \<in> set ts. track_fits t; k \<le> length ts\<rbrakk> \<Longrightarrow> \<forall>t \<in> set ts'. track_fits t"
proof (induction hb xs ts k n arbitrary: m ts' rule: parse_unordered.induct)
  case (2 hb x xs ts k n)
  let ?ts = "if k < length ts then ts else ts @ [zero_track]"
  from "2.prems"(1) obtain t where f: "fill_track hb x (?ts ! k) = Inr t"
    and rest: "parse_unordered hb xs (?ts[k := t]) (k + 1) (n + 1) = Inr (m, ts')"
    by (auto simp: Let_def rbind_Inr_iff)
  have all: "\<forall>t \<in> set ?ts. track_fits t" using "2.prems"(2) by (auto simp: fit)
  have k: "k < length ?ts" using "2.prems"(3) by auto
  then have "track_fits t" using fill_track_fits [OF f] all nth_mem by blast
  moreover have "k + 1 \<le> length (?ts[k := t])" using k by simp
  ultimately show ?case using "2.IH" [OF refl f rest] update_fits [OF all] by blast
qed simp

lemma parse_tracks_fits:
  "\<lbrakk>parse_tracks x ts ordered hb = Inr (m, ts'); \<forall>t \<in> set ts. track_fits t\<rbrakk> \<Longrightarrow> \<forall>t \<in> set ts'. track_fits t"
  by (auto simp: parse_tracks_def Let_def dest: parse_ordered_fits parse_unordered_fits split: if_splits)

section \<open>Albums and artists\<close>

lemma parse_browse_album_fits:
  assumes "parse_browse_album x a hb = Inr b" "album_browse_fits a"
  shows "album_browse_fits b"
proof -
  from assms(1) obtain n ts where ts: "parse_tracks (first (ezxml_get (Some x) [''discs'', ''disc''])) [zero_track] False hb = Inr (n, ts)"
    and b: "b = a\<lparr>ab_name := ab_name b, ab_id := ab_id b, ab_cover_id := ab_cover_id b, ab_year := ab_year b,
       ab_popularity := ab_popularity b, ab_num_tracks := n,
       ab_tracks := map (\<lambda>t. t\<lparr>album := DSFYstrncpy (ab_name b) 256, album_id := DSFYstrncpy (ab_id b) 33,
          cover_id := DSFYstrncpy (ab_cover_id b) 41, year := ab_year b\<rparr>) ts\<rparr>"
    and n: "ab_name b = xmlstrncpy (ab_name a) 256 (Some x) [''name'']" "ab_id b = xmlstrncpy (ab_id a) 33 (Some x) [''id'']"
      "ab_cover_id b = xmlstrncpy (ab_cover_id a) 41 (Some x) [''cover'']"
    by (auto simp: parse_browse_album_def Let_def rbind_Inr_iff)
  have "\<forall>t \<in> set ts. track_fits t" by (rule parse_tracks_fits [OF ts]) (simp add: fit)
  then have "\<forall>t \<in> set (ab_tracks b). track_fits t" by (subst b) (auto simp: track_fits_def fit)
  with n assms(2) show ?thesis by (simp add: album_browse_fits_def fit)
qed

lemma collect_albums_fit: "parse_browse_albums hb xs = Inr as \<Longrightarrow> \<forall>a \<in> set as. album_browse_fits a"
  unfolding parse_browse_albums_def
proof (induction xs arbitrary: as)
  case (Cons x xs)
  then obtain b bs where "parse_browse_album x zero_album_browse hb = Inr b" "as = b # bs"
    "collect (\<lambda>x. parse_browse_album x zero_album_browse hb) xs = Inr bs" by (auto simp: rbind_Inr_iff)
  then show ?case using Cons.IH parse_browse_album_fits zero_fits(5) by simp
qed simp

lemma parse_album_fits: "album_fits a \<Longrightarrow> album_fits (parse_album x a)"
  by (simp add: album_fits_def parse_album_def Let_def fit)

lemma parse_artist_fits: "artist_fits a \<Longrightarrow> artist_fits (parse_artist x a)"
  by (simp add: artist_fits_def parse_artist_def Let_def fit)

section \<open>Playlists and searches\<close>

lemma parse_version_fits: "\<lbrakk>xml_parse_version p x path = Inr q; playlist_fits p\<rbrakk> \<Longrightarrow> playlist_fits q"
  by (auto simp: xml_parse_version_def playlist_fits_def split: list.splits)

lemma list_of_tracks_fits: "t \<in> set (list_of_tracks is) \<Longrightarrow> track_fits t"
  by (auto simp: list_of_tracks_def track_fits_def fit zero_track_def)

lemma parse_playlist_fits:
  assumes "xml_parse_playlist parse p xml b = Inr ps" "playlist_fits p"
  shows "\<forall>q \<in> set ps. playlist_fits q"
proof -
  let ?doc = "parse xml"
  obtain x xs where x: "ezxml_get ?doc [''next-change'', ''change'', ''ops'', ''add'', ''items''] = x # xs"
    using assms(1) by (auto simp: xml_parse_playlist_def Let_def split: list.splits)
  let ?is = "strtok (dropWhile isspace (xtxt x))"
  let ?pls = "if b then list_of_playlists p ?is else [p\<lparr>tracks := list_of_tracks ?is, num_tracks := int (length ?is)\<rparr>]"
  let ?p = "(hd ?pls)\<lparr>author := xmlstrncpy (author (hd ?pls)) 256 ?doc [''next-change'', ''change'', ''user''],
      pl_name := xmlstrncpy (pl_name (hd ?pls)) 256 ?doc [''next-change'', ''change'', ''ops'', ''name'']\<rparr>"
  have pls: "?pls \<noteq> []" "\<forall>q \<in> set ?pls. playlist_fits q"
    using assms(2) list_of_tracks_fits
    by (auto simp: list_of_playlists_def playlist_fits_def fit zero_playlist_def split: list.split)
  then have "playlist_fits (hd ?pls)" using hd_in_set [OF pls(1)] by blast
  then have p: "playlist_fits ?p" by (simp add: playlist_fits_def fits_xml)
  obtain q where q: "xml_parse_version ?p ?doc [''next-change'', ''version''] = Inr q" "ps = q # tl ?pls"
    using assms(1) by (auto simp: xml_parse_playlist_def x Let_def rbind_Inr_iff)
  have "\<forall>r \<in> set (tl ?pls). playlist_fits r" using pls(2) list.set_sel(2) [OF pls(1)] by blast
  with parse_version_fits [OF q(1) p] show ?thesis unfolding q(2) by simp
qed

lemma parse_search_fits:
  assumes "xml_parse_search parse s ts xml hb = Inr (n, r, ts')" "fits 256 (query s)" "fits 256 (suggestion s)" "\<forall>t \<in> set ts. track_fits t"
  shows "search_fits r \<and> (\<forall>t \<in> set ts'. track_fits t)"
proof -
  have a: "\<forall>a \<in> set (at_least zero_artist (map (\<lambda>x. parse_artist x zero_artist) xs)). artist_fits a" for xs
    by (auto simp: at_least_def zero_fits parse_artist_fits)
  have b: "\<forall>a \<in> set (at_least zero_album (map (\<lambda>x. parse_album x zero_album) xs)). album_fits a" for xs
    by (auto simp: at_least_def zero_fits parse_album_fits)
  have "parse_tracks (first (ezxml_get (parse xml) [''tracks''])) ts False hb = Inr (n, ts')"
    using assms(1) by (auto simp: xml_parse_search_def Let_def rbind_Inr_iff)
  from parse_tracks_fits [OF this assms(4)] have "\<forall>t \<in> set ts'. track_fits t" .
  moreover have "search_fits r"
    using assms(1-3) a b by (auto simp: xml_parse_search_def Let_def rbind_Inr_iff search_fits_def fits_xml)
  ultimately show ?thesis by simp
qed

lemma parse_browse_artist_fits:
  assumes "xml_parse_browse_artist parse a xml hb = Inr b" "artist_browse_fits a"
  shows "artist_browse_fits b"
proof -
  obtain as where as: "parse_browse_albums hb (ezxml_get (first (ezxml_get (parse xml) [''albums''])) [''album'']) = Inr as"
    "br_albums b = at_least zero_album_browse as"
    using assms(1) by (auto simp: xml_parse_browse_artist_def Let_def rbind_Inr_iff)
  have "\<forall>x \<in> set (br_albums b). album_browse_fits x"
    using collect_albums_fit [OF as(1)] zero_fits(5) by (auto simp: as(2) at_least_def)
  with assms show ?thesis
    by (auto simp: xml_parse_browse_artist_def Let_def rbind_Inr_iff artist_browse_fits_def fits_xml)
qed

section \<open>The property\<close>

text \<open>
  C34: Every string fits its array.  From structs that are well-formed, as those \<open>calloc\<close> gives
  are, each parser makes well-formed ones, whatever the text and the parser of the XML make
  of it: names below 256 characters, ids below 33, file and cover ids below 41, playlist
  ids below 35.
\<close>

theorem parsed_structs_fit:
  "(\<forall>ts ordered n ts'. (\<forall>t \<in> set ts. track_fits t) \<and> xml_parse_tracklist parse ts xml ordered hb = Inr (n, ts') \<longrightarrow>
      (\<forall>t \<in> set ts'. track_fits t)) \<and>
   (\<forall>p lol ps. playlist_fits p \<and> xml_parse_playlist parse p xml lol = Inr ps \<longrightarrow> (\<forall>q \<in> set ps. playlist_fits q)) \<and>
   (\<forall>p ok q. playlist_fits p \<and> xml_parse_confirm parse p xml = Inr (ok, q) \<longrightarrow> playlist_fits q) \<and>
   (\<forall>a a'. album_browse_fits a \<and> xml_parse_browse_album parse a xml hb = Inr a' \<longrightarrow> album_browse_fits a') \<and>
   (\<forall>b b'. artist_browse_fits b \<and> xml_parse_browse_artist parse b xml hb = Inr b' \<longrightarrow> artist_browse_fits b') \<and>
   (\<forall>s ts n r ts'. fits 256 (query s) \<and> fits 256 (suggestion s) \<and> (\<forall>t \<in> set ts. track_fits t) \<and>
      xml_parse_search parse s ts xml hb = Inr (n, r, ts') \<longrightarrow> search_fits r \<and> (\<forall>t \<in> set ts'. track_fits t))"
proof (intro conjI allI impI; elim conjE)
  show "\<forall>t \<in> set ts'. track_fits t"
    if "\<forall>t \<in> set ts. track_fits t" "xml_parse_tracklist parse ts xml ordered hb = Inr (n, ts')" for ts ordered n ts'
    using that(2) unfolding xml_parse_tracklist_def by (rule parse_tracks_fits) (rule that(1))
  show "\<forall>q \<in> set ps. playlist_fits q" if "playlist_fits p" "xml_parse_playlist parse p xml lol = Inr ps" for p lol ps
    using that(2,1) by (rule parse_playlist_fits)
  show "playlist_fits q" if "playlist_fits p" "xml_parse_confirm parse p xml = Inr (ok, q)" for p ok q
    using that by (auto simp: xml_parse_confirm_def rbind_Inr_iff dest: parse_version_fits split: option.splits if_splits)
  show "album_browse_fits a'" if "album_browse_fits a" "xml_parse_browse_album parse a xml hb = Inr a'" for a a'
    using that by (auto simp: xml_parse_browse_album_def dest: parse_browse_album_fits split: option.splits)
  show "artist_browse_fits b'" if "artist_browse_fits b" "xml_parse_browse_artist parse b xml hb = Inr b'" for b b'
    using that(2,1) by (rule parse_browse_artist_fits)
  show "search_fits r" "\<forall>t \<in> set ts'. track_fits t"
    if "fits 256 (query s)" "fits 256 (suggestion s)" "\<forall>t \<in> set ts. track_fits t"
      "xml_parse_search parse s ts xml hb = Inr (n, r, ts')" for s ts n r ts'
    using parse_search_fits [OF that(4,1-3)] by simp_all
qed

theorem parsed_structs_fit_witness:
  "\<exists>ts. xml_parse_tracklist two_tracks [zero_track] [] False False = Inr (2, ts) \<and> (\<forall>t \<in> set ts. track_fits t)"
proof -
  obtain ts where ts: "xml_parse_tracklist two_tracks [zero_track] [] False False = Inr (2, ts)"
    by (simp add: xml_eval Let_def)
  have "\<forall>t \<in> set [zero_track]. track_fits t" by (simp add: zero_fits)
  with parsed_structs_fit [of two_tracks "[]" False, THEN conjunct1] ts have "\<forall>t \<in> set ts. track_fits t" by blast
  with ts show ?thesis by blast
qed

end
