(* ===== verification/Tracksort.thy ===== *)
theory Tracksort
  imports Xml "HOL-Library.List_Lexorder" "HOL-Library.Product_Lexorder" "HOL-Library.Char_ord" "HOL-Library.Multiset" "HOL-Library.Sublist"
begin

text \<open>
  Sorting a list of tracks, and removing the double ones from it:
  \<^verbatim>\<open>src/src/clients/despotify/sort.c\<close>.  \<open>strcmp\<close> is a parameter, because the code multiplies its
  result, of which C only fixes the sign.

  Proved here: with any \<open>strcmp\<close> the bottom-up merge sort gives a permutation of the list,
  unless an \<open>int\<close> overflows; with one whose results are below 100 it is the stable sort by
  artist, album and track number; with one that gives differences of bytes the artists can
  come out of order, and different tracks are taken for equal.
\<close>

section \<open>Comparing\<close>

definition fits_int :: "int \<Rightarrow> bool" where
  "fits_int x \<longleftrightarrow> - (2 ^ 31) \<le> x \<and> x < 2 ^ 31"

lemma fits_intI: "\<bar>x\<bar> < 2147483648 \<Longrightarrow> fits_int x"
  by (auto simp: fits_int_def)

text \<open>
  \<open>artist\<close> is the list the pointer leads to; the first is read even if there is none.  The
  arithmetic is that of \<open>int\<close>.
\<close>

definition track_compare :: "(string \<Rightarrow> string \<Rightarrow> int) \<Rightarrow> ds_track option \<Rightarrow> ds_track option \<Rightarrow> int result" where
  "track_compare strcmp t1 t2 =
     (case (t1, t2) of
        (Some t1, Some t2) \<Rightarrow>
          (case (artist t1, artist t2) of
             (a1 # _, a2 # _) \<Rightarrow>
               let s = strcmp (ar_name a1) (ar_name a2) * 1000;
                   r = strcmp (album t1) (album t2) * 10
               in if \<not> (fits_int s \<and> fits_int r \<and> fits_int (s + r)) then Inl Undefined
                  else if s + r \<noteq> 0 then Inr (s + r)
                  else if \<not> fits_int (tracknumber t1 - tracknumber t2) then Inl Undefined
                  else Inr (tracknumber t1 - tracknumber t2)
           | _ \<Rightarrow> Inl Null_Deref)
      | _ \<Rightarrow> Inr 0)"

section \<open>Removing double tracks\<close>

text \<open>The list and the number of deletions.  After a deletion the loop goes on behind the gap.\<close>

fun tracklist_dedup :: "(string \<Rightarrow> string \<Rightarrow> int) \<Rightarrow> ds_track list \<Rightarrow> (ds_track list \<times> nat) result" where
  "tracklist_dedup strcmp [] = Inr ([], 0)"
| "tracklist_dedup strcmp [t] = rbind (track_compare strcmp (Some t) None) (\<lambda>_. Inr ([t], 0))"
| "tracklist_dedup strcmp (t # u # rest) =
     rbind (track_compare strcmp (Some t) (Some u)) (\<lambda>v.
       if v = 0 then rbind (tracklist_dedup strcmp rest) (\<lambda>(l, n). Inr (t # l, n + 1))
       else rbind (tracklist_dedup strcmp (u # rest)) (\<lambda>(l, n). Inr (t # l, n)))"

section \<open>Sorting\<close>

text \<open>
  The inner loop: from \<open>p\<close> at most \<open>psize\<close> tracks are taken, from \<open>q\<close> at most \<open>qsize\<close>; \<open>out\<close> is
  the list up to \<open>tail\<close>.  What is left of \<open>q\<close> is where the next merge starts.
\<close>

function merge_loop ::
  "(string \<Rightarrow> string \<Rightarrow> int) \<Rightarrow> ds_track list \<Rightarrow> nat \<Rightarrow> ds_track list \<Rightarrow> nat \<Rightarrow> ds_track list \<Rightarrow> (ds_track list \<times> ds_track list) result" where
  "merge_loop strcmp p psize q qsize out =
     (if psize = 0 then
        (case q of
           [] \<Rightarrow> Inr (out, q)
         | e # q' \<Rightarrow> if qsize = 0 then Inr (out, q) else merge_loop strcmp p psize q' (qsize - 1) (out @ [e]))
      else case p of
        [] \<Rightarrow> Inl Null_Deref
      | e # p' \<Rightarrow>
          (case q of
             [] \<Rightarrow> merge_loop strcmp p' (psize - 1) q qsize (out @ [e])
           | f # q' \<Rightarrow>
               if qsize = 0 then merge_loop strcmp p' (psize - 1) q qsize (out @ [e])
               else rbind (track_compare strcmp (Some e) (Some f)) (\<lambda>v.
                      if v \<le> 0 then merge_loop strcmp p' (psize - 1) q qsize (out @ [e])
                      else merge_loop strcmp p psize q' (qsize - 1) (out @ [f]))))"
  by pat_completeness auto
termination
  by (relation "measure (\<lambda>(_, p, psize, q, qsize, out). psize + length q)") auto

declare merge_loop.simps [simp del]

lemma merge_loop_length:
  "merge_loop strcmp p psize q qsize out = Inr (out', r) \<Longrightarrow>
   length out' + length r = length out + psize + length q \<and> length r \<le> length q"
proof (induction strcmp p psize q qsize out rule: merge_loop.induct)
  case (1 strcmp p psize q qsize out)
  show ?case
  proof (cases "psize = 0")
    case True
    with "1.prems" "1.IH"(1) [OF True] show ?thesis
      by (subst (asm) merge_loop.simps) (auto split: list.splits if_splits)
  next
    case ps: False
    with "1.prems" obtain e p' where p: "p = e # p'" by (subst (asm) merge_loop.simps) (auto split: list.splits)
    show ?thesis
    proof (cases q)
      case Nil
      with "1.prems" ps p "1.IH"(2) [OF ps p Nil] show ?thesis by (subst (asm) merge_loop.simps) auto
    next
      case (Cons f q')
      show ?thesis
      proof (cases "qsize = 0")
        case True
        with "1.prems" ps p Cons "1.IH"(3) [OF ps p Cons True] show ?thesis by (subst (asm) merge_loop.simps) simp
      next
        case False
        with "1.prems" ps p Cons obtain v where v: "track_compare strcmp (Some e) (Some f) = Inr v"
          and rest: "(if v \<le> 0 then merge_loop strcmp p' (psize - 1) q qsize (out @ [e])
              else merge_loop strcmp p psize q' (qsize - 1) (out @ [f])) = Inr (out', r)"
          by (subst (asm) merge_loop.simps) (auto simp: rbind_Inr_iff)
        show ?thesis
        proof (cases "v \<le> 0")
          case True
          with "1.IH"(4) [OF ps p Cons False v True] rest ps show ?thesis by simp
        next
          case no: False
          with "1.IH"(5) [OF ps p Cons False v no] rest Cons show ?thesis by simp
        qed
      qed
    qed
  qed
qed

text \<open>One pass over the list, with the number of merges; runs of length 0 would be merged for ever.\<close>

function merge_pass :: "(string \<Rightarrow> string \<Rightarrow> int) \<Rightarrow> nat \<Rightarrow> ds_track list \<Rightarrow> ds_track list \<Rightarrow> nat \<Rightarrow> (ds_track list \<times> nat) result" where
  "merge_pass strcmp insize p out nmerges =
     (if p = [] then Inr (out, nmerges)
      else if insize = 0 then Inl Blocked
      else let psize = min insize (length p)
           in case merge_loop strcmp p psize (drop psize p) insize out of
                Inl e \<Rightarrow> Inl e
              | Inr (out, q) \<Rightarrow> merge_pass strcmp insize q out (nmerges + 1))"
  by pat_completeness auto
termination
proof (relation "measure (\<lambda>(_, _, p, _, _). length p)")
  fix strcmp insize p out x r y q and nmerges :: nat
  assume "p \<noteq> []" "insize \<noteq> 0" "x = min insize (length p)"
    "merge_loop strcmp p x (drop x p) insize out = Inr r" "(y, q) = r"
  then show "((strcmp, insize, q, y, nmerges + 1), strcmp, insize, p, out, nmerges) \<in> measure (\<lambda>(_, _, p, _, _). length p)"
    using merge_loop_length [of strcmp p x "drop x p" insize out y q] by (cases p) auto
qed simp

declare merge_pass.simps [simp del]

lemma merge_pass_length:
  "merge_pass strcmp insize p out n = Inr (out', m) \<Longrightarrow>
   length out' = length out + length p \<and> (n + 1 < m \<longrightarrow> insize < length p)"
proof (induction strcmp insize p out n rule: merge_pass.induct)
  case (1 strcmp insize p out n)
  show ?case
  proof (cases "p = []")
    case True
    with "1.prems" show ?thesis by (simp add: merge_pass.simps)
  next
    case False
    let ?ps = "min insize (length p)"
    from "1.prems" False have pos: "insize \<noteq> 0" by (subst (asm) merge_pass.simps) (auto split: if_splits)
    with "1.prems" False obtain o1 q where m: "merge_loop strcmp p ?ps (drop ?ps p) insize out = Inr (o1, q)"
      and rest: "merge_pass strcmp insize q o1 (n + 1) = Inr (out', m)"
      by (auto simp: merge_pass.simps [of strcmp insize p] Let_def split: sum.splits)
    note l = merge_loop_length [OF m]
    have "insize < length p" if "n + 1 < m"
    proof (rule ccontr)
      assume "\<not> insize < length p"
      with l have "q = []" by auto
      with rest that show False by (simp add: merge_pass.simps)
    qed
    with "1.IH" [OF False pos refl m refl rest] l show ?thesis by auto
  qed
qed

text \<open>
  The passes, with runs twice as long each time.  \<open>insize\<close> is an \<open>int\<close> in the code; it stays below
  twice the length of the list.
\<close>

function sort_passes :: "(string \<Rightarrow> string \<Rightarrow> int) \<Rightarrow> nat \<Rightarrow> ds_track list \<Rightarrow> ds_track list result" where
  "sort_passes strcmp insize list =
     (case merge_pass strcmp insize list [] 0 of
        Inl e \<Rightarrow> Inl e
      | Inr (list, nmerges) \<Rightarrow> if nmerges \<le> 1 then Inr list else sort_passes strcmp (insize * 2) list)"
  by pat_completeness auto
termination
proof (relation "measure (\<lambda>(_, insize, list). length list - insize)")
  fix strcmp insize list r list' and nmerges :: nat
  assume r: "merge_pass strcmp insize list [] 0 = Inr r" "(list', nmerges) = r" and n: "\<not> nmerges \<le> 1"
  then have "insize < length list" "length list' = length list"
    using merge_pass_length [of strcmp insize list "[]" 0 list' nmerges] by auto
  moreover have "insize \<noteq> 0" using r \<open>insize < length list\<close> by (auto simp: merge_pass.simps split: if_splits)
  ultimately show "((strcmp, insize * 2, list'), strcmp, insize, list) \<in> measure (\<lambda>(_, insize, list). length list - insize)"
    by simp
qed simp

declare sort_passes.simps [simp del]

definition tracklist_sort :: "(string \<Rightarrow> string \<Rightarrow> int) \<Rightarrow> ds_track list \<Rightarrow> ds_track list result" where
  "tracklist_sort strcmp list = (if list = [] then Inr [] else sort_passes strcmp 1 list)"

section \<open>Any comparison\<close>

text \<open>Whatever the results of the comparisons are, no track is lost or added, and only they can fail.\<close>

definition compare_fault :: "(string \<Rightarrow> string \<Rightarrow> int) \<Rightarrow> ds_track set \<Rightarrow> fault \<Rightarrow> bool" where
  "compare_fault strcmp A e \<longleftrightarrow> (\<exists>t \<in> A. \<exists>u \<in> A. track_compare strcmp (Some t) (Some u) = Inl e)"

lemma merge_loop_safe:
  assumes "set (take psize p) \<subseteq> A" "set q \<subseteq> A" "psize \<le> length p"
  shows "case merge_loop strcmp p psize q qsize out of
      Inl e \<Rightarrow> compare_fault strcmp A e
    | Inr (out', r) \<Rightarrow> mset out' + mset r = mset out + mset (take psize p) + mset q"
  using assms
proof (induction strcmp p psize q qsize out rule: merge_loop.induct)
  case (1 strcmp p psize q qsize out)
  show ?case
  proof (cases "psize = 0")
    case True
    show ?thesis
    proof (cases q)
      case Nil
      with True show ?thesis by (subst merge_loop.simps) simp
    next
      case (Cons e q')
      show ?thesis
      proof (cases "qsize = 0")
        case True
        with \<open>psize = 0\<close> Cons show ?thesis by (subst merge_loop.simps) simp
      next
        case False
        with True Cons "1.IH"(1) [OF True Cons False] "1.prems" show ?thesis
          by (simp add: merge_loop.simps [of strcmp p 0 "e # q'"] split: sum.splits prod.splits)
      qed
    qed
  next
    case ps: False
    then obtain e p' where p: "p = e # p'" using "1.prems"(3) by (cases p) auto
    obtain n where n: "psize = Suc n" using ps by (cases psize) auto
    have e: "e \<in> A" "set (take n p') \<subseteq> A" "n \<le> length p'" using "1.prems" by (simp_all add: p n)
    show ?thesis
    proof (cases q)
      case Nil
      with "1.IH"(2) [OF ps p Nil] e p n show ?thesis
        by (simp add: merge_loop.simps [of strcmp "e # p'"] split: sum.splits prod.splits)
    next
      case (Cons f q')
      show ?thesis
      proof (cases "qsize = 0")
        case True
        with "1.IH"(3) [OF ps p Cons True] "1.prems"(2) e p n Cons show ?thesis
          by (simp add: merge_loop.simps [of strcmp "e # p'"] split: sum.splits prod.splits)
      next
        case qs: False
        have f: "f \<in> A" "set q' \<subseteq> A" using "1.prems"(2) Cons by simp_all
        show ?thesis
        proof (cases "track_compare strcmp (Some e) (Some f)")
          case (Inl x)
          with e(1) f(1) qs Cons p n show ?thesis
            by (auto simp: merge_loop.simps [of strcmp "e # p'"] compare_fault_def)
        next
          case (Inr v)
          show ?thesis
          proof (cases "v \<le> 0")
            case True
            from "1.IH"(4) [OF ps p Cons qs Inr True] "1.prems"(2) e n Inr Cons qs True show ?thesis
              by (simp add: merge_loop.simps [of strcmp "e # p'"] p split: sum.splits prod.splits)
          next
            case False
            from "1.IH"(5) [OF ps p Cons qs Inr False] "1.prems" f n Inr Cons qs False show ?thesis
              by (simp add: merge_loop.simps [of strcmp "e # p'"] p split: sum.splits prod.splits)
          qed
        qed
      qed
    qed
  qed
qed

lemma merge_pass_safe:
  assumes "set p \<subseteq> A" "0 < n" "set out \<subseteq> A"
  shows "case merge_pass strcmp n p out k of
      Inl e \<Rightarrow> compare_fault strcmp A e
    | Inr (out', m) \<Rightarrow> mset out' = mset out + mset p"
  using assms
proof (induction strcmp n p out k rule: merge_pass.induct)
  case (1 strcmp n p out k)
  show ?case
  proof (cases "p = []")
    case True
    then show ?thesis by (simp add: merge_pass.simps)
  next
    case False
    let ?ps = "min n (length p)"
    have n: "n \<noteq> 0" using "1.prems"(2) by simp
    have sub: "set (take ?ps p) \<subseteq> A" "set (drop ?ps p) \<subseteq> A"
      using "1.prems"(1) set_take_subset set_drop_subset by fast+
    have "?ps \<le> length p" by simp
    note safe = merge_loop_safe [OF sub this, where strcmp = strcmp and qsize = n and out = out]
    show ?thesis
    proof (cases "merge_loop strcmp p ?ps (drop ?ps p) n out")
      case (Inl e)
      with safe False n show ?thesis by (simp add: merge_pass.simps [of strcmp n p] Let_def)
    next
      case (Inr r)
      obtain out' q where r: "r = (out', q)" by (cases r)
      have "mset (take ?ps p) + mset (drop ?ps p) = mset p" by (metis append_take_drop_id mset_append)
      with safe Inr r have ms: "mset out' + mset q = mset out + mset p" by (simp add: ac_simps)
      then have "set out' \<union> set q = set out \<union> set p" by (metis set_mset_mset set_mset_union)
      with "1.prems" have "set q \<subseteq> A" "set out' \<subseteq> A" by auto
      with "1.IH" [OF False n refl Inr r [symmetric]] "1.prems"(2) ms Inr r False n show ?thesis
        by (simp add: merge_pass.simps [of strcmp n p] Let_def split: sum.splits prod.splits)
    qed
  qed
qed

lemma sort_passes_safe:
  assumes "set xs \<subseteq> A" "0 < n"
  shows "case sort_passes strcmp n xs of Inl e \<Rightarrow> compare_fault strcmp A e | Inr ys \<Rightarrow> mset ys = mset xs"
  using assms
proof (induction strcmp n xs rule: sort_passes.induct)
  case (1 strcmp n xs)
  note safe = merge_pass_safe [OF "1.prems", where strcmp = strcmp and out = "[]" and k = 0, simplified]
  show ?case
  proof (cases "merge_pass strcmp n xs [] 0")
    case (Inl e)
    with safe show ?thesis by (simp add: sort_passes.simps [of strcmp n xs])
  next
    case (Inr r)
    obtain ys m where r: "r = (ys, m)" by (cases r)
    with safe Inr have ms: "mset ys = mset xs" by simp
    show ?thesis
    proof (cases "m \<le> 1")
      case True
      with Inr r ms show ?thesis by (simp add: sort_passes.simps [of strcmp n xs])
    next
      case False
      have "set ys \<subseteq> A" using ms "1.prems"(1) by (metis set_mset_mset)
      with "1.IH" [OF Inr r [symmetric] False] "1.prems"(2) Inr r False ms show ?thesis
        by (simp add: sort_passes.simps [of strcmp n xs] split: sum.splits)
    qed
  qed
qed

section \<open>Merging\<close>

text \<open>What a merge does when the comparison is one of keys.\<close>

fun merged :: "(ds_track \<Rightarrow> 'k :: linorder) \<Rightarrow> ds_track list \<Rightarrow> ds_track list \<Rightarrow> ds_track list" where
  "merged rank [] ys = ys"
| "merged rank (x # xs) [] = x # xs"
| "merged rank (x # xs) (y # ys) =
     (if rank x \<le> rank y then x # merged rank xs (y # ys) else y # merged rank (x # xs) ys)"

lemma merged_nil [simp]: "merged rank xs [] = xs"
  by (cases xs) simp_all

lemma mset_merged [simp]: "mset (merged rank xs ys) = mset xs + mset ys"
  by (induction rank xs ys rule: merged.induct) auto

lemma set_merged [simp]: "set (merged rank xs ys) = set xs \<union> set ys"
  by (induction rank xs ys rule: merged.induct) auto

lemma sorted_merged: "\<lbrakk>sorted (map rank xs); sorted (map rank ys)\<rbrakk> \<Longrightarrow> sorted (map rank (merged rank xs ys))"
  by (induction rank xs ys rule: merged.induct) (auto intro: order_trans less_imp_le)

lemma filter_merged:
  "\<lbrakk>sorted (map rank xs); sorted (map rank ys)\<rbrakk> \<Longrightarrow>
   filter (\<lambda>t. rank t = k) (merged rank xs ys) = filter (\<lambda>t. rank t = k) xs @ filter (\<lambda>t. rank t = k) ys"
proof (induction rank xs ys rule: merged.induct)
  case (3 rank x xs y ys)
  show ?case
  proof (cases "rank x \<le> rank y")
    case True
    with 3 show ?thesis by simp
  next
    case False
    show ?thesis
    proof (cases "rank y = k")
      case True
      with False 3(3) have "\<forall>t \<in> set (x # xs). rank t \<noteq> k" by auto
      then have "filter (\<lambda>t. rank t = k) (x # xs) = []" by (simp add: filter_empty_conv)
      with 3 False True show ?thesis by simp
    next
      case no: False
      with 3 False show ?thesis by simp
    qed
  qed
qed simp_all

text \<open>A comparison that is one of keys, on the tracks of a list.\<close>

definition compares :: "(string \<Rightarrow> string \<Rightarrow> int) \<Rightarrow> (ds_track \<Rightarrow> 'k :: linorder) \<Rightarrow> ds_track set \<Rightarrow> bool" where
  "compares strcmp rank A \<longleftrightarrow>
     (\<forall>t \<in> A. \<forall>u \<in> A. \<exists>v. track_compare strcmp (Some t) (Some u) = Inr v \<and> (v \<le> 0 \<longleftrightarrow> rank t \<le> rank u))"

lemma merge_loop_merged:
  assumes "compares strcmp rank A" "set (take psize p) \<subseteq> A" "set q \<subseteq> A" "psize \<le> length p"
  shows "merge_loop strcmp p psize q qsize out =
    Inr (out @ merged rank (take psize p) (take qsize q), drop qsize q)"
  using assms
proof (induction strcmp p psize q qsize out rule: merge_loop.induct)
  case (1 strcmp p psize q qsize out)
  show ?case
  proof (cases "psize = 0")
    case True
    show ?thesis
    proof (cases q)
      case Nil
      with True show ?thesis by (subst merge_loop.simps) simp
    next
      case (Cons e q')
      with True 1 show ?thesis by (subst merge_loop.simps) (cases qsize, auto)
    qed
  next
    case ps: False
    then obtain e p' where p: "p = e # p'" using "1.prems"(4) by (cases p) auto
    obtain n where n: "psize = Suc n" using ps by (cases psize) auto
    have e: "e \<in> A" "set (take n p') \<subseteq> A" "n \<le> length p'" using "1.prems" by (simp_all add: p n)
    show ?thesis
    proof (cases q)
      case Nil
      with "1.IH"(2) [OF ps p Nil "1.prems"(1)] e ps p n show ?thesis by (subst merge_loop.simps) simp
    next
      case (Cons f q')
      show ?thesis
      proof (cases qsize)
        case 0
        with "1.IH"(3) [OF ps p Cons _ "1.prems"(1)] "1.prems"(3) e ps p n Cons show ?thesis by (subst merge_loop.simps) simp
      next
        case (Suc k)
        have "f \<in> A" using "1.prems"(3) Cons by simp
        with e(1) "1.prems"(1) obtain v where v: "track_compare strcmp (Some e) (Some f) = Inr v" "v \<le> 0 \<longleftrightarrow> rank e \<le> rank f"
          unfolding compares_def by blast
        have qs: "qsize \<noteq> 0" using Suc by simp
        show ?thesis
        proof (cases "v \<le> 0")
          case True
          from "1.IH"(4) [OF ps p Cons qs v(1) True "1.prems"(1)] "1.prems"(3) e n v Cons Suc True show ?thesis
            by (simp add: merge_loop.simps [of strcmp "e # p'"] p)
        next
          case False
          from "1.IH"(5) [OF ps p Cons qs v(1) False "1.prems"(1)] "1.prems" n v Cons Suc False show ?thesis
            by (simp add: merge_loop.simps [of strcmp "e # p'"] p)
        qed
      qed
    qed
  qed
qed

section \<open>The passes\<close>

text \<open>A list made of sorted runs of length \<open>n\<close>; the last one can be shorter.\<close>

function runs :: "(ds_track \<Rightarrow> 'k :: linorder) \<Rightarrow> nat \<Rightarrow> ds_track list \<Rightarrow> bool" where
  "runs rank n xs \<longleftrightarrow> (if xs = [] \<or> n = 0 then True else sorted (map rank (take n xs)) \<and> runs rank n (drop n xs))"
  by pat_completeness auto
termination
  by (relation "measure (\<lambda>(_, _, xs). length xs)") auto

declare runs.simps [simp del]

lemma runs_one: "runs rank 1 xs"
proof (induction xs)
  case (Cons x xs)
  then show ?case by (subst runs.simps) simp
qed (simp add: runs.simps)

lemma runs_all: "runs rank n xs \<Longrightarrow> length xs \<le> n \<Longrightarrow> sorted (map rank xs)"
  by (cases "xs = []"; cases "n = 0") (simp_all add: runs.simps [of rank n xs])

text \<open>What a pass makes of the runs.\<close>

function paired :: "(ds_track \<Rightarrow> 'k :: linorder) \<Rightarrow> nat \<Rightarrow> ds_track list \<Rightarrow> ds_track list" where
  "paired rank n xs =
     (if xs = [] \<or> n = 0 then [] else merged rank (take n xs) (take n (drop n xs)) @ paired rank n (drop (n + n) xs))"
  by pat_completeness auto
termination
  by (relation "measure (\<lambda>(_, _, xs). length xs)") auto

declare paired.simps [simp del]

lemma length_merged [simp]: "length (merged rank xs ys) = length xs + length ys"
  by (induction rank xs ys rule: merged.induct) auto

lemma paired_runs:
  assumes "runs rank n xs" "0 < n"
  shows "runs rank (n + n) (paired rank n xs) \<and> mset (paired rank n xs) = mset xs \<and>
    (\<forall>k. filter (\<lambda>t. rank t = k) (paired rank n xs) = filter (\<lambda>t. rank t = k) xs)"
  using assms
proof (induction rank n xs rule: paired.induct)
  case (1 rank n xs)
  show ?case
  proof (cases "xs = []")
    case True
    then show ?thesis by (simp add: paired.simps runs.simps)
  next
    case False
    let ?m = "merged rank (take n xs) (take n (drop n xs))" and ?rest = "drop (n + n) xs"
    have p: "paired rank n xs = ?m @ paired rank n ?rest" using False "1.prems"(2) by (subst paired.simps) simp
    have s1: "sorted (map rank (take n xs))" "runs rank n (drop n xs)"
      using "1.prems" False by (subst (asm) runs.simps, simp)+
    then have s2: "sorted (map rank (take n (drop n xs)))" "runs rank n ?rest"
      using "1.prems"(2) by (cases "drop n xs = []"; simp add: runs.simps [of rank n "drop n xs"] runs.simps [of rank n "[]"] add.commute)+
    have ih: "runs rank (n + n) (paired rank n ?rest)" "mset (paired rank n ?rest) = mset ?rest"
      "\<forall>k. filter (\<lambda>t. rank t = k) (paired rank n ?rest) = filter (\<lambda>t. rank t = k) ?rest"
      using "1.IH" False s2(2) "1.prems"(2) by simp_all
    have cut: "xs = take n xs @ take n (drop n xs) @ ?rest" by (metis append_take_drop_id drop_drop)
    have so: "sorted (map rank ?m)" by (rule sorted_merged [OF s1(1) s2(1)])
    have "runs rank (n + n) (?m @ paired rank n ?rest)"
    proof (cases "length xs \<le> n + n")
      case True
      then have "paired rank n ?rest = []" by (simp add: paired.simps)
      then show ?thesis using so True False "1.prems"(2)
        by (subst runs.simps) (simp add: runs.simps [of rank _ "[]"] min_def)
    next
      case no: False
      then have len: "length ?m = n + n" by simp
      then show ?thesis using so ih(1) "1.prems"(2) by (subst runs.simps) simp
    qed
    moreover have "mset (?m @ paired rank n ?rest) = mset xs"
      by (subst (3) cut) (simp add: ih(2))
    moreover have "filter (\<lambda>t. rank t = k) (?m @ paired rank n ?rest) = filter (\<lambda>t. rank t = k) xs" for k
      by (subst (3) cut) (simp add: ih(3) filter_merged [OF s1(1) s2(1)])
    ultimately show ?thesis unfolding p by blast
  qed
qed

lemma merge_pass_paired:
  assumes "compares strcmp rank A" "set p \<subseteq> A" "0 < n"
  shows "\<exists>m. merge_pass strcmp n p out k = Inr (out @ paired rank n p, m) \<and> (p \<noteq> [] \<longrightarrow> k < m) \<and>
    (m \<le> k + 1 \<longleftrightarrow> length p \<le> n + n)"
  using assms(2)
proof (induction "length p" arbitrary: p out k rule: less_induct)
  case less
  show ?case
  proof (cases "p = []")
    case True
    then show ?thesis by (simp add: merge_pass.simps paired.simps)
  next
    case False
    let ?ps = "min n (length p)" and ?rest = "drop (n + n) p"
    let ?out = "out @ merged rank (take n p) (take n (drop n p))"
    have "set (take ?ps p) \<subseteq> A" "set (drop ?ps p) \<subseteq> A"
      using less.prems set_take_subset set_drop_subset by fast+
    from merge_loop_merged [OF assms(1) this, of n out]
    have m: "merge_loop strcmp p ?ps (drop ?ps p) n out = Inr (?out, ?rest)"
      by (cases "n \<le> length p") (simp_all add: min_def add.commute)
    have "length ?rest < length p" "set ?rest \<subseteq> A" using False assms(3) less.prems set_drop_subset by fastforce+
    from less.hyps [OF this, of ?out "k + 1"] obtain i where i: "merge_pass strcmp n ?rest ?out (k + 1) = Inr (?out @ paired rank n ?rest, i)"
      "?rest \<noteq> [] \<longrightarrow> k + 1 < i" by blast
    have run: "merge_pass strcmp n p out k = Inr (out @ paired rank n p, i)"
      using False assms(3) m i(1) by (simp add: merge_pass.simps [of strcmp n p] paired.simps [of rank n p])
    have "k < i \<and> (i \<le> k + 1 \<longleftrightarrow> length p \<le> n + n)"
    proof (cases "length p \<le> n + n")
      case True
      with i(1) have "i = k + 1" by (simp add: merge_pass.simps)
      with True show ?thesis by simp
    next
      case no: False
      then have "?rest \<noteq> []" by simp
      with i(2) no show ?thesis by simp
    qed
    with run show ?thesis by blast
  qed
qed

lemma sort_passes_sorted:
  assumes "compares strcmp rank A" "set xs \<subseteq> A" "0 < n" "runs rank n xs"
  shows "\<exists>ys. sort_passes strcmp n xs = Inr ys \<and> sorted (map rank ys) \<and> mset ys = mset xs \<and>
    (\<forall>k. filter (\<lambda>t. rank t = k) ys = filter (\<lambda>t. rank t = k) xs)"
  using assms(2-4)
proof (induction "length xs - n" arbitrary: n xs rule: less_induct)
  case less
  let ?ys = "paired rank n xs"
  from merge_pass_paired [OF assms(1) less.prems(1,2), of "[]" 0] obtain m
    where m: "merge_pass strcmp n xs [] 0 = Inr (?ys, m)" "m \<le> 1 \<longleftrightarrow> length xs \<le> n + n" by auto
  note p = paired_runs [OF less.prems(3,2)]
  then have len: "length ?ys = length xs" by (metis size_mset)
  show ?case
  proof (cases "m \<le> 1")
    case True
    with m have "sort_passes strcmp n xs = Inr ?ys" by (simp add: sort_passes.simps [of strcmp n])
    moreover have "sorted (map rank ?ys)" using p m(2) True len by (intro runs_all [of rank "n + n"]) auto
    ultimately show ?thesis using p by blast
  next
    case False
    with m(1) have run: "sort_passes strcmp n xs = sort_passes strcmp (n * 2) ?ys" by (simp add: sort_passes.simps [of strcmp n])
    have sub: "set ?ys \<subseteq> A" using p less.prems(1) by (metis set_mset_mset)
    have "length ?ys - n * 2 < length xs - n" using False m(2) len less.prems(2) by simp
    from less.hyps [OF this sub] p less.prems(2) run show ?thesis by (auto simp: mult_2_right)
  qed
qed

lemma tracklist_sort_stable:
  assumes "compares strcmp rank (set xs)"
  shows "tracklist_sort strcmp xs = Inr (sort_key rank xs)"
proof (cases "xs = []")
  case True
  then show ?thesis by (simp add: tracklist_sort_def)
next
  case False
  from sort_passes_sorted [OF assms order_refl _ runs_one] obtain ys where ys: "sort_passes strcmp 1 xs = Inr ys"
    "sorted (map rank ys)" "mset ys = mset xs" "\<forall>k. filter (\<lambda>t. rank t = k) ys = filter (\<lambda>t. rank t = k) xs" by auto
  have "sort_key rank xs = ys"
  proof (rule properties_for_sort_key [OF ys(3)])
    show "filter (\<lambda>x. rank k = rank x) ys = filter (\<lambda>x. rank k = rank x) xs" for k
      using spec [OF ys(4), of "rank k"] by (simp only: eq_commute [of "rank k"])
  qed (rule ys(2))
  with ys(1) False show ?thesis by (simp add: tracklist_sort_def)
qed

section \<open>The comparison of the code\<close>

text \<open>
  What the code relies on beyond the sign: that the result for the artists, a thousandfold, weighs
  more than the one for the albums tenfold.
\<close>

definition small_strcmp :: "(string \<Rightarrow> string \<Rightarrow> int) \<Rightarrow> bool" where
  "small_strcmp strcmp \<longleftrightarrow> (\<forall>a b. (strcmp a b < 0 \<longleftrightarrow> a < b) \<and> (strcmp a b = 0 \<longleftrightarrow> a = b) \<and> \<bar>strcmp a b\<bar> < 100)"

definition track_rank :: "ds_track \<Rightarrow> string \<times> string \<times> int" where
  "track_rank t = (ar_name (hd (artist t)), album t, tracknumber t)"

lemma weighs:
  fixes s r :: int
  assumes "\<bar>r\<bar> < 100"
  shows "s * 1000 + r * 10 = 0 \<longleftrightarrow> s = 0 \<and> r = 0" "s * 1000 + r * 10 < 0 \<longleftrightarrow> s < 0 \<or> s = 0 \<and> r < 0"
proof -
  have r: "- 100 < r" "r < 100" using assms by simp_all
  consider "s \<le> - 1" | "s = 0" | "1 \<le> s" by linarith
  then have "(s * 1000 + r * 10 = 0 \<longleftrightarrow> s = 0 \<and> r = 0) \<and> (s * 1000 + r * 10 < 0 \<longleftrightarrow> s < 0 \<or> s = 0 \<and> r < 0)"
  proof cases
    case 1
    then have "s * 1000 + r * 10 < 0" using r by linarith
    with 1 show ?thesis by simp
  next
    case 3
    then have "0 < s * 1000 + r * 10" using r by linarith
    with 3 show ?thesis by simp
  qed simp
  then show "s * 1000 + r * 10 = 0 \<longleftrightarrow> s = 0 \<and> r = 0" "s * 1000 + r * 10 < 0 \<longleftrightarrow> s < 0 \<or> s = 0 \<and> r < 0"
    by simp_all
qed

lemma compare_small:
  assumes "small_strcmp strcmp" "artist t \<noteq> []" "artist u \<noteq> []" "fits_int (tracknumber t - tracknumber u)"
  shows "\<exists>v. track_compare strcmp (Some t) (Some u) = Inr v \<and> (v \<le> 0 \<longleftrightarrow> track_rank t \<le> track_rank u) \<and>
    (v = 0 \<longleftrightarrow> track_rank t = track_rank u)"
proof -
  obtain a as b bs where ab: "artist t = a # as" "artist u = b # bs" using assms(2,3) by (meson neq_Nil_conv)
  let ?s = "strcmp (ar_name a) (ar_name b)" and ?r = "strcmp (album t) (album u)"
  have s: "?s < 0 \<longleftrightarrow> ar_name a < ar_name b" "?s = 0 \<longleftrightarrow> ar_name a = ar_name b" "\<bar>?s\<bar> < 100"
    and r: "?r < 0 \<longleftrightarrow> album t < album u" "?r = 0 \<longleftrightarrow> album t = album u" "\<bar>?r\<bar> < 100"
    using assms(1) unfolding small_strcmp_def by blast+
  let ?v = "?s * 1000 + ?r * 10"
  have v: "?v = 0 \<longleftrightarrow> ?s = 0 \<and> ?r = 0" "?v < 0 \<longleftrightarrow> ?s < 0 \<or> ?s = 0 \<and> ?r < 0"
    by (rule weighs [OF r(3)])+
  let ?w = "if ?v = 0 then tracknumber t - tracknumber u else ?v"
  have "fits_int (?s * 1000)" "fits_int (?r * 10)" "fits_int ?v"
    by (rule fits_intI, use s(3) r(3) in linarith)+
  then have "track_compare strcmp (Some t) (Some u) = Inr ?w"
    using assms(4) by (simp add: track_compare_def ab Let_def)
  moreover have "?w = 0 \<longleftrightarrow> track_rank t = track_rank u"
    using v(1) s(2) r(2) by (auto simp: track_rank_def ab)
  moreover have "?w \<le> 0 \<longleftrightarrow> track_rank t \<le> track_rank u"
  proof (cases "?v = 0")
    case True
    with v(1) s(2) r(2) show ?thesis by (auto simp: track_rank_def ab)
  next
    case False
    with v s(1,2) r(1,2) show ?thesis by (auto simp: track_rank_def ab less_le)
  qed
  ultimately show ?thesis by blast
qed

section \<open>Properties\<close>

text \<open>Track numbers whose differences are in the range of \<open>int\<close>.\<close>

definition numbers_ok :: "ds_track list \<Rightarrow> bool" where
  "numbers_ok ts \<longleftrightarrow> (\<forall>t \<in> set ts. \<bar>tracknumber t\<bar> < 2 ^ 30)"

lemma numbers_fit: "numbers_ok ts \<Longrightarrow> t \<in> set ts \<Longrightarrow> u \<in> set ts \<Longrightarrow> fits_int (tracknumber t - tracknumber u)"
  unfolding numbers_ok_def by (rule fits_intI) (frule (1) bspec, drule (1) bspec, simp add: abs_less_iff)

lemma compare_returns:
  assumes "artist t \<noteq> []" "artist u \<noteq> []"
  shows "track_compare strcmp (Some t) (Some u) = Inl e \<Longrightarrow> e = Undefined"
    and "\<forall>a b. \<bar>strcmp a b\<bar> \<le> 2000000 \<Longrightarrow> fits_int (tracknumber t - tracknumber u) \<Longrightarrow>
      \<exists>v. track_compare strcmp (Some t) (Some u) = Inr v"
proof -
  obtain a as b bs where ab: "artist t = a # as" "artist u = b # bs" using assms by (meson neq_Nil_conv)
  show "track_compare strcmp (Some t) (Some u) = Inl e \<Longrightarrow> e = Undefined"
    by (simp add: track_compare_def ab Let_def split: if_splits)
  assume bound: "\<forall>a b. \<bar>strcmp a b\<bar> \<le> 2000000" and n: "fits_int (tracknumber t - tracknumber u)"
  let ?s = "strcmp (ar_name a) (ar_name b)" and ?r = "strcmp (album t) (album u)"
  have "\<bar>?s\<bar> \<le> 2000000" "\<bar>?r\<bar> \<le> 2000000" using bound by blast+
  then have "fits_int (?s * 1000)" "fits_int (?r * 10)" "fits_int (?s * 1000 + ?r * 10)"
    by (intro fits_intI; linarith)+
  with n show "\<exists>v. track_compare strcmp (Some t) (Some u) = Inr v" by (simp add: track_compare_def ab Let_def)
qed

definition sign_strcmp :: "string \<Rightarrow> string \<Rightarrow> int" where
  "sign_strcmp a b = (if a < b then - 1 else if a = b then 0 else 1)"

lemma sign_strcmp_small: "small_strcmp sign_strcmp"
  by (auto simp: small_strcmp_def sign_strcmp_def)

definition song :: "string \<Rightarrow> string \<Rightarrow> int \<Rightarrow> ds_track" where
  "song name record n = zero_track\<lparr>artist := [zero_artist\<lparr>ar_name := name\<rparr>], album := record, tracknumber := n\<rparr>"

text \<open>The difference of the first two bytes that differ, as simple implementations of \<open>strcmp\<close> return it.\<close>

definition byte_strcmp :: "string \<Rightarrow> string \<Rightarrow> int" where
  "byte_strcmp a b =
     (let n = length (takeWhile (\<lambda>(x, y). x = y) (zip a b));
          byte = (\<lambda>s. if n < length s then int (of_char (s ! n)) else 0)
      in byte a - byte b)"

text \<open>
  C35: Sorting.  For every list whose tracks have an artist, and whatever \<open>strcmp\<close> returns, the
  merge sort ends with the same tracks, unless the comparison overflows an \<open>int\<close>; it does
  not for results up to two millions and track numbers below \<open>2 ^ 30\<close>.  If besides their sign
  the results are below 100, as \<open>-1\<close>, \<open>0\<close> and \<open>1\<close> are, it is the stable sort by artist, album
  and track number.  With the difference of two bytes, which the C standard also allows,
  tracks can stay out of the order of their artists.
\<close>

theorem tracks_sorted:
  assumes "\<forall>t \<in> set ts. artist t \<noteq> []"
  shows "(case tracklist_sort strcmp ts of Inl e \<Rightarrow> e = Undefined | Inr ys \<Rightarrow> mset ys = mset ts) \<and>
    ((\<forall>a b. \<bar>strcmp a b\<bar> \<le> 2000000) \<and> numbers_ok ts \<longrightarrow> (\<exists>ys. tracklist_sort strcmp ts = Inr ys)) \<and>
    (small_strcmp strcmp \<and> numbers_ok ts \<longrightarrow> tracklist_sort strcmp ts = Inr (sort_key track_rank ts)) \<and>
    tracklist_sort byte_strcmp [song ''b'' ''a'' 1, song ''a'' [CHR 0xD5] 1] =
      Inr [song ''b'' ''a'' 1, song ''a'' [CHR 0xD5] 1]"
proof (intro conjI impI)
  have safe: "case tracklist_sort strcmp ts of Inl e \<Rightarrow> compare_fault strcmp (set ts) e | Inr ys \<Rightarrow> mset ys = mset ts"
    using sort_passes_safe [of ts "set ts" 1 strcmp] by (auto simp: tracklist_sort_def)
  show "case tracklist_sort strcmp ts of Inl e \<Rightarrow> e = Undefined | Inr ys \<Rightarrow> mset ys = mset ts"
  proof (cases "tracklist_sort strcmp ts")
    case (Inl e)
    with safe obtain t u where "t \<in> set ts" "u \<in> set ts" "track_compare strcmp (Some t) (Some u) = Inl e"
      by (auto simp: compare_fault_def)
    with compare_returns(1) [of t u strcmp e] assms Inl show ?thesis by simp
  qed (use safe in simp)
  show "\<exists>ys. tracklist_sort strcmp ts = Inr ys" if "(\<forall>a b. \<bar>strcmp a b\<bar> \<le> 2000000) \<and> numbers_ok ts"
  proof (cases "tracklist_sort strcmp ts")
    case (Inl e)
    with safe obtain t u where tu: "t \<in> set ts" "u \<in> set ts" "track_compare strcmp (Some t) (Some u) = Inl e"
      by (auto simp: compare_fault_def)
    with compare_returns(2) [of t u strcmp] assms that numbers_fit [of ts t u] show ?thesis by auto
  qed blast
  show "tracklist_sort strcmp ts = Inr (sort_key track_rank ts)" if "small_strcmp strcmp \<and> numbers_ok ts"
  proof (rule tracklist_sort_stable)
    show "compares strcmp track_rank (set ts)"
      unfolding compares_def using compare_small assms that numbers_fit by blast
  qed
  have "byte_strcmp ''b'' ''a'' = 1" "byte_strcmp ''a'' [CHR 0xD5] = - 116" by (simp_all add: byte_strcmp_def)
  then have "track_compare byte_strcmp (Some (song ''b'' ''a'' 1)) (Some (song ''a'' [CHR 0xD5] 1)) = Inr (- 160)"
    by (simp add: track_compare_def song_def fits_int_def Let_def)
  then show "tracklist_sort byte_strcmp [song ''b'' ''a'' 1, song ''a'' [CHR 0xD5] 1] =
      Inr [song ''b'' ''a'' 1, song ''a'' [CHR 0xD5] 1]"
    by (simp add: tracklist_sort_def sort_passes.simps [of _ "Suc 0"] merge_pass.simps merge_loop.simps min_def)
qed

theorem tracks_sorted_witness:
  "tracklist_sort sign_strcmp [song ''b'' ''x'' 1, song ''a'' ''y'' 2, song ''a'' ''y'' 1] =
     Inr (sort_key track_rank [song ''b'' ''x'' 1, song ''a'' ''y'' 2, song ''a'' ''y'' 1])"
  using tracks_sorted [of "[song ''b'' ''x'' 1, song ''a'' ''y'' 2, song ''a'' ''y'' 1]" sign_strcmp] sign_strcmp_small
  by (simp add: song_def numbers_ok_def)

lemma dedup_small:
  assumes "small_strcmp strcmp" "\<forall>t \<in> set ts. artist t \<noteq> []" "numbers_ok ts"
  shows "\<exists>l n. tracklist_dedup strcmp ts = Inr (l, n) \<and> length l + n = length ts \<and> subseq l ts \<and>
    track_rank ` set l = track_rank ` set ts \<and> (ts \<noteq> [] \<longrightarrow> l \<noteq> [] \<and> hd l = hd ts)"
  using assms
proof (induction strcmp ts rule: tracklist_dedup.induct)
  case (2 strcmp t)
  then show ?case by (simp add: track_compare_def)
next
  case (3 strcmp t u rest)
  have art: "artist t \<noteq> []" "artist u \<noteq> []" "\<forall>t \<in> set rest. artist t \<noteq> []" using "3.prems"(2) by simp_all
  have num: "numbers_ok (u # rest)" "numbers_ok rest" using "3.prems"(3) by (simp_all add: numbers_ok_def)
  have fit: "fits_int (tracknumber t - tracknumber u)" by (rule numbers_fit [OF "3.prems"(3)]) simp_all
  from compare_small [OF "3.prems"(1) art(1,2) fit] obtain v
    where v: "track_compare strcmp (Some t) (Some u) = Inr v" "v = 0 \<longleftrightarrow> track_rank t = track_rank u" by blast
  show ?case
  proof (cases "v = 0")
    case True
    from "3.IH"(1) [OF v(1) True "3.prems"(1) art(3) num(2)] obtain l n where l: "tracklist_dedup strcmp rest = Inr (l, n)"
      "length l + n = length rest" "subseq l rest" "track_rank ` set l = track_rank ` set rest" by blast
    have "subseq (t # l) (t # u # rest)" using l(3) by auto
    with l v True show ?thesis by auto
  next
    case False
    from "3.IH"(2) [OF v(1) False "3.prems"(1)] art num(1) obtain l n where l: "tracklist_dedup strcmp (u # rest) = Inr (l, n)"
      "length l + n = length (u # rest)" "subseq l (u # rest)" "track_rank ` set l = track_rank ` set (u # rest)" by auto
    have "subseq (t # l) (t # u # rest)" using l(3) by auto
    with l v False show ?thesis by auto
  qed
qed simp

text \<open>
  Removing double tracks.  In a sorted list each track that is removed equals the one in front
  of it, and as many are removed as the result says; but of three equal ones the third stays.
  With a \<open>strcmp\<close> that gives the difference of two bytes, two tracks by different artists on
  different albums count as equal, and the second one is removed.
\<close>

lemma double_tracks_removed:
  assumes "small_strcmp strcmp" "\<forall>t \<in> set ts. artist t \<noteq> []" "numbers_ok ts"
  shows "(\<exists>l n. tracklist_dedup strcmp ts = Inr (l, n) \<and> length l + n = length ts \<and> subseq l ts \<and>
      track_rank ` set l = track_rank ` set ts) \<and>
    tracklist_dedup strcmp [song a r k, song a r k, song a r k] = Inr ([song a r k, song a r k], 1) \<and>
    tracklist_dedup byte_strcmp [song ''a'' [CHR 0xC5] k, song ''b'' ''a'' k] = Inr ([song ''a'' [CHR 0xC5] k], 1)"
proof (intro conjI)
  show "\<exists>l n. tracklist_dedup strcmp ts = Inr (l, n) \<and> length l + n = length ts \<and> subseq l ts \<and>
      track_rank ` set l = track_rank ` set ts"
    using dedup_small [OF assms] by blast
  have same: "strcmp x x = 0" for x using assms(1) by (simp add: small_strcmp_def)
  show "tracklist_dedup strcmp [song a r k, song a r k, song a r k] = Inr ([song a r k, song a r k], 1)"
    by (simp add: track_compare_def song_def same fits_int_def)
  have "byte_strcmp ''a'' ''b'' = - 1" "byte_strcmp [CHR 0xC5] ''a'' = 100" by (simp_all add: byte_strcmp_def)
  then show "tracklist_dedup byte_strcmp [song ''a'' [CHR 0xC5] k, song ''b'' ''a'' k] = Inr ([song ''a'' [CHR 0xC5] k], 1)"
    by (simp add: track_compare_def song_def fits_int_def)
qed

lemma double_tracks_removed_witness:
  "\<exists>l n. tracklist_dedup sign_strcmp [song ''a'' ''x'' 1, song ''a'' ''x'' 1, song ''b'' ''x'' 1] = Inr (l, n) \<and> length l + n = 3"
  using double_tracks_removed [OF sign_strcmp_small, of "[song ''a'' ''x'' 1, song ''a'' ''x'' 1, song ''b'' ''x'' 1]"]
  by (fastforce simp: song_def numbers_ok_def)

end
