(* ===== verification/Dns.thy ===== *)
theory Dns
  imports Prelude
begin

text \<open>
  Looking up the servers of a service: \<^verbatim>\<open>src/src/lib/dns.c\<close>, as it is compiled for POSIX.
  The functions of libresolv are parameters.

  Proved here: the list that is returned names every server once, by rising priority and, within
  one priority, in the order of the answer, provided no server has the priority 65535.
\<close>

section \<open>Reading the answer\<close>

text \<open>
  \<open>res_search\<close>: its result, and the bytes it has put into the array of 1024.  The other two are
  given the array, the end of the answer and a position, and return how far they have read.
\<close>

record resolver =
  res_search :: "string \<Rightarrow> int \<times> byte list"
  dn_skipname :: "byte option list \<Rightarrow> int \<Rightarrow> nat \<Rightarrow> int"
  dn_expand :: "byte option list \<Rightarrow> int \<Rightarrow> nat \<Rightarrow> int \<times> string"

record srv =
  sv_host :: string
  sv_prio :: u16
  sv_port :: u16

text \<open>\<open>GETSHORT\<close>.\<close>

definition get_short :: "byte option list \<Rightarrow> nat \<Rightarrow> u16 result" where
  "get_short answer p =
     (if length answer < p + 2 then Inl Out_Of_Bounds
      else case (answer ! p, answer ! (p + 1)) of
        (Some a, Some b) \<Rightarrow> Inr (get_u16 a b)
      | _ \<Rightarrow> Inl Uninit)"

fun skip_questions :: "resolver \<Rightarrow> byte option list \<Rightarrow> int \<Rightarrow> nat \<Rightarrow> nat \<Rightarrow> nat option" where
  "skip_questions R answer alen 0 p = Some p"
| "skip_questions R answer alen (Suc qdcount) p =
     (let hlen = dn_skipname R answer alen p
      in if hlen < 0 then None else skip_questions R answer alen qdcount (p + nat hlen + 4))"

fun read_answers :: "resolver \<Rightarrow> byte option list \<Rightarrow> int \<Rightarrow> nat \<Rightarrow> nat \<Rightarrow> srv list \<Rightarrow> srv list result" where
  "read_answers R answer alen 0 p svs = Inr svs"
| "read_answers R answer alen (Suc ancount) p svs =
     (if length svs < 10 then
        case dn_expand R answer alen p of (hlen, host) \<Rightarrow>
          if hlen < 0 then Inr svs
          else let p = p + nat hlen
            in rbind (get_short answer p) (\<lambda>atype.
               rbind (get_short answer (p + 8)) (\<lambda>len.
                 let p = p + 10
                 in if atype \<noteq> 33 then read_answers R answer alen ancount (p + unat len) svs
                 else
                   rbind (get_short answer p) (\<lambda>prio.
                   rbind (get_short answer (p + 2)) (\<lambda>weight.
                   rbind (get_short answer (p + 4)) (\<lambda>port.
                     case dn_expand R answer alen (p + 6) of (hlen, host) \<Rightarrow>
                       if hlen < 0 then Inr svs
                       else read_answers R answer alen ancount (p + 6 + nat hlen)
                              (svs @ [\<lparr>sv_host = host, sv_prio = prio, sv_port = port\<rparr>]))))))
      else Inr svs)"

section \<open>Writing the list\<close>

text \<open>The search for the lowest priority, from the index that was the last one.\<close>

definition lowest :: "u16 list \<Rightarrow> nat \<Rightarrow> nat" where
  "lowest prios low = fold (\<lambda>j low. if prios ! j < prios ! low then j else low) [0..<length prios] low"

definition pad5 :: "nat \<Rightarrow> string" where
  "pad5 n = (let s = dec n in replicate (5 - length s) (CHR ''0'') @ s)"

definition srv_line :: "bool \<Rightarrow> string \<Rightarrow> u16 \<Rightarrow> string" where
  "srv_line is_first host port =
     host @ '':'' @ (if is_first then pad5 (unat port) else dec (unat port)) @ [CHR 0x0A]"

text \<open>
  The loop over \<open>i\<close>, with \<open>n\<close> turns left.  \<open>svr\<close> are the names; one that has been freed is \<open>None\<close>,
  and to use it again is undefined.
\<close>

fun write_list ::
  "nat \<Rightarrow> string option list \<Rightarrow> u16 list \<Rightarrow> u16 list \<Rightarrow> nat \<Rightarrow> string option \<Rightarrow> string option result" where
  "write_list 0 svr prios ports low svr_list = Inr svr_list"
| "write_list (Suc n) svr prios ports low svr_list =
     (let low = lowest prios low
      in case svr ! low of
        None \<Rightarrow> Inl Undefined
      | Some host \<Rightarrow>
          write_list n (svr[low := None]) (prios[low := 0xffff]) ports low
            (Some (case svr_list of
                     None \<Rightarrow> srv_line True host (ports ! low)
                   | Some l \<Rightarrow> l @ srv_line False host (ports ! low))))"

definition dns_srv_list :: "resolver \<Rightarrow> string \<Rightarrow> string option result" where
  "dns_srv_list R hostname =
     (case res_search R hostname of (alen, bytes) \<Rightarrow>
        if alen < 0 then Inr None
        else let answer = take 1024 (map Some bytes @ replicate 1024 None)
          in rbind (get_short answer 4) (\<lambda>qdcount.
             rbind (get_short answer 6) (\<lambda>ancount.
               case skip_questions R answer alen (unat qdcount) 12 of
                 None \<Rightarrow> Inr None
               | Some p \<Rightarrow>
                   rbind (read_answers R answer alen (unat ancount) p []) (\<lambda>svs.
                     write_list (length svs) (map (Some \<circ> sv_host) svs) (map sv_prio svs) (map sv_port svs) 0 None))))"

text \<open>\<open>inet_addr\<close> and \<open>gethostbyname\<close> are parameters.\<close>

definition dns_resolve_name :: "(string \<Rightarrow> u32) \<Rightarrow> (string \<Rightarrow> u32 option) \<Rightarrow> string \<Rightarrow> u32" where
  "dns_resolve_name inet_addr gethostbyname hostname =
     (let ip = inet_addr hostname
      in if ip = 0xffffffff then (case gethostbyname hostname of Some a \<Rightarrow> a | None \<Rightarrow> ip) else ip)"

section \<open>The order of the list\<close>

text \<open>Of two servers the one with the smaller priority comes first, then the one with the smaller index.\<close>

definition before :: "u16 list \<Rightarrow> nat \<Rightarrow> nat \<Rightarrow> bool" where
  "before prios i j \<longleftrightarrow> prios ! i < prios ! j \<or> prios ! i = prios ! j \<and> i < j"

lemma lowest_upto:
  fixes prios :: "u16 list"
  assumes "k \<le> length prios" "m = fold (\<lambda>j low. if prios ! j < prios ! low then j else low) [0..<k] low"
  shows "(m = low \<or> m < k \<and> prios ! m < prios ! low) \<and> (\<forall>j < k. prios ! m \<le> prios ! j) \<and> prios ! m \<le> prios ! low \<and>
       (prios ! m < prios ! low \<longrightarrow> (\<forall>j < m. prios ! m < prios ! j))"
  using assms
proof (induction k arbitrary: m)
  case (Suc k)
  define l where "l = fold (\<lambda>j low. if prios ! j < prios ! low then j else low) [0..<k] low"
  have m: "m = (if prios ! k < prios ! l then k else l)" using Suc.prems(2) by (simp add: l_def)
  have ih: "l = low \<or> l < k \<and> prios ! l < prios ! low" "\<forall>j < k. prios ! l \<le> prios ! j" "prios ! l \<le> prios ! low"
    "prios ! l < prios ! low \<longrightarrow> (\<forall>j < l. prios ! l < prios ! j)"
    using Suc.IH [OF _ l_def] Suc.prems(1) by auto
  show ?case
  proof (cases "prios ! k < prios ! l")
    case True
    have "\<forall>j < k. prios ! k < prios ! j" using order.strict_trans2 [OF True] ih(2) by simp
    moreover have "prios ! k < prios ! low" by (rule order.strict_trans2 [OF True ih(3)])
    ultimately show ?thesis using True m by (simp add: less_Suc_eq order.strict_implies_order)
  next
    case False
    then have "m = l" "prios ! l \<le> prios ! k" using m by simp_all
    with ih show ?thesis by (simp add: less_Suc_eq) blast
  qed
qed simp

lemma u16_max: "(w :: u16) \<le> 0xffff"
proof -
  have "unat w < 65536" using unsigned_less [of w, where 'a = nat] by simp
  then show ?thesis by (simp add: word_le_nat_alt)
qed

text \<open>One turn picks the first of those that are left.\<close>

definition left_over :: "string option list \<Rightarrow> nat set" where
  "left_over svr = {i. i < length svr \<and> svr ! i \<noteq> None}"

lemma lowest_picks:
  assumes "length svr = length prios" "left_over svr \<noteq> {}" "low < length prios"
    and used: "\<forall>i < length prios. svr ! i = None \<longleftrightarrow> prios ! i = 0xffff" and "low = 0 \<or> prios ! low = 0xffff"
  shows "lowest prios low \<in> left_over svr \<and> (\<forall>i \<in> left_over svr. i \<noteq> lowest prios low \<longrightarrow> before prios (lowest prios low) i)"
proof -
  let ?m = "lowest prios low"
  note l = lowest_upto [OF order_refl lowest_def, of prios low]
  obtain i where i: "i < length prios" "svr ! i \<noteq> None" using assms(1,2) by (auto simp: left_over_def)
  have m: "?m < length prios" using l assms(3) by auto
  have "prios ! i < 0xffff" using i used u16_max [of "prios ! i"] by (simp add: order.strict_iff_order)
  moreover have "prios ! ?m \<le> prios ! i" using l i(1) by blast
  ultimately have lt: "prios ! ?m < 0xffff" by (rule order.strict_trans1 [rotated])
  then have in_left: "?m \<in> left_over svr" using used m assms(1) by (auto simp: left_over_def)
  have "before prios ?m j" if j: "j \<in> left_over svr" "j \<noteq> ?m" for j
  proof (cases "prios ! ?m < prios ! j")
    case False
    have "j < length prios" using j(1) assms(1) by (simp add: left_over_def)
    with l False have eq: "prios ! ?m = prios ! j" by (simp add: order.antisym not_less)
    have "?m < j"
    proof (cases "?m = low")
      case True
      with lt assms(5) have "?m = 0" by auto
      with j(2) show ?thesis by simp
    next
      case no: False
      with l have "\<forall>j < ?m. prios ! ?m < prios ! j" by blast
      with eq j(2) show ?thesis by (metis nat_neq_iff order.irrefl)
    qed
    with eq show ?thesis by (simp add: before_def)
  qed (simp add: before_def)
  with in_left show ?thesis by blast
qed

text \<open>The text of the servers with the given indices, in their order, behind what is there already.\<close>

definition srv_text :: "string option \<Rightarrow> (nat \<Rightarrow> string) \<Rightarrow> u16 list \<Rightarrow> nat list \<Rightarrow> string option" where
  "srv_text acc host ports es =
     (case (acc, es) of
        (Some l, _) \<Rightarrow> Some (l @ concat (map (\<lambda>i. srv_line False (host i) (ports ! i)) es))
      | (None, []) \<Rightarrow> None
      | (None, i # is) \<Rightarrow>
          Some (srv_line True (host i) (ports ! i) @ concat (map (\<lambda>i. srv_line False (host i) (ports ! i)) is)))"

lemma finite_left_over [simp]: "finite (left_over svr)"
  by (simp add: left_over_def)

lemma write_list_ordered:
  assumes "length svr = length prios" "\<forall>i < length prios. svr ! i = None \<longleftrightarrow> prios ! i = 0xffff"
    and "n = card (left_over svr)" "n = 0 \<or> low < length prios \<and> (low = 0 \<or> prios ! low = 0xffff)"
  shows "\<exists>es. distinct es \<and> set es = left_over svr \<and> sorted_wrt (before prios) es \<and>
    write_list n svr prios ports low acc = Inr (srv_text acc (\<lambda>i. the (svr ! i)) ports es)"
  using assms
proof (induction n arbitrary: svr prios low acc)
  case 0
  then have "left_over svr = {}" by simp
  then show ?case by (intro exI [of _ "[]"]) (cases acc; simp add: srv_text_def)
next
  case (Suc n)
  let ?m = "lowest prios low"
  have some: "left_over svr \<noteq> {}" using Suc.prems(3) by auto
  have low: "low < length prios" "low = 0 \<or> prios ! low = 0xffff" using Suc.prems(4) by simp_all
  from lowest_picks [OF Suc.prems(1) some low(1) Suc.prems(2) low(2)]
  have m: "?m \<in> left_over svr" "\<forall>i \<in> left_over svr. i \<noteq> ?m \<longrightarrow> before prios ?m i" by auto
  then have mlen: "?m < length svr" by (simp add: left_over_def)
  obtain host where host: "svr ! ?m = Some host" using m(1) by (auto simp: left_over_def)
  let ?svr = "svr[?m := None]" and ?prios = "prios[?m := 0xffff]"
  have rest: "left_over ?svr = left_over svr - {?m}" 
  proof (rule set_eqI)
    show "i \<in> left_over ?svr \<longleftrightarrow> i \<in> left_over svr - {?m}" for i
      by (cases "i = ?m") (simp_all add: left_over_def)
  qed
  have n: "n = card (left_over ?svr)" unfolding rest using Suc.prems(3) m(1) by simp
  have len: "length ?svr = length ?prios" using Suc.prems(1) by simp
  have used: "\<forall>i < length ?prios. ?svr ! i = None \<longleftrightarrow> ?prios ! i = 0xffff"
    using Suc.prems(1,2) mlen by (simp add: nth_list_update)
  have later: "n = 0 \<or> ?m < length ?prios \<and> (?m = 0 \<or> ?prios ! ?m = 0xffff)" using mlen Suc.prems(1) by simp
  let ?acc = "Some (case acc of None \<Rightarrow> srv_line True host (ports ! ?m) | Some l \<Rightarrow> l @ srv_line False host (ports ! ?m))"
  from Suc.IH [OF len used n later, of ?acc] obtain es
    where es: "distinct es" "set es = left_over ?svr" "sorted_wrt (before ?prios) es"
      "write_list n ?svr ?prios ports ?m ?acc = Inr (srv_text ?acc (\<lambda>i. the (?svr ! i)) ports es)" by blast
  have other: "i \<in> set es \<Longrightarrow> i \<noteq> ?m" for i using es(2) rest by auto
  have keep: "?prios ! i = prios ! i" if "i \<in> set es" for i
    using other [OF that] by (metis nth_list_update_neq)
  have keep2: "?svr ! i = svr ! i" if "i \<in> set es" for i
    using other [OF that] by (metis nth_list_update_neq)
  have "sorted_wrt (before prios) es"
    by (rule sorted_wrt_mono_rel [OF _ es(3)]) (simp add: before_def keep)
  moreover have "\<forall>i \<in> set es. before prios ?m i" using es(2) rest m(2) by auto
  ultimately have "sorted_wrt (before prios) (?m # es)" by simp
  moreover have "distinct (?m # es)" "set (?m # es) = left_over svr" using es(1,2) rest m(1) by auto
  moreover have "srv_text ?acc (\<lambda>i. the (?svr ! i)) ports es = srv_text acc (\<lambda>i. the (svr ! i)) ports (?m # es)"
  proof -
    have "map (\<lambda>i. srv_line False (the (?svr ! i)) (ports ! i)) es = map (\<lambda>i. srv_line False (the (svr ! i)) (ports ! i)) es"
      using keep2 by (intro map_cong) simp_all
    then show ?thesis using host unfolding srv_text_def by (cases acc) (simp_all del: map_eq_conv)
  qed
  ultimately show ?case using es(4) host by (intro exI [of _ "?m # es"]) (simp add: Let_def)
qed

section \<open>Property\<close>

text \<open>
  The list of servers.  When the answer holds servers whose priorities are below 65535, the
  list names each of them once, with its port, those with a smaller priority first, and those
  with the same one in the order of the answer.
\<close>

lemma servers_by_priority:
  assumes "res_search R hostname = (alen, bytes)" "0 \<le> alen" "answer = take 1024 (map Some bytes @ replicate 1024 None)"
    and "get_short answer 4 = Inr qdcount" "get_short answer 6 = Inr ancount"
    and "skip_questions R answer alen (unat qdcount) 12 = Some p"
    and "read_answers R answer alen (unat ancount) p [] = Inr svs" "\<forall>s \<in> set svs. sv_prio s \<noteq> 0xffff"
  shows "\<exists>es. distinct es \<and> set es = {0..<length svs} \<and> sorted_wrt (before (map sv_prio svs)) es \<and>
    dns_srv_list R hostname = Inr (srv_text None (\<lambda>i. map sv_host svs ! i) (map sv_port svs) es)"
proof -
  let ?svr = "map (Some \<circ> sv_host) svs" and ?prios = "map sv_prio svs"
  have all: "left_over ?svr = {0..<length svs}" by (auto simp: left_over_def)
  have used: "\<forall>i < length ?prios. ?svr ! i = None \<longleftrightarrow> ?prios ! i = 0xffff" using assms(8) by simp
  have "length svs = card (left_over ?svr)" "length svs = 0 \<or> 0 < length ?prios \<and> (0 = (0 :: nat) \<or> ?prios ! 0 = 0xffff)"
    unfolding all by simp_all
  from write_list_ordered [OF _ used this, of "map sv_port svs" None] obtain es
    where es: "distinct es" "set es = {0..<length svs}" "sorted_wrt (before ?prios) es"
      "write_list (length svs) ?svr ?prios (map sv_port svs) 0 None =
         Inr (srv_text None (\<lambda>i. the (?svr ! i)) (map sv_port svs) es)" unfolding all by auto
  have "srv_text None (\<lambda>i. the (?svr ! i)) (map sv_port svs) es = srv_text None (\<lambda>i. map sv_host svs ! i) (map sv_port svs) es"
  proof (cases es)
    case (Cons i js)
    then have "i < length svs" "\<forall>j \<in> set js. j < length svs" using es(2) by auto
    then show ?thesis by (auto simp: srv_text_def Cons intro!: arg_cong [where f = concat])
  qed (simp add: srv_text_def)
  moreover have "dns_srv_list R hostname = write_list (length svs) ?svr ?prios (map sv_port svs) 0 None"
  proof -
    have "(alen < 0) = False" using assms(2) by simp
    then show ?thesis
      by (simp only: dns_srv_list_def assms(1) prod.case Let_def assms(3) [symmetric] if_False rbind.simps assms(4-7) option.case)
  qed
  ultimately show ?thesis using es by (intro exI [of _ es]) simp
qed

text \<open>An answer with two servers; a name takes one byte.\<close>

definition two_servers :: resolver where
  "two_servers = \<lparr>res_search = (\<lambda>_. (46, [0, 0, 0, 0, 0, 0, 0, 2, 0, 0, 0, 0,
       1, 0, 33, 0, 1, 0, 0, 0, 0, 0, 7, 0, 9, 0, 0, 16, 1, 5,
       2, 0, 33, 0, 1, 0, 0, 0, 0, 0, 7, 0, 3, 0, 0, 16, 2, 5])),
     dn_skipname = (\<lambda>_ _ _. 1), dn_expand = (\<lambda>_ _ p. (1, if p = 12 \<or> p = 29 then ''a'' else ''b''))\<rparr>"

lemma servers_by_priority_witness:
  "dns_srv_list two_servers ''x'' = Inr (Some (''b:04098'' @ [CHR 0x0A] @ ''a:4097'' @ [CHR 0x0A]))"
proof -
  let ?bytes = "snd (res_search two_servers ''x'')"
  let ?answer = "take 1024 (map Some ?bytes @ replicate 1024 None)"
  let ?svs = "[\<lparr>sv_host = ''a'', sv_prio = 9, sv_port = 0x1001\<rparr>, \<lparr>sv_host = ''b'', sv_prio = 3, sv_port = 0x1002\<rparr>]"
  have s: "res_search two_servers ''x'' = (46, ?bytes)" by (simp add: two_servers_def)
  have q: "get_short ?answer 4 = Inr 0" "get_short ?answer 6 = Inr 2"
    by (simp_all add: two_servers_def get_short_def get_u16_def)
  have k: "skip_questions two_servers ?answer 46 (unat (0 :: u16)) 12 = Some 12" by simp
  have two: "unat (2 :: u16) = Suc (Suc 0)" by simp
  have r: "read_answers two_servers ?answer 46 (unat (2 :: u16)) 12 [] = Inr ?svs"
    unfolding two by (simp add: two_servers_def get_short_def get_u16_def)
  from servers_by_priority [OF s _ refl q k r] obtain es
    where es: "distinct es" "set es = {0..<length ?svs}" "sorted_wrt (before (map sv_prio ?svs)) es"
      "dns_srv_list two_servers ''x'' = Inr (srv_text None (\<lambda>i. map sv_host ?svs ! i) (map sv_port ?svs) es)"
    by auto
  have "{0..<length ?svs} = {0, 1}" by (simp add: atLeast0_lessThan_Suc insert_commute)
  with es(2) have st: "set es = {0, 1}" by (simp only:)
  with es(1) have "length es = 2" by (metis card_2_iff distinct_card zero_neq_one)
  then obtain a b where ab: "es = [a, b]" by (auto simp: numeral_2_eq_2 length_Suc_conv)
  with st es(3) have "a = 1 \<and> b = 0" by (auto simp: before_def doubleton_eq_iff)
  with ab have "es = [1, 0]" by simp
  moreover have "dec 4097 = ''4097''" "dec 4098 = ''4098''"
    by (simp_all add: dec.simps char_of_def bit_numeral_rec bit_0)
  ultimately show ?thesis using es(4) by (simp add: srv_text_def srv_line_def pad5_def)
qed

end
