(* ===== verification/Events.thy ===== *)
theory Events
  imports Prelude
begin

text \<open>
  The event loop of the text client: \<^verbatim>\<open>src/src/clients/despotify/event.c\<close>, and what
  \<^verbatim>\<open>main.c\<close> registers in it.  Events are cells of a heap, linked by the addresses in \<open>e_next\<close> and
  \<open>e_stack\<close>; to follow an address whose cell has been freed is \<open>Undefined\<close>.  Loops along the links
  need not end, so they are partial functions: \<open>None\<close> is a loop that runs for ever.

  Proved here: on a list without stacked events, which is what the functions of the file build, the
  sweep at the end of a round is a filter of the list; messages reach every subscriber in order;
  unregistering loses what is in front; a delayed event ends in undefined behaviour; the client's
  own loop runs until it is told to quit, and then returns.
\<close>

section \<open>Events\<close>

definition EV_RUN :: u32 where "EV_RUN = 1"
definition EV_RUN_FAIL :: u32 where "EV_RUN_FAIL = 2"
definition EV_MSG :: u32 where "EV_MSG = 4"
definition EV_MSG_FAIL :: u32 where "EV_MSG_FAIL = 8"
definition EV_FD :: u32 where "EV_FD = 16"
definition EV_FD_FAIL :: u32 where "EV_FD_FAIL = 32"
definition EV_IDLE :: u32 where "EV_IDLE = 64"
definition EV_DONE :: u32 where "EV_DONE = 128"
definition EV_DELAY :: u32 where "EV_DELAY = 256"

text \<open>\<open>'v\<close> is what a \<open>void *\<close> leads to, \<open>'cb\<close> a callback function.\<close>

record 'v event_msg =
  m_class :: u32
  m_msg :: int
  m_data :: "'v option"

text \<open>\<open>delay_until\<close> is not set by the registration.\<close>

record ('cb, 'v) event =
  e_callback :: 'cb
  e_private :: "'v option"
  e_state :: int
  e_fd :: int
  e_msg :: "'v event_msg option"
  e_delay_until :: "int option"
  e_filter :: u32
  e_flags :: u32
  e_stack :: "nat option"
  e_next :: "nat option"

text \<open>The variables of the file, the memory, and the time of day, which goes on during calls.\<close>

record ('cb, 'v) events =
  heap :: "nat \<Rightarrow> ('cb, 'v) event option"
  fresh :: nat
  evhead :: "nat option"
  msgs :: "'v event_msg list"
  clock :: int

text \<open>
  What the file calls: the callbacks, given the address of their event and the kind of call, and
  \<open>select\<close>, given the number of descriptors, their set and the microseconds to wait; it returns its
  result, the readable descriptors and whether \<open>errno\<close> is \<open>EINTR\<close>.
\<close>

record ('cb, 'v) sys =
  run :: "'cb \<Rightarrow> nat \<Rightarrow> u32 \<Rightarrow> ('cb, 'v) events \<Rightarrow> (int \<times> ('cb, 'v) events) result"
  select :: "int \<Rightarrow> int list \<Rightarrow> nat \<Rightarrow> ('cb, 'v) events \<Rightarrow> (int \<times> int list \<times> bool) \<times> ('cb, 'v) events"

text \<open>A loop that may not end, with a result that may be a fault.\<close>

definition obind :: "'a result option \<Rightarrow> ('a \<Rightarrow> 'b result option) \<Rightarrow> 'b result option" where
  "obind x f = Option.bind x (\<lambda>r. case r of Inl e \<Rightarrow> Some (Inl e) | Inr a \<Rightarrow> f a)"

lemma obind_simps [simp]:
  "obind None f = None" "obind (Some (Inl e)) f = Some (Inl e)" "obind (Some (Inr a)) f = f a"
  by (simp_all add: obind_def)

lemma obind_mono [partial_function_mono]:
  assumes "mono_option B" "\<And>y. mono_option (C y)"
  shows "mono_option (\<lambda>f. obind (B f) (\<lambda>y. C y f))"
  unfolding obind_def
proof (rule bind_mono [OF assms(1)])
  show "mono_option (\<lambda>f. case y of Inl e \<Rightarrow> Some (Inl e) | Inr a \<Rightarrow> C a f)" for y
    using assms(2) by (cases y) (simp_all add: monotone_def flat_ord_def)
qed

text \<open>Following a pointer, and writing through one.\<close>

definition deref :: "nat option \<Rightarrow> ('cb, 'v) events \<Rightarrow> ('cb, 'v) event result" where
  "deref p s = (case p of None \<Rightarrow> Inl Null_Deref | Some a \<Rightarrow> (case heap s a of None \<Rightarrow> Inl Undefined | Some e \<Rightarrow> Inr e))"

definition put :: "nat \<Rightarrow> (('cb, 'v) event \<Rightarrow> ('cb, 'v) event) \<Rightarrow> ('cb, 'v) events \<Rightarrow> ('cb, 'v) events result" where
  "put a f s = rbind (deref (Some a) s) (\<lambda>e. Inr (s\<lparr>heap := (heap s)(a \<mapsto> f e)\<rparr>))"

definition free_event :: "nat \<Rightarrow> ('cb, 'v) events \<Rightarrow> ('cb, 'v) events" where
  "free_event a s = s\<lparr>heap := (heap s)(a := None)\<rparr>"

section \<open>Registering\<close>

partial_function (option) last_event :: "('cb, 'v) events \<Rightarrow> nat \<Rightarrow> nat result option" where
  "last_event s a =
     obind (Some (deref (Some a) s)) (\<lambda>e. case e_next e of None \<Rightarrow> Some (Inr a) | Some b \<Rightarrow> last_event s b)"

text \<open>
  \<open>head\<close> decides where the search for the end of the list starts, and nothing else.  The new cell
  is at an address that was never used.
\<close>

definition event_register_action ::
  "nat option \<Rightarrow> u32 \<Rightarrow> 'cb \<Rightarrow> 'v option \<Rightarrow> ('cb, 'v) events \<Rightarrow> (nat \<times> ('cb, 'v) events) result option" where
  "event_register_action head flags cb priv s =
     (let a = fresh s;
          cell = \<lparr>e_callback = cb, e_private = priv, e_state = 0, e_fd = -1, e_msg = None, e_delay_until = None,
                  e_filter = 0, e_flags = flags, e_stack = None, e_next = None\<rparr>;
          s = s\<lparr>fresh := a + 1\<rparr>
      in case (case head of None \<Rightarrow> evhead s | Some h \<Rightarrow> Some h) of
           None \<Rightarrow> Some (Inr (a, s\<lparr>heap := (heap s)(a \<mapsto> cell), evhead := Some a\<rparr>))
         | Some h \<Rightarrow>
             obind (last_event s h) (\<lambda>l.
             obind (Some (put l (\<lambda>e. e\<lparr>e_next := Some a\<rparr>) s)) (\<lambda>s.
               Some (Inr (a, s\<lparr>heap := (heap s)(a \<mapsto> cell)\<rparr>)))))"

section \<open>Unregistering\<close>

text \<open>\<open>EVENT **\<close>: the address of \<open>evhead\<close>, or of the \<open>stack\<close> of an event.\<close>

datatype place = Head | Stack nat

fun read_place :: "place \<Rightarrow> ('cb, 'v) events \<Rightarrow> nat option result" where
  "read_place Head s = Inr (evhead s)"
| "read_place (Stack a) s = rbind (deref (Some a) s) (\<lambda>e. Inr (e_stack e))"

fun write_place :: "place \<Rightarrow> nat option \<Rightarrow> ('cb, 'v) events \<Rightarrow> ('cb, 'v) events result" where
  "write_place Head p s = Inr (s\<lparr>evhead := p\<rparr>)"
| "write_place (Stack a) p s = put a (\<lambda>e. e\<lparr>e_stack := p\<rparr>) s"

text \<open>The event whose \<open>next\<close> is \<open>bad\<close>, if the walk meets it.\<close>

partial_function (option) event_before :: "('cb, 'v) events \<Rightarrow> nat option \<Rightarrow> nat \<Rightarrow> nat option result option" where
  "event_before s p bad =
     obind (Some (deref p s)) (\<lambda>e.
       case e_next e of
         None \<Rightarrow> Some (Inr None)
       | Some b \<Rightarrow> if b = bad then Some (Inr p) else event_before s (Some b) bad)"

text \<open>
  Two functions that call each other: with a place, \<open>event_unregister_action\<close>; with none, the loop
  that unregisters whatever is on the stack of \<open>bad\<close>.
\<close>

partial_function (option) unregister :: "place option \<Rightarrow> nat \<Rightarrow> ('cb, 'v) events \<Rightarrow> ('cb, 'v) events result option" where
  "unregister where bad s =
     (case where of
        None \<Rightarrow>
          obind (Some (deref (Some bad) s)) (\<lambda>b.
            case e_stack b of
              None \<Rightarrow> Some (Inr s)
            | Some t \<Rightarrow> obind (unregister (Some (Stack bad)) t s) (\<lambda>s. unregister None bad s))
      | Some place \<Rightarrow>
          obind (Some (read_place place s)) (\<lambda>h.
          obind (event_before s h bad) (\<lambda>p.
          obind (case p of
                   None \<Rightarrow> Some (Inr s)
                 | Some e \<Rightarrow>
                     obind (unregister None bad s) (\<lambda>s.
                     obind (Some (deref (Some bad) s)) (\<lambda>b.
                       Some (put e (\<lambda>e. e\<lparr>e_next := e_next b\<rparr>) s)))) (\<lambda>s.
          obind (Some (deref (Some bad) s)) (\<lambda>b.
          obind (Some (write_place place (e_next b) s)) (\<lambda>s.
            Some (Inr (free_event bad s))))))))"

definition event_unregister_action :: "place option \<Rightarrow> nat \<Rightarrow> ('cb, 'v) events \<Rightarrow> ('cb, 'v) events result option" where
  "event_unregister_action head bad s = unregister (Some (case head of None \<Rightarrow> Head | Some p \<Rightarrow> p)) bad s"

section \<open>File descriptors, flags and messages\<close>

definition event_register_fd :: "nat \<Rightarrow> int \<Rightarrow> ('cb, 'v) events \<Rightarrow> (int \<times> ('cb, 'v) events) result" where
  "event_register_fd a fd s =
     rbind (deref (Some a) s) (\<lambda>e.
       let flags = (if e_flags e AND EV_FD_FAIL \<noteq> 0 then e_flags e AND NOT (EV_FD OR EV_FD_FAIL) else e_flags e)
       in if flags AND EV_FD \<noteq> 0 then rbind (put a (\<lambda>e. e\<lparr>e_flags := flags\<rparr>) s) (\<lambda>s. Inr (-1, s))
          else rbind (put a (\<lambda>e. e\<lparr>e_fd := fd, e_flags := flags OR EV_FD\<rparr>) s) (\<lambda>s. Inr (0, s)))"

definition event_unregister_fd :: "nat \<Rightarrow> ('cb, 'v) events \<Rightarrow> ('cb, 'v) events result" where
  "event_unregister_fd a = put a (\<lambda>e. e\<lparr>e_fd := 0, e_flags := e_flags e AND NOT EV_FD\<rparr>)"

definition event_mark_done :: "nat \<Rightarrow> ('cb, 'v) events \<Rightarrow> ('cb, 'v) events result" where
  "event_mark_done a = put a (\<lambda>e. e\<lparr>e_flags := e_flags e OR EV_DONE\<rparr>)"

definition event_mark_idle :: "nat \<Rightarrow> ('cb, 'v) events \<Rightarrow> ('cb, 'v) events result" where
  "event_mark_idle a = put a (\<lambda>e. e\<lparr>e_flags := e_flags e OR EV_IDLE\<rparr>)"

definition event_mark_busy :: "nat \<Rightarrow> ('cb, 'v) events \<Rightarrow> ('cb, 'v) events result" where
  "event_mark_busy a = put a (\<lambda>e. e\<lparr>e_flags := e_flags e AND NOT EV_IDLE\<rparr>)"

definition event_delay :: "nat \<Rightarrow> int \<Rightarrow> ('cb, 'v) events \<Rightarrow> ('cb, 'v) events result" where
  "event_delay a seconds s =
     put a (\<lambda>e. e\<lparr>e_delay_until := Some (clock s + seconds), e_flags := e_flags e OR EV_DELAY\<rparr>) s"

definition event_msg_subscription_class_set :: "nat \<Rightarrow> u32 \<Rightarrow> ('cb, 'v) events \<Rightarrow> ('cb, 'v) events result" where
  "event_msg_subscription_class_set a cl = put a (\<lambda>e. e\<lparr>e_filter := cl\<rparr>)"

definition event_msg_post :: "u32 \<Rightarrow> int \<Rightarrow> 'v option \<Rightarrow> ('cb, 'v) events \<Rightarrow> int \<times> ('cb, 'v) events" where
  "event_msg_post cl m d s = (0, s\<lparr>msgs := msgs s @ [\<lparr>m_class = cl, m_msg = m, m_data = d\<rparr>]\<rparr>)"

section \<open>Running the callbacks\<close>

text \<open>
  The set of descriptors, and the largest.  \<open>tv\<close> is never set, so an event that is delayed is
  compared with nothing.  A descriptor outside of the set is written behind the array.
\<close>

partial_function (option) event_fd_add_to_set ::
  "('cb, 'v) events \<Rightarrow> int list \<Rightarrow> int \<Rightarrow> nat option \<Rightarrow> (int \<times> int list) result option" where
  "event_fd_add_to_set s fds max_fd p =
     (case p of
        None \<Rightarrow> Some (Inr (max_fd, fds))
      | Some a \<Rightarrow>
          obind (Some (deref (Some a) s)) (\<lambda>e.
            if e_flags e AND EV_DELAY \<noteq> 0 then Some (Inl Uninit)
            else if e_fd e \<noteq> -1 \<and> (e_fd e < 0 \<or> 1024 \<le> e_fd e) then Some (Inl Out_Of_Bounds)
            else
              let fds = (if e_fd e \<noteq> -1 then e_fd e # fds else fds);
                  max_fd = (if e_fd e \<noteq> -1 then max max_fd (e_fd e) else max_fd)
              in obind (case e_stack e of
                          None \<Rightarrow> Some (Inr (max_fd, fds))
                        | Some t \<Rightarrow> obind (event_fd_add_to_set s fds 0 (Some t)) (\<lambda>(r, fds). Some (Inr (max max_fd r, fds))))
                   (\<lambda>(max_fd, fds). event_fd_add_to_set s fds max_fd (e_next e))))"

text \<open>One call of a callback, and the flag for its failure, written through the pointer it was called with.\<close>

definition call ::
  "('cb, 'v) sys \<Rightarrow> nat \<Rightarrow> u32 \<Rightarrow> u32 \<Rightarrow> ('cb, 'v) events \<Rightarrow> ('cb, 'v) events result" where
  "call S a kind fail s =
     rbind (deref (Some a) s) (\<lambda>e.
     rbind (run S (e_callback e) a kind s) (\<lambda>(r, s).
       if r \<noteq> 0 then put a (\<lambda>e. e\<lparr>e_flags := e_flags e OR fail\<rparr>) s else Inr s))"

partial_function (option) event_fd_callbacks_run ::
  "('cb, 'v) sys \<Rightarrow> int list \<Rightarrow> nat option \<Rightarrow> ('cb, 'v) events \<Rightarrow> ('cb, 'v) events result option" where
  "event_fd_callbacks_run S fds p s =
     (case p of
        None \<Rightarrow> Some (Inr s)
      | Some a \<Rightarrow>
          obind (Some (deref (Some a) s)) (\<lambda>e.
          obind (Some (if e_fd e \<noteq> -1 \<and> (e_fd e < 0 \<or> 1024 \<le> e_fd e) then Inl Out_Of_Bounds
                       else if e_fd e \<noteq> -1 \<and> e_fd e \<in> set fds
                       then rbind (put a (\<lambda>e. e\<lparr>e_flags := e_flags e AND NOT EV_IDLE\<rparr>) s) (call S a EV_FD EV_FD_FAIL)
                       else Inr s)) (\<lambda>s.
          obind (Some (deref (Some a) s)) (\<lambda>e.
          obind (case e_stack e of None \<Rightarrow> Some (Inr s) | Some t \<Rightarrow> event_fd_callbacks_run S fds (Some t) s) (\<lambda>s.
          obind (Some (deref (Some a) s)) (\<lambda>e.
            event_fd_callbacks_run S fds (e_next e) s))))))"

text \<open>\<open>now\<close> is the time at the start; a delay that has never been set is \<open>Uninit\<close>.\<close>

partial_function (option) callbacks_loop ::
  "('cb, 'v) sys \<Rightarrow> int \<Rightarrow> nat \<Rightarrow> nat option \<Rightarrow> ('cb, 'v) events \<Rightarrow> (nat \<times> ('cb, 'v) events) result option" where
  "callbacks_loop S tv busy p s =
     (case p of
        None \<Rightarrow> Some (Inr (busy, s))
      | Some a \<Rightarrow>
          obind (Some (deref (Some a) s)) (\<lambda>e.
            if e_flags e AND EV_DELAY \<noteq> 0 \<and> e_delay_until e = None then Some (Inl Uninit)
            else if e_flags e AND EV_DELAY \<noteq> 0 \<and> tv < the (e_delay_until e) then callbacks_loop S tv busy (e_next e) s
            else
              obind (Some (put a (\<lambda>e. e\<lparr>e_flags := e_flags e AND NOT EV_DELAY\<rparr>) s)) (\<lambda>s.
                if e_flags e AND EV_IDLE \<noteq> 0 then callbacks_loop S tv busy (e_next e) s
                else
                  obind (Some (call S a EV_RUN EV_RUN_FAIL s)) (\<lambda>s.
                  obind (Some (deref (Some a) s)) (\<lambda>e.
                    callbacks_loop S tv (if e_flags e AND EV_IDLE = 0 then busy + 1 else busy) (e_next e) s)))))"

definition event_callbacks_run ::
  "('cb, 'v) sys \<Rightarrow> nat option \<Rightarrow> ('cb, 'v) events \<Rightarrow> (nat \<times> ('cb, 'v) events) result option" where
  "event_callbacks_run S p s = callbacks_loop S (clock s) 0 p s"

partial_function (option) event_msg_deliver ::
  "('cb, 'v) sys \<Rightarrow> 'v event_msg \<Rightarrow> nat option \<Rightarrow> ('cb, 'v) events \<Rightarrow> ('cb, 'v) events result option" where
  "event_msg_deliver S m p s =
     (case p of
        None \<Rightarrow> Some (Inr s)
      | Some a \<Rightarrow>
          obind (Some (deref (Some a) s)) (\<lambda>e.
            if e_filter e AND m_class m = 0 then event_msg_deliver S m (e_next e) s
            else
              obind (Some (put a (\<lambda>e. e\<lparr>e_msg := Some m\<rparr>) s)) (\<lambda>s.
              obind (Some (call S a EV_MSG EV_MSG_FAIL s)) (\<lambda>s.
              obind (Some (put a (\<lambda>e. e\<lparr>e_msg := None\<rparr>) s)) (\<lambda>s.
              obind (Some (deref (Some a) s)) (\<lambda>e.
                event_msg_deliver S m (e_next e) s))))))"

text \<open>The loop over the queue, which also sees what is posted on the way.\<close>

partial_function (option) deliver_messages ::
  "('cb, 'v) sys \<Rightarrow> nat \<Rightarrow> ('cb, 'v) events \<Rightarrow> ('cb, 'v) events result option" where
  "deliver_messages S i s =
     (if i < length (msgs s)
      then obind (event_msg_deliver S (msgs s ! i) (evhead s) s) (\<lambda>s. deliver_messages S (i + 1) s)
      else Some (Inr s))"

section \<open>The loop\<close>

text \<open>
  Taking out \<open>e\<close>: \<open>p\<close> is what follows in its place, and the walk goes on behind \<open>prev\<close>.  Without a
  \<open>prev\<close>, \<open>p\<close> becomes the head, and the walk goes on behind it.  The result is the new \<open>prev\<close>, and
  none when the list is empty.
\<close>

definition take_out :: "nat option \<Rightarrow> nat \<Rightarrow> nat option \<Rightarrow> ('cb, 'v) events \<Rightarrow> (nat option \<times> ('cb, 'v) events) result" where
  "take_out prev a p s =
     (case prev of
        Some q \<Rightarrow> rbind (put q (\<lambda>e. e\<lparr>e_next := p\<rparr>) s) (\<lambda>s. Inr (prev, free_event a s))
      | None \<Rightarrow> Inr (p, free_event a (s\<lparr>evhead := p\<rparr>)))"

text \<open>
  An event that is done is replaced by the first on its stack, which is linked to what follows; the
  others on the stack are not handed on.
\<close>

definition replace_done :: "nat option \<Rightarrow> nat \<Rightarrow> ('cb, 'v) events \<Rightarrow> (nat option \<times> ('cb, 'v) events) result" where
  "replace_done prev a s =
     rbind (deref (Some a) s) (\<lambda>e.
       case e_stack e of
         None \<Rightarrow> take_out prev a (e_next e) s
       | Some t \<Rightarrow>
           rbind (deref (Some t) s) (\<lambda>te.
           rbind (put a (\<lambda>e. e\<lparr>e_stack := e_next te\<rparr>) s) (\<lambda>s.
           rbind (put t (\<lambda>te. te\<lparr>e_next := e_next e\<rparr>) s) (\<lambda>s.
             take_out prev a (Some t) s))))"

partial_function (option) sweep ::
  "nat option \<Rightarrow> nat option \<Rightarrow> ('cb, 'v) events \<Rightarrow> ('cb, 'v) events result option" where
  "sweep prev p s =
     (case p of
        None \<Rightarrow> Some (Inr s)
      | Some a \<Rightarrow>
          obind (Some (deref (Some a) s)) (\<lambda>e.
            if e_flags e AND (EV_DONE OR EV_RUN_FAIL OR EV_FD_FAIL) = 0 then sweep (Some a) (e_next e) s
            else
              obind (if e_flags e AND EV_DONE \<noteq> 0 then Some (replace_done prev a s)
                     else obind (unregister None a s) (\<lambda>s.
                            obind (Some (deref (Some a) s)) (\<lambda>e. Some (take_out prev a (e_next e) s)))) (\<lambda>(prev, s).
                case prev of
                  None \<Rightarrow> Some (Inr s)
                | Some q \<Rightarrow> obind (Some (deref (Some q) s)) (\<lambda>e. sweep prev (e_next e) s))))"

text \<open>One round; the number is what the loop returns when it ends in this round.\<close>

definition event_round :: "('cb, 'v) sys \<Rightarrow> ('cb, 'v) events \<Rightarrow> (int option \<times> ('cb, 'v) events) result option" where
  "event_round S s =
     (if evhead s = None then Some (Inr (Some 0, s))
      else
        obind (event_callbacks_run S (evhead s) s) (\<lambda>(busy, s).
        let usec = (if busy = 0 \<and> msgs s = [] then 200 * 1000 else 0) in
        obind (event_fd_add_to_set s [] 0 (evhead s)) (\<lambda>(n, fds).
        obind (Some (deref (evhead s) s)) (\<lambda>e.
        let ((ret, ready, eintr), s) = (if e_flags e AND EV_FD \<noteq> 0 then select S (n + 1) fds usec s else ((0, [], False), s))
        in if ret < 0 then Some (Inr (if eintr then None else Some ret, s))
           else
             obind (if ret \<noteq> 0 then event_fd_callbacks_run S ready (evhead s) s else Some (Inr s)) (\<lambda>s.
             obind (deliver_messages S 0 s) (\<lambda>s.
             let s = s\<lparr>msgs := []\<rparr> in
             obind (sweep None (evhead s) s) (\<lambda>s.
               Some (Inr (None, s)))))))))"

partial_function (option) event_loop ::
  "('cb, 'v) sys \<Rightarrow> int \<Rightarrow> ('cb, 'v) events \<Rightarrow> (int \<times> ('cb, 'v) events) result option" where
  "event_loop S loop_counter s =
     (if loop_counter = 0 then Some (Inr (0, s))
      else
        obind (event_round S s) (\<lambda>(r, s).
          case r of
            Some ret \<Rightarrow> Some (Inr (ret, s))
          | None \<Rightarrow> event_loop S (if loop_counter = -1 then -1 else loop_counter - 1) s))"

section \<open>The client's event\<close>

definition MSG_CLASS_APP :: u32 where "MSG_CLASS_APP = 1"
definition MSG_APP_QUIT :: int where "MSG_APP_QUIT = 1"
definition MSG_APP_UPDATE :: int where "MSG_APP_UPDATE = 2"
definition MSG_APP_REDRAW :: int where "MSG_APP_REDRAW = 3"

text \<open>
  The screen and the keyboard: updating, balancing, reading a key (none is an error, which ends the
  program), and what is done with a key that is not one of the two special ones.
\<close>

record ('cb, 'v) screen =
  ui_update :: "('cb, 'v) events \<Rightarrow> ('cb, 'v) events"
  ui_balance :: "('cb, 'v) events \<Rightarrow> ('cb, 'v) events"
  get_wch :: "('cb, 'v) events \<Rightarrow> (nat \<times> bool) option \<times> ('cb, 'v) events"
  other_key :: "nat \<Rightarrow> bool \<Rightarrow> ('cb, 'v) events \<Rightarrow> ('cb, 'v) events"

definition ui_keypress :: "('cb, 'v) screen \<Rightarrow> nat \<Rightarrow> bool \<Rightarrow> ('cb, 'v) events \<Rightarrow> ('cb, 'v) events" where
  "ui_keypress U ch code s =
     (if ch = 17 then snd (event_msg_post MSG_CLASS_APP MSG_APP_QUIT None s)
      else if ch = 12 then snd (event_msg_post MSG_CLASS_APP MSG_APP_REDRAW None s)
      else other_key U ch code s)"

definition event_handler ::
  "('cb, 'v) screen \<Rightarrow> nat \<Rightarrow> u32 \<Rightarrow> ('cb, 'v) events \<Rightarrow> (int \<times> ('cb, 'v) events) result" where
  "event_handler U a kind s =
     rbind (deref (Some a) s) (\<lambda>e.
     rbind (if kind = EV_MSG then (case e_msg e of None \<Rightarrow> Inl Null_Deref | Some m \<Rightarrow> Inr (m_class m = MSG_CLASS_APP)) else Inr False) (\<lambda>app.
       if app then
         rbind (if m_msg (the (e_msg e)) = MSG_APP_QUIT then rbind (event_unregister_fd a s) (event_mark_done a)
                else if m_msg (the (e_msg e)) = MSG_APP_UPDATE then Inr (ui_update U s)
                else if m_msg (the (e_msg e)) = MSG_APP_REDRAW then Inr (ui_balance U s)
                else Inr s) (\<lambda>s. Inr (0, s))
       else if kind = EV_FD then
         (case get_wch U s of
            (None, s) \<Rightarrow> Inl (Process_Exit 134)
          | (Some (ch, code), s) \<Rightarrow> rbind (event_mark_idle a (ui_keypress U ch code s)) (\<lambda>s. Inr (0, s)))
       else Inr (0, s)))"

text \<open>What \<open>main\<close> registers: the keyboard, on descriptor 0, and the messages of the program.\<close>

definition main_event :: "'cb \<Rightarrow> ('cb, 'v) events \<Rightarrow> ('cb, 'v) events result option" where
  "main_event handler s =
     obind (event_register_action None 0 handler None s) (\<lambda>(a, s).
     obind (Some (event_msg_subscription_class_set a MSG_CLASS_APP s)) (\<lambda>s.
     obind (Some (event_register_fd a 0 s)) (\<lambda>(_, s).
       Some (event_mark_idle a s))))"

section \<open>The list in memory\<close>

text \<open>From \<open>p\<close> the links lead over the events \<open>as\<close> to \<open>q\<close>.\<close>

primrec chain :: "(nat \<Rightarrow> ('cb, 'v) event option) \<Rightarrow> nat option \<Rightarrow> nat list \<Rightarrow> nat option \<Rightarrow> bool" where
  "chain h p [] q \<longleftrightarrow> p = q"
| "chain h p (a # as) q \<longleftrightarrow> p = Some a \<and> (\<exists>e. h a = Some e \<and> chain h (e_next e) as q)"

lemma chain_append: "chain h p (as @ bs) q \<longleftrightarrow> (\<exists>r. chain h p as r \<and> chain h r bs q)"
  by (induction as arbitrary: p) auto

lemma chain_cong: "(\<And>a. a \<in> set as \<Longrightarrow> h a = h' a) \<Longrightarrow> chain h p as q = chain h' p as q"
  by (induction as arbitrary: p) auto

lemma chain_upd [simp]: "b \<notin> set as \<Longrightarrow> chain (h(b := x)) p as q = chain h p as q"
  by (rule chain_cong) auto

lemma chain_None [simp]: "chain h None as None \<longleftrightarrow> as = []"
  by (cases as) simp_all

lemma chain_unique: "chain h p as None \<Longrightarrow> chain h p bs None \<Longrightarrow> as = bs"
proof (induction as arbitrary: p bs)
  case (Cons a as)
  then show ?case by (cases bs) auto
qed simp

lemma chain_allocated: "chain h p as q \<Longrightarrow> a \<in> set as \<Longrightarrow> h a \<noteq> None"
  by (induction as arbitrary: p) auto

lemma chain_distinct: "chain h p as None \<Longrightarrow> distinct as"
proof (induction as arbitrary: p)
  case (Cons a as)
  then obtain e where e: "h a = Some e" "chain h (e_next e) as None" by auto
  have "a \<notin> set as"
  proof
    assume "a \<in> set as"
    then obtain xs ys where as: "as = xs @ a # ys" by (auto simp: in_set_conv_decomp)
    then have "chain h (e_next e) ys None" using e by (auto simp: chain_append)
    with e(2) chain_unique have "as = ys" by blast
    then have "length as = length ys" by simp
    with as show False by simp
  qed
  with Cons.IH [OF e(2)] show ?case by simp
qed simp

lemma deref_Some [simp]: "heap s a = Some e \<Longrightarrow> deref (Some a) s = Inr e"
  by (simp add: deref_def)

lemma put_Some [simp]: "heap s a = Some e \<Longrightarrow> put a f s = Inr (s\<lparr>heap := (heap s)(a \<mapsto> f e)\<rparr>)"
  by (simp add: put_def)

lemma last_event_chain:
  "chain (heap s) (Some a) (as @ [b]) None \<Longrightarrow> last_event s a = Some (Inr b)"
proof (induction as arbitrary: a)
  case Nil
  then show ?case by (auto simp: last_event.simps [of s b])
next
  case (Cons c as)
  then obtain e where e: "c = a" "heap s a = Some e" "chain (heap s) (e_next e) (as @ [b]) None" by auto
  then obtain d where "e_next e = Some d" by (cases as) auto
  with e Cons.IH [of d] show ?case by (simp add: last_event.simps [of s a])
qed

text \<open>No event has anything on its stack.\<close>

definition stackless :: "('cb, 'v) events \<Rightarrow> bool" where
  "stackless s \<longleftrightarrow> (\<forall>a e. heap s a = Some e \<longrightarrow> e_stack e = None)"

definition condemned :: "('cb, 'v) events \<Rightarrow> nat \<Rightarrow> bool" where
  "condemned s a \<longleftrightarrow> (\<exists>e. heap s a = Some e \<and> e_flags e AND (EV_DONE OR EV_RUN_FAIL OR EV_FD_FAIL) \<noteq> 0)"

text \<open>What is left of a list: of a condemned first event the next takes the place, and stays this time.\<close>

definition swept :: "(nat \<Rightarrow> bool) \<Rightarrow> nat list \<Rightarrow> nat list" where
  "swept bad as =
     (case as of
        [] \<Rightarrow> []
      | a # as \<Rightarrow>
          if bad a then (case as of [] \<Rightarrow> [] | b # bs \<Rightarrow> b # filter (\<lambda>x. \<not> bad x) bs)
          else a # filter (\<lambda>x. \<not> bad x) as)"

text \<open>Between two states: the events \<open>kept\<close> have changed in their links at most, those \<open>gone\<close> are freed.\<close>

definition relinked :: "('cb, 'v) events \<Rightarrow> ('cb, 'v) events \<Rightarrow> nat set \<Rightarrow> nat set \<Rightarrow> bool" where
  "relinked s s' kept gone \<longleftrightarrow>
     (\<forall>a \<in> kept. \<exists>e n. heap s a = Some e \<and> heap s' a = Some (e\<lparr>e_next := n\<rparr>)) \<and>
     (\<forall>a \<in> gone. heap s' a = None) \<and> (\<forall>a. a \<notin> kept \<union> gone \<longrightarrow> heap s' a = heap s a) \<and>
     msgs s' = msgs s \<and> clock s' = clock s \<and> fresh s' = fresh s"

lemma unregister_nothing:
  "heap s a = Some e \<Longrightarrow> e_stack e = None \<Longrightarrow> unregister None a s = Some (Inr s)"
  by (simp add: unregister.simps [of None])

lemma sweep_condemned:
  assumes "heap s a = Some e" "e_stack e = None" "condemned s a"
  shows "sweep prev (Some a) s =
    obind (Some (take_out prev a (e_next e) s)) (\<lambda>(prev, s).
      case prev of None \<Rightarrow> Some (Inr s) | Some q \<Rightarrow> obind (Some (deref (Some q) s)) (\<lambda>e. sweep prev (e_next e) s))"
proof -
  have "e_flags e AND (EV_DONE OR EV_RUN_FAIL OR EV_FD_FAIL) \<noteq> 0" using assms(1,3) by (simp add: condemned_def)
  moreover have "replace_done prev a s = take_out prev a (e_next e) s"
    using assms(1,2) by (simp add: replace_done_def)
  ultimately show ?thesis
    using assms(1,2) by (simp add: sweep.simps [of prev "Some a"] unregister_nothing)
qed

lemma same_link: "e = e\<lparr>e_next := e_next e\<rparr>"
  by (cases e) simp

lemma sweep_kept:
  "heap s a = Some e \<Longrightarrow> \<not> condemned s a \<Longrightarrow> sweep prev (Some a) s = sweep (Some a) (e_next e) s"
  by (simp add: sweep.simps [of prev "Some a"] condemned_def)

lemma sweep_behind:
  "\<lbrakk>chain (heap s) (Some q) (q # bs) None; stackless s\<rbrakk> \<Longrightarrow>
   \<exists>s'. sweep (Some q) (e_next (the (heap s q))) s = Some (Inr s') \<and>
     chain (heap s') (Some q) (q # filter (\<lambda>x. \<not> condemned s x) bs) None \<and> evhead s' = evhead s \<and>
     relinked s s' (set (q # filter (\<lambda>x. \<not> condemned s x) bs)) {x \<in> set bs. condemned s x}"
proof (induction bs arbitrary: q s)
  case Nil
  then obtain eq where "heap s q = Some eq" "e_next eq = None" by auto
  then show ?case by (auto simp: sweep.simps relinked_def intro: same_link)
next
  case (Cons b bs)
  from Cons.prems(1) obtain eq e where q: "heap s q = Some eq" "e_next eq = Some b" and b: "heap s b = Some e"
    and c: "chain (heap s) (e_next e) bs None" by auto
  have d: "distinct (q # b # bs)" using chain_distinct [OF Cons.prems(1)] .
  show ?case
  proof (cases "condemned s b")
    case False
    from c b have "chain (heap s) (Some b) (b # bs) None" by simp
    from Cons.IH [OF this Cons.prems(2)] b obtain s' where
      s': "sweep (Some b) (e_next e) s = Some (Inr s')"
        "chain (heap s') (Some b) (b # filter (\<lambda>x. \<not> condemned s x) bs) None" "evhead s' = evhead s"
        "relinked s s' (set (b # filter (\<lambda>x. \<not> condemned s x) bs)) {x \<in> set bs. condemned s x}" by auto
    have hq: "heap s' q = Some eq" using s'(4) d q(1) by (auto simp: relinked_def)
    have "\<exists>n. eq = eq\<lparr>e_next := n\<rparr>" using same_link by blast
    moreover have "{x \<in> set (b # bs). condemned s x} = {x \<in> set bs. condemned s x}" using False by auto
    ultimately have "relinked s s' (set (q # b # filter (\<lambda>x. \<not> condemned s x) bs)) {x \<in> set (b # bs). condemned s x}"
      using s'(4) hq q(1) unfolding relinked_def by (auto; metis)
    with s' hq q False b show ?thesis by (auto simp: sweep_kept)
  next
    case True
    define s1 where "s1 = free_event b (s\<lparr>heap := (heap s)(q \<mapsto> eq\<lparr>e_next := e_next e\<rparr>)\<rparr>)"
    have h1: "heap s1 = ((heap s)(q \<mapsto> eq\<lparr>e_next := e_next e\<rparr>))(b := None)" by (simp add: s1_def free_event_def)
    have run: "sweep (Some q) (Some b) s = sweep (Some q) (e_next e) s1"
      using sweep_condemned [OF b _ True, of "Some q"] Cons.prems(2) b q d
      by (simp add: stackless_def take_out_def s1_def free_event_def)
    have c1: "chain (heap s1) (Some q) (q # bs) None" using c d by (simp add: h1)
    have sl: "stackless s1" using Cons.prems(2) q by (auto simp: stackless_def h1 split: if_splits)
    have cond: "x \<in> set bs \<Longrightarrow> condemned s1 x = condemned s x" for x
      using d by (auto simp: condemned_def h1)
    then have f: "filter (\<lambda>x. \<not> condemned s1 x) bs = filter (\<lambda>x. \<not> condemned s x) bs"
      "{x \<in> set bs. condemned s1 x} = {x \<in> set bs. condemned s x}" by (auto intro: filter_cong)
    from Cons.IH [OF c1 sl, unfolded f] d obtain s' where
      s': "sweep (Some q) (e_next e) s1 = Some (Inr s')" "chain (heap s') (Some q) (q # filter (\<lambda>x. \<not> condemned s x) bs) None"
        "evhead s' = evhead s1" "relinked s1 s' (set (q # filter (\<lambda>x. \<not> condemned s x) bs)) {x \<in> set bs. condemned s x}"
      by (auto simp: h1)
    have "relinked s s' (set (q # filter (\<lambda>x. \<not> condemned s x) (b # bs))) {x \<in> set (b # bs). condemned s x}"
      using s'(4) d q True unfolding relinked_def by (auto simp: h1 s1_def free_event_def split: if_splits) 
    with s' q True run show ?thesis by (auto simp: s1_def free_event_def)
  qed
qed

lemma sweep_list:
  assumes "chain (heap s) (evhead s) as None" "stackless s"
  shows "\<exists>s'. sweep None (evhead s) s = Some (Inr s') \<and> chain (heap s') (evhead s') (swept (condemned s) as) None \<and>
    relinked s s' (set (swept (condemned s) as)) (set as - set (swept (condemned s) as))"
proof (cases as)
  case Nil
  with assms(1) show ?thesis by (simp add: sweep.simps swept_def relinked_def)
next
  case (Cons a bs)
  with assms(1) obtain e where a: "evhead s = Some a" "heap s a = Some e" and c: "chain (heap s) (e_next e) bs None" by auto
  have d: "distinct (a # bs)" using chain_distinct [OF assms(1)] Cons by simp
  show ?thesis
  proof (cases "condemned s a")
    case False
    have "chain (heap s) (Some a) (a # bs) None" using a c by simp
    from sweep_behind [OF this assms(2)] a obtain s' where
      s': "sweep (Some a) (e_next e) s = Some (Inr s')"
        "chain (heap s') (Some a) (a # filter (\<lambda>x. \<not> condemned s x) bs) None" "evhead s' = Some a"
        "relinked s s' (set (a # filter (\<lambda>x. \<not> condemned s x) bs)) {x \<in> set bs. condemned s x}"
      by auto
    have "set (a # bs) - set (a # filter (\<lambda>x. \<not> condemned s x) bs) = {x \<in> set bs. condemned s x}" using d by auto
    with s' a False show ?thesis by (simp add: Cons swept_def sweep_kept)
  next
    case True
    define s1 where "s1 = free_event a (s\<lparr>evhead := e_next e\<rparr>)"
    have h1: "heap s1 = (heap s)(a := None)" by (simp add: s1_def free_event_def)
    have st: "e_stack e = None" using assms(2) a by (auto simp: stackless_def)
    have out: "take_out None a (e_next e) s = Inr (e_next e, s1)" by (simp add: take_out_def s1_def)
    show ?thesis
    proof (cases bs)
      case Nil
      with c have "e_next e = None" by simp
      with sweep_condemned [OF a(2) st True, of None] out a True Cons Nil show ?thesis
        by (auto simp: swept_def relinked_def h1 s1_def free_event_def)
    next
      case bs: (Cons b cs)
      with c obtain be where b: "e_next e = Some b" "heap s b = Some be" by auto
      have "chain (heap s1) (Some b) (b # cs) None" using c b d bs by (simp add: h1)
      moreover have "stackless s1" using assms(2) by (auto simp: stackless_def h1 split: if_splits)
      ultimately obtain s' where s': "sweep (Some b) (e_next (the (heap s1 b))) s1 = Some (Inr s')"
        "chain (heap s') (Some b) (b # filter (\<lambda>x. \<not> condemned s1 x) cs) None" "evhead s' = evhead s1"
        "relinked s1 s' (set (b # filter (\<lambda>x. \<not> condemned s1 x) cs)) {x \<in> set cs. condemned s1 x}"
        using sweep_behind by blast
      have f: "filter (\<lambda>x. \<not> condemned s1 x) cs = filter (\<lambda>x. \<not> condemned s x) cs"
        "{x \<in> set cs. condemned s1 x} = {x \<in> set cs. condemned s x}"
        using d bs by (auto simp: condemned_def h1 intro!: filter_cong)
      have hb: "heap s1 b = Some be" using b d bs by (auto simp: h1)
      have run: "sweep None (Some a) s = sweep (Some b) (e_next be) s1"
        using sweep_condemned [OF a(2) st True, of None] out b hb by simp
      have g: "set (a # bs) - set (b # filter (\<lambda>x. \<not> condemned s x) cs) = insert a {x \<in> set cs. condemned s x}"
        using d bs by auto
      have "heap s' a = None" using s'(4) d bs by (auto simp: relinked_def h1)
      then have "relinked s s' (set (b # filter (\<lambda>x. \<not> condemned s x) cs)) (insert a {x \<in> set cs. condemned s x})"
        using s'(4) d bs unfolding relinked_def f by (auto simp: h1 s1_def free_event_def split: if_splits)
      moreover have sw: "swept (condemned s) as = b # filter (\<lambda>x. \<not> condemned s x) cs"
        using True by (simp add: Cons bs swept_def)
      moreover have "set as - set (swept (condemned s) as) = insert a {x \<in> set cs. condemned s x}"
        unfolding sw using g by (simp add: Cons)
      moreover have "evhead s' = Some b" using s'(3) b by (simp add: s1_def free_event_def)
      moreover have "sweep None (evhead s) s = Some (Inr s')" using s'(1) run a hb by simp
      ultimately show ?thesis using s'(2) unfolding f by (intro exI [of _ s']) simp
    qed
  qed
qed

text \<open>A callback that leaves the links, the filters and the head alone, and posts at most.\<close>

definition same_lists :: "('cb, 'v) events \<Rightarrow> ('cb, 'v) events \<Rightarrow> bool" where
  "same_lists s s' \<longleftrightarrow> evhead s' = evhead s \<and>
     (\<forall>a. map_option (\<lambda>e. (e_next e, e_stack e, e_filter e)) (heap s' a) = map_option (\<lambda>e. (e_next e, e_stack e, e_filter e)) (heap s a))"

definition tame :: "('cb, 'v) sys \<Rightarrow> bool" where
  "tame S \<longleftrightarrow> (\<forall>cb a kind s r s'. run S cb a kind s = Inr (r, s') \<longrightarrow> same_lists s s')"

lemma same_lists_trans: "same_lists s s' \<Longrightarrow> same_lists s' s'' \<Longrightarrow> same_lists s s''"
  by (simp add: same_lists_def)

lemma put_same_lists:
  "put a f s = Inr s' \<Longrightarrow> (\<And>e. e_next (f e) = e_next e \<and> e_stack (f e) = e_stack e \<and> e_filter (f e) = e_filter e) \<Longrightarrow> same_lists s s'"
  by (auto simp: put_def rbind_Inr_iff deref_def same_lists_def split: option.splits)

lemma call_same_lists: "tame S \<Longrightarrow> call S a kind fail s = Inr s' \<Longrightarrow> same_lists s s'"
  unfolding call_def tame_def
  by (auto simp: rbind_Inr_iff split: if_splits dest!: put_same_lists) (blast intro: same_lists_trans)

definition deliver_one :: "('cb, 'v) sys \<Rightarrow> 'v event_msg \<Rightarrow> nat \<Rightarrow> ('cb, 'v) events \<Rightarrow> ('cb, 'v) events result" where
  "deliver_one S m a s =
     rbind (put a (\<lambda>e. e\<lparr>e_msg := Some m\<rparr>) s) (\<lambda>s. rbind (call S a EV_MSG EV_MSG_FAIL s) (put a (\<lambda>e. e\<lparr>e_msg := None\<rparr>)))"

text \<open>The subscribers of a message, and the calls one after the other.\<close>

definition subscribers :: "('cb, 'v) events \<Rightarrow> 'v event_msg \<Rightarrow> nat list \<Rightarrow> nat list" where
  "subscribers s m as = filter (\<lambda>a. e_filter (the (heap s a)) AND m_class m \<noteq> 0) as"

fun deliver_to :: "('cb, 'v) sys \<Rightarrow> 'v event_msg \<Rightarrow> nat list \<Rightarrow> ('cb, 'v) events \<Rightarrow> ('cb, 'v) events result" where
  "deliver_to S m [] s = Inr s"
| "deliver_to S m (a # as) s = rbind (deliver_one S m a s) (deliver_to S m as)"

lemma deliver_one_same_lists: "tame S \<Longrightarrow> deliver_one S m a s = Inr s' \<Longrightarrow> same_lists s s'"
  unfolding deliver_one_def
  by (auto simp: rbind_Inr_iff dest!: call_same_lists put_same_lists intro: same_lists_trans)

lemma same_lists_chain: "same_lists s s' \<Longrightarrow> chain (heap s) p as q \<Longrightarrow> chain (heap s') p as q"
proof (induction as arbitrary: p)
  case (Cons a as)
  then obtain e where "p = Some a" "heap s a = Some e" "chain (heap s) (e_next e) as q" by auto
  moreover from this Cons.prems(1) obtain e' where "heap s' a = Some e'" "e_next e' = e_next e"
    by (auto simp: same_lists_def dest!: spec [where x = a])
  ultimately show ?case using Cons.IH [OF Cons.prems(1)] by simp
qed simp

lemma deliver_subscribers:
  "\<lbrakk>tame S; chain (heap s) p as None\<rbrakk> \<Longrightarrow> event_msg_deliver S m p s = Some (deliver_to S m (subscribers s m as) s)"
proof (induction as arbitrary: p s)
  case Nil
  then show ?case by (simp add: event_msg_deliver.simps subscribers_def)
next
  case (Cons a as)
  then obtain e where a: "p = Some a" "heap s a = Some e" and c: "chain (heap s) (e_next e) as None" by auto
  show ?case
  proof (cases "e_filter e AND m_class m = 0")
    case True
    with a Cons.IH [OF Cons.prems(1) c] show ?thesis
      by (simp add: event_msg_deliver.simps [of S m "Some a"] subscribers_def)
  next
    case False
    have step: "event_msg_deliver S m (Some a) s =
        obind (Some (deliver_one S m a s)) (\<lambda>s. obind (Some (deref (Some a) s)) (\<lambda>e. event_msg_deliver S m (e_next e) s))"
      using a False by (simp add: event_msg_deliver.simps [of S m "Some a"] deliver_one_def obind_def split: sum.split)
    show ?thesis
    proof (cases "deliver_one S m a s")
      case (Inl f)
      with a False show ?thesis by (simp add: step subscribers_def)
    next
      case (Inr s1)
      note same = deliver_one_same_lists [OF Cons.prems(1) Inr]
      then obtain e1 where e1: "heap s1 a = Some e1" "e_next e1 = e_next e"
        using a(2) by (auto simp: same_lists_def dest!: spec [where x = a])
      have "subscribers s1 m as = subscribers s m as" unfolding subscribers_def
      proof (rule filter_cong [OF refl])
        fix x assume "x \<in> set as"
        with chain_allocated [OF c] obtain ex where "heap s x = Some ex" by blast
        with same show "(e_filter (the (heap s1 x)) AND m_class m \<noteq> 0) = (e_filter (the (heap s x)) AND m_class m \<noteq> 0)"
          by (auto simp: same_lists_def dest!: spec [where x = x])
      qed
      with Cons.IH [OF Cons.prems(1) same_lists_chain [OF same c]] a False Inr e1 show ?thesis
        by (simp add: step subscribers_def)
    qed
  qed
qed

text \<open>
  Whatever \<open>head\<close> is given, the new event is the last of the list it is in, and nothing is ever put on
  a stack, although the comment promises that.
\<close>

lemma registering_appends:
  assumes "chain (heap s) (evhead s) as None" "stackless s" "fresh s \<notin> set as" "head = None \<or> (\<exists>h \<in> set as. head = Some h)"
  shows "\<exists>s'. event_register_action head flags cb priv s = Some (Inr (fresh s, s')) \<and>
    chain (heap s') (evhead s') (as @ [fresh s]) None \<and> stackless s'"
proof (cases "as = []")
  case True
  with assms show ?thesis
    by (auto simp: event_register_action_def Let_def stackless_def)
next
  case False
  then obtain bs b where as: "as = bs @ [b]" by (metis append_butlast_last_id)
  have "\<exists>h cs. (case head of None \<Rightarrow> evhead s | Some h \<Rightarrow> Some h) = Some h \<and> chain (heap s) (Some h) (cs @ [b]) None"
  proof (cases head)
    case None
    from assms(1) False have "\<exists>h. evhead s = Some h" by (cases as) auto
    with assms(1) None as show ?thesis by auto
  next
    case (Some h)
    with assms(4) obtain us vs where l: "as = us @ h # vs" by (auto simp: in_set_conv_decomp)
    with assms(1) have c: "chain (heap s) (Some h) (h # vs) None" by (auto simp: chain_append)
    obtain cs where "h # vs = cs @ [b]" using l as by (metis append_butlast_last_id last_appendR last_snoc list.discI)
    with c Some show ?thesis by (metis option.simps(5))
  qed
  then obtain h cs where h: "(case head of None \<Rightarrow> evhead s | Some h \<Rightarrow> Some h) = Some h" "chain (heap s) (Some h) (cs @ [b]) None"
    by blast
  let ?s = "s\<lparr>fresh := fresh s + 1\<rparr>"
  have l: "last_event ?s h = Some (Inr b)" using last_event_chain [of ?s h cs b] h(2) by simp
  from assms(1) as obtain eb where b: "heap s b = Some eb" "chain (heap s) (evhead s) bs (Some b)"
    by (auto simp: chain_append)
  have d: "b \<notin> set bs" "fresh s \<noteq> b" "fresh s \<notin> set bs"
    using chain_distinct [OF assms(1)] assms(3) as by auto
  have h': "(case head of None \<Rightarrow> evhead (s\<lparr>fresh := Suc (fresh s)\<rparr>) | Some h \<Rightarrow> Some h) = Some h"
    using h(1) by (cases head) simp_all
  show ?thesis
    using b d assms(2) l by (auto simp: event_register_action_def Let_def h' as chain_append stackless_def)
qed

lemma event_before_none:
  "chain (heap s) p (a # as) None \<Longrightarrow> bad \<notin> set as \<Longrightarrow> event_before s p bad = Some (Inr None)"
proof (induction as arbitrary: p a)
  case Nil
  then show ?case by (auto simp: event_before.simps [of s "Some a"])
next
  case (Cons b as)
  then show ?case by (auto simp: event_before.simps [of s "Some a"])
qed

lemma event_before_found:
  "chain (heap s) p (xs @ [x]) (Some bad) \<Longrightarrow> bad \<notin> set (xs @ [x]) \<Longrightarrow> event_before s p bad = Some (Inr (Some x))"
proof (induction xs arbitrary: p)
  case Nil
  then show ?case by (auto simp: event_before.simps [of s "Some x"])
next
  case (Cons a xs)
  then obtain e where a: "p = Some a" "heap s a = Some e" and c: "chain (heap s) (e_next e) (xs @ [x]) (Some bad)" by auto
  then obtain b where b: "e_next e = Some b" "b \<in> set (xs @ [x])" by (cases xs) auto
  with Cons.prems(2) have "b \<noteq> bad" by auto
  with a b(1) Cons.IH [OF c] Cons.prems(2) show ?case by (simp add: event_before.simps [of s "Some a"])
qed

text \<open>Unregistering makes the event behind \<open>bad\<close> the first: those in front are lost, and never freed.\<close>

lemma unregistering_loses_front:
  assumes "chain (heap s) (evhead s) (xs @ bad # ys) None" "stackless s"
  shows "\<exists>s'. event_unregister_action None bad s = Some (Inr s') \<and> chain (heap s') (evhead s') ys None \<and>
    heap s' bad = None \<and> (\<forall>x \<in> set xs. heap s' x \<noteq> None)"
proof -
  obtain e where e: "heap s bad = Some e" "chain (heap s) (e_next e) ys None" "chain (heap s) (evhead s) xs (Some bad)"
    using assms(1) by (auto simp: chain_append)
  have st: "e_stack e = None" using assms(2) e(1) by (auto simp: stackless_def)
  have d: "distinct (xs @ bad # ys)" by (rule chain_distinct [OF assms(1)])
  show ?thesis
  proof (cases xs rule: rev_cases)
    case Nil
    with e(1,2) have c: "chain (heap s) (evhead s) (bad # ys) None" using e(3) by simp
    from event_before_none [OF this, of bad] d have "event_before s (evhead s) bad = Some (Inr None)" by simp
    with e d Nil show ?thesis
      by (auto simp: event_unregister_action_def unregister.simps [of "Some Head"] free_event_def)
  next
    case (snoc zs z)
    have f: "event_before s (evhead s) bad = Some (Inr (Some z))"
      using event_before_found [of s "evhead s" zs z bad] e(3) d snoc by auto
    obtain ez where z: "heap s z = Some ez" using chain_allocated [OF assms(1), of z] snoc by auto
    let ?s = "s\<lparr>heap := (heap s)(z \<mapsto> ez\<lparr>e_next := e_next e\<rparr>)\<rparr>"
    have "heap ?s bad = Some e" using e(1) d snoc by auto
    then have "event_unregister_action None bad s = Some (Inr (free_event bad (?s\<lparr>evhead := e_next e\<rparr>)))"
      using f z by (simp add: event_unregister_action_def unregister.simps [of "Some Head"] unregister_nothing [OF e(1) st] e(1) del: fun_upd_apply)
    moreover have "\<forall>x \<in> set xs. heap s x \<noteq> None" using chain_allocated [OF assms(1)] by auto
    ultimately show ?thesis using e(2) d snoc by (auto simp: free_event_def)
  qed
qed

text \<open>A delayed event: the time it is compared with was never read.\<close>

lemma delayed_event_faults:
  assumes "evhead s = Some a" "heap s a = Some e" "e_next e = None" "0 < seconds" "n \<noteq> 0"
    and "event_delay a seconds s = Inr s'"
  shows "event_loop S n s' = Some (Inl Uninit)"
proof -
  let ?e = "e\<lparr>e_delay_until := Some (clock s + seconds), e_flags := e_flags e OR EV_DELAY\<rparr>"
  have s': "s' = s\<lparr>heap := (heap s)(a \<mapsto> ?e)\<rparr>" using assms(2,6) by (simp add: event_delay_def)
  have fl: "(e_flags e OR EV_DELAY) AND EV_DELAY \<noteq> 0"
    by (simp add: EV_DELAY_def bit.conj_disj_distrib2)
  have "event_callbacks_run S (Some a) s' = Some (Inr (0, s'))"
    using fl assms(3,4) by (simp add: event_callbacks_run_def callbacks_loop.simps s')
  moreover have "event_fd_add_to_set s' [] 0 (Some a) = Some (Inl Uninit)"
    using fl by (simp add: event_fd_add_to_set.simps s')
  ultimately have "event_round S s' = Some (Inl Uninit)"
    using assms(1) by (simp add: event_round_def s')
  with assms(5) show ?thesis by (simp add: event_loop.simps)
qed

section \<open>The client's loop\<close>

text \<open>
  What drawing may do, and what waiting for input and handling a key may do besides: time goes by,
  and messages are posted, as the signal handlers do.
\<close>

definition draws :: "(('cb, 'v) events \<Rightarrow> ('cb, 'v) events) \<Rightarrow> bool" where
  "draws f \<longleftrightarrow> (\<forall>s. \<exists>c. f s = s\<lparr>clock := c\<rparr>)"

definition posted :: "('cb, 'v) events \<Rightarrow> ('cb, 'v) events \<Rightarrow> bool" where
  "posted s s' \<longleftrightarrow> (\<exists>ms. msgs s' = msgs s @ ms) \<and> heap s' = heap s \<and> evhead s' = evhead s"

lemma posted_trans: "posted s s' \<Longrightarrow> posted s' s'' \<Longrightarrow> posted s s''"
  by (auto simp: posted_def)

definition screen_ok :: "('cb, 'v) screen \<Rightarrow> bool" where
  "screen_ok U \<longleftrightarrow> draws (ui_update U) \<and> draws (ui_balance U) \<and> (\<forall>s. posted s (snd (get_wch U s))) \<and>
     (\<forall>ch code s. posted s (other_key U ch code s))"

lemma keypress_posted: "screen_ok U \<Longrightarrow> posted s (ui_keypress U ch code s)"
  by (auto simp: ui_keypress_def event_msg_post_def screen_ok_def posted_def)

text \<open>The client's event, as \<open>main\<close> has registered it, and as it is when it has been told to quit.\<close>

definition app_event :: "'cb \<Rightarrow> ('cb, 'v) event" where
  "app_event handler = \<lparr>e_callback = handler, e_private = None, e_state = 0, e_fd = 0, e_msg = None, e_delay_until = None,
     e_filter = MSG_CLASS_APP, e_flags = EV_FD OR EV_IDLE, e_stack = None, e_next = None\<rparr>"

definition quit_event :: "'cb \<Rightarrow> ('cb, 'v) event" where
  "quit_event handler = (app_event handler)\<lparr>e_flags := EV_IDLE OR EV_DONE\<rparr>"

definition app_running :: "'cb \<Rightarrow> nat \<Rightarrow> ('cb, 'v) events \<Rightarrow> bool" where
  "app_running handler a s \<longleftrightarrow> evhead s = Some a \<and> heap s a = Some (app_event handler)"

definition quits :: "'v event_msg \<Rightarrow> bool" where
  "quits m \<longleftrightarrow> m_class m = MSG_CLASS_APP \<and> m_msg m = MSG_APP_QUIT"

lemmas ev_flags = EV_RUN_def EV_RUN_FAIL_def EV_MSG_def EV_MSG_FAIL_def EV_FD_def EV_FD_FAIL_def EV_IDLE_def EV_DONE_def EV_DELAY_def

lemma main_registers:
  assumes "evhead s = None"
  shows "\<exists>s'. main_event handler s = Some (Inr s') \<and> app_running handler (fresh s) s' \<and> msgs s' = msgs s"
  using assms
  by (simp add: main_event_def event_register_action_def Let_def event_msg_subscription_class_set_def event_register_fd_def
      event_mark_idle_def app_running_def app_event_def ev_flags)

lemma app_event_fields [simp]:
  "e_next (app_event h) = None" "e_stack (app_event h) = None" "e_fd (app_event h) = 0" "e_callback (app_event h) = h"
  by (simp_all add: app_event_def)

text \<open>One message, at an event that is running or has quit already.\<close>

definition told :: "'cb \<Rightarrow> bool \<Rightarrow> ('cb, 'v) event" where
  "told handler q = (if q then quit_event handler else app_event handler)"

lemma told_fields [simp]:
  "e_callback (told h q) = h" "e_next (told h q) = None" "e_stack (told h q) = None" "e_filter (told h q) = MSG_CLASS_APP"
  "e_msg (told h q) = None" "e_fd (told h q) = 0"
  by (simp_all add: told_def quit_event_def app_event_def)

lemma told_msg [simp]: "(told h q)\<lparr>e_msg := None\<rparr> = told h q"
  by (simp add: told_def quit_event_def app_event_def)

lemma deliver_told:
  assumes "run S handler = event_handler U" "screen_ok U" "heap s a = Some (told handler q)"
  shows "\<exists>c. event_msg_deliver S m (Some a) s =
    Some (Inr (s\<lparr>heap := (heap s)(a \<mapsto> told handler (q \<or> quits m)), clock := c\<rparr>))"
proof (cases "MSG_CLASS_APP AND m_class m = 0")
  case True
  then have "\<not> quits m" by (auto simp: quits_def MSG_CLASS_APP_def)
  with True assms(3) show ?thesis
    by (intro exI [of _ "clock s"]) (simp add: event_msg_deliver.simps fun_upd_idem)
next
  case False
  let ?s = "s\<lparr>heap := (heap s)(a \<mapsto> (told handler q)\<lparr>e_msg := Some m\<rparr>)\<rparr>"
  have "\<exists>c. run S handler a EV_MSG ?s =
      Inr (0, s\<lparr>heap := (heap s)(a \<mapsto> (told handler (q \<or> quits m))\<lparr>e_msg := Some m\<rparr>), clock := c\<rparr>)"
  proof -
    have [simp]: "EV_MSG \<noteq> EV_FD" by (simp add: ev_flags)
    obtain c1 c2 where c: "ui_update U ?s = ?s\<lparr>clock := c1\<rparr>" "ui_balance U ?s = ?s\<lparr>clock := c2\<rparr>"
      using assms(2) by (auto simp: screen_ok_def draws_def) metis
    have t: "(told handler q)\<lparr>e_fd := 0, e_flags := e_flags (told handler q) AND NOT EV_FD OR EV_DONE\<rparr> = told handler True"
      by (simp add: told_def quit_event_def app_event_def ev_flags)
    show ?thesis
    proof (cases "quits m")
      case True
      then show ?thesis
        by (intro exI [of _ "clock s"])
          (simp add: assms(1) event_handler_def quits_def event_unregister_fd_def event_mark_done_def told_def quit_event_def
            app_event_def ev_flags)
    next
      case False
      then show ?thesis using c
        by (auto simp: assms(1) event_handler_def quits_def intro: exI [of _ "clock s"])
    qed
  qed
  then obtain c where "run S handler a EV_MSG ?s =
      Inr (0, s\<lparr>heap := (heap s)(a \<mapsto> (told handler (q \<or> quits m))\<lparr>e_msg := Some m\<rparr>), clock := c\<rparr>)" by blast
  with False assms(3) show ?thesis
    by (intro exI [of _ c]) (simp add: event_msg_deliver.simps [of S m "Some a"] event_msg_deliver.simps [of S m None] call_def)
qed

lemma deliver_all_told:
  assumes "run S handler = event_handler U" "screen_ok U"
  shows "\<lbrakk>evhead s = Some a; heap s a = Some (told handler q)\<rbrakk> \<Longrightarrow>
    \<exists>c. deliver_messages S i s =
      Some (Inr (s\<lparr>heap := (heap s)(a \<mapsto> told handler (q \<or> (\<exists>m \<in> set (drop i (msgs s)). quits m))), clock := c\<rparr>))"
proof (induction "length (msgs s) - i" arbitrary: i s q)
  case 0
  then show ?case by (intro exI [of _ "clock s"]) (simp add: deliver_messages.simps fun_upd_idem)
next
  case (Suc k)
  then have i: "i < length (msgs s)" by simp
  obtain c where c: "event_msg_deliver S (msgs s ! i) (Some a) s =
      Some (Inr (s\<lparr>heap := (heap s)(a \<mapsto> told handler (q \<or> quits (msgs s ! i))), clock := c\<rparr>))"
    using deliver_told [OF assms Suc.prems(2)] by blast
  let ?s = "s\<lparr>heap := (heap s)(a \<mapsto> told handler (q \<or> quits (msgs s ! i))), clock := c\<rparr>"
  obtain c' where "deliver_messages S (i + 1) ?s =
      Some (Inr (?s\<lparr>heap := (heap ?s)(a \<mapsto> told handler ((q \<or> quits (msgs s ! i)) \<or> (\<exists>m \<in> set (drop (i + 1) (msgs ?s)). quits m))),
        clock := c'\<rparr>))"
    using Suc.hyps(1) [of ?s "i + 1" "q \<or> quits (msgs s ! i)"] Suc.hyps(2) Suc.prems by fastforce
  with c i Suc.prems(1) show ?case
    by (intro exI [of _ c']) (simp add: deliver_messages.simps [of S i s] Cons_nth_drop_Suc [symmetric])
qed

text \<open>
  What is in the queue of messages after \<open>select\<close> and, if there is something to read, the key; the
  handler is called with the idle flag cleared.
\<close>

definition awake :: "nat \<Rightarrow> ('cb, 'v) events \<Rightarrow> ('cb, 'v) events" where
  "awake a s = s\<lparr>heap := (heap s)(a := map_option (\<lambda>e. e\<lparr>e_flags := e_flags e AND NOT EV_IDLE\<rparr>) (heap s a))\<rparr>"

definition received :: "('cb, 'v) screen \<Rightarrow> nat \<Rightarrow> int \<Rightarrow> int list \<Rightarrow> ('cb, 'v) events \<Rightarrow> 'v event_msg list option" where
  "received U a r ready s =
     (if 0 < r \<and> 0 \<in> set ready
      then (case get_wch U (awake a s) of
              (None, _) \<Rightarrow> None
            | (Some (ch, code), s) \<Rightarrow> Some (msgs (ui_keypress U ch code s)))
      else Some (msgs s))"

lemma app_callbacks:
  assumes "app_running handler a s"
  shows "event_callbacks_run S (evhead s) s = Some (Inr (0, s))" "event_fd_add_to_set s [] 0 (evhead s) = Some (Inr (0, [0]))"
proof -
  have e: "evhead s = Some a" "heap s a = Some (app_event handler)" using assms by (simp_all add: app_running_def)
  have f: "e_flags (app_event handler) AND EV_DELAY = 0" "e_flags (app_event handler) AND EV_IDLE \<noteq> 0"
    "(app_event handler)\<lparr>e_flags := e_flags (app_event handler) AND NOT EV_DELAY\<rparr> = app_event handler"
    "e_next (app_event handler) = None" "e_stack (app_event handler) = None" "e_fd (app_event handler) = 0"
    by (simp_all add: app_event_def ev_flags)
  have u: "s\<lparr>heap := (heap s)(a \<mapsto> app_event handler)\<rparr> = s" using e(2) by (simp add: fun_upd_idem)
  show "event_callbacks_run S (evhead s) s = Some (Inr (0, s))"
    by (simp add: event_callbacks_run_def callbacks_loop.simps e f u)
  show "event_fd_add_to_set s [] 0 (evhead s) = Some (Inr (0, [0]))"
    by (simp add: event_fd_add_to_set.simps e f)
qed

lemma app_input:
  fixes s :: "('cb, 'v) events"
  assumes "run S handler = event_handler U" "screen_ok U" "app_running handler a s" "received U a r ready s = Some ms" "0 < r"
  shows "\<exists>s'. event_fd_callbacks_run S ready (Some a) s = Some (Inr s') \<and> app_running handler a s' \<and> msgs s' = ms"
proof -
  have e: "heap s a = Some (app_event handler)" "evhead s = Some a" using assms(3) by (simp_all add: app_running_def)
  show ?thesis
  proof (cases "0 \<in> set ready")
    case False
    with assms(3,4) show ?thesis by (simp add: event_fd_callbacks_run.simps e received_def)
  next
    case True
    define s0 where "s0 = awake a s"
    have s0: "heap s0 a = Some ((app_event handler)\<lparr>e_flags := EV_FD\<rparr>)" "evhead s0 = Some a"
      by (simp_all add: s0_def awake_def e app_event_def ev_flags)
    obtain ch code s1 where k: "get_wch U s0 = (Some (ch, code), s1)" "ms = msgs (ui_keypress U ch code s1)"
      using assms(4,5) True by (auto simp: received_def s0_def split: prod.splits option.splits)
    define s2 where "s2 = ui_keypress U ch code s1"
    have "posted s0 s1" using assms(2) k(1) by (auto simp: screen_ok_def dest!: spec [where x = s0])
    then have "posted s0 s2" using keypress_posted [OF assms(2)] posted_trans unfolding s2_def by blast
    with s0 have s2: "heap s2 a = heap s0 a" "evhead s2 = Some a" by (simp_all add: posted_def)
    define s3 where "s3 = s2\<lparr>heap := (heap s2)(a \<mapsto> app_event handler)\<rparr>"
    have "event_mark_idle a s2 = Inr s3"
      using s0(1) s2(1) by (simp add: event_mark_idle_def s3_def app_event_def ev_flags)
    moreover have "EV_FD \<noteq> EV_MSG" by (simp add: ev_flags)
    ultimately have h: "event_handler U a EV_FD s0 = Inr (0, s3)"
      using s0(1) k(1) by (simp add: event_handler_def s2_def [symmetric])
    have p: "put a (\<lambda>e. e\<lparr>e_flags := e_flags e AND NOT EV_IDLE\<rparr>) s = Inr s0" using e(1) by (simp add: s0_def awake_def)
    have c: "call S a EV_FD EV_FD_FAIL s0 = Inr s3" using s0(1) h by (simp add: call_def assms(1))
    have "heap s3 a = Some (app_event handler)" by (simp add: s3_def)
    with e(1) True p c have "event_fd_callbacks_run S ready (Some a) s = Some (Inr s3)"
      by (simp add: event_fd_callbacks_run.simps del: put_Some)
    with s2(2) k(2) show ?thesis by (simp add: s3_def app_running_def s2_def [symmetric])
  qed
qed

lemma app_round:
  fixes s :: "('cb, 'v) events"
  assumes "run S handler = event_handler U" "screen_ok U" "app_running handler a s"
    and "select S 1 [0] (if msgs s = [] then 200 * 1000 else 0) s = ((r, ready, eintr), s1)" "posted s s1" "0 \<le> r"
    and "received U a r ready s1 = Some ms"
  shows "\<exists>s'. event_round S s = Some (Inr (None, s')) \<and> msgs s' = [] \<and>
    (if \<exists>m \<in> set ms. quits m then evhead s' = None \<and> heap s' a = None else app_running handler a s')"
proof -
  have e: "evhead s = Some a" "heap s a = Some (app_event handler)" using assms(3) by (simp_all add: app_running_def)
  have fl: "e_flags (app_event handler :: ('cb, 'v) event) AND EV_FD \<noteq> 0" by (simp add: app_event_def ev_flags)
  have r1: "app_running handler a s1" using assms(3,5) by (simp add: app_running_def posted_def)
  obtain s2 where s2: "(if r \<noteq> 0 then event_fd_callbacks_run S ready (evhead s1) s1 else Some (Inr s1)) = Some (Inr s2)"
    "app_running handler a s2" "msgs s2 = ms"
    using app_input [OF assms(1,2) r1 assms(7)] r1 assms(6,7) by (cases "r = 0") (auto simp: received_def app_running_def)
  have e2: "evhead s2 = Some a" "heap s2 a = Some (told handler False)" using s2(2) by (simp_all add: app_running_def told_def)
  let ?q = "\<exists>m \<in> set ms. quits m"
  obtain c where d: "deliver_messages S 0 s2 = Some (Inr (s2\<lparr>heap := (heap s2)(a \<mapsto> told handler ?q), clock := c\<rparr>))"
    using deliver_all_told [OF assms(1,2) e2, of 0] s2(3) by auto
  let ?s3 = "s2\<lparr>heap := (heap s2)(a \<mapsto> told handler ?q), clock := c, msgs := []\<rparr>"
  have round: "event_round S s = obind (sweep None (evhead ?s3) ?s3) (\<lambda>s. Some (Inr (None, s)))"
    using e app_callbacks [OF assms(3)] fl assms(4,6) s2(1) d by (simp add: event_round_def Let_def)
  show ?thesis
  proof (cases ?q)
    case True
    have "condemned ?s3 a" by (simp add: condemned_def True told_def quit_event_def ev_flags)
    then have "sweep None (Some a) ?s3 = Some (Inr (free_event a (?s3\<lparr>evhead := None\<rparr>)))"
      by (subst sweep_condemned [where e = "told handler ?q"]) (simp_all add: take_out_def)
    with round e2(1) True show ?thesis by (simp add: free_event_def)
  next
    case False
    have "\<not> condemned ?s3 a" by (simp add: condemned_def False told_def app_event_def ev_flags)
    then have "sweep None (Some a) ?s3 = Some (Inr ?s3)"
      by (subst sweep_kept [where e = "told handler ?q"]) (simp_all add: sweep.simps)
    with round e2(1) False show ?thesis by (simp add: app_running_def told_def)
  qed
qed

lemma received_posted:
  assumes "screen_ok U" "received U a r ready s = Some ms"
  shows "\<exists>new. ms = msgs s @ new"
proof (cases "0 < r \<and> 0 \<in> set ready")
  case True
  with assms(2) obtain ch code s1 where k: "get_wch U (awake a s) = (Some (ch, code), s1)" "ms = msgs (ui_keypress U ch code s1)"
    by (auto simp: received_def split: prod.splits option.splits)
  have "posted (awake a s) s1" using assms(1) k(1) by (auto simp: screen_ok_def dest!: spec [where x = "awake a s"])
  then have "posted (awake a s) (ui_keypress U ch code s1)" using keypress_posted [OF assms(1)] posted_trans by blast
  with k(2) show ?thesis by (simp add: posted_def awake_def)
qed (use assms(2) in \<open>auto simp: received_def\<close>)

text \<open>One round of the loop that is not interrupted, and one that is.\<close>

lemma loop_round:
  assumes "run S handler = event_handler U" "screen_ok U" "app_running handler a s"
    and "select S 1 [0] (if msgs s = [] then 200 * 1000 else 0) s = ((r, ready, eintr), s1)" "posted s s1" "0 \<le> r"
    and "received U a r ready s1 = Some ms"
  shows "if \<exists>m \<in> set ms. quits m
    then \<exists>s'. event_loop S (-1) s = Some (Inr (0, s')) \<and> evhead s' = None \<and> heap s' a = None
    else \<exists>s'. event_loop S (-1) s = event_loop S (-1) s' \<and> app_running handler a s' \<and> msgs s' = []"
proof -
  obtain s' where s': "event_round S s = Some (Inr (None, s'))" "msgs s' = []"
    "if \<exists>m \<in> set ms. quits m then evhead s' = None \<and> heap s' a = None else app_running handler a s'"
    using app_round [OF assms] by blast
  then have step: "event_loop S (-1) s = event_loop S (-1) s'" by (simp add: event_loop.simps [of S "-1" s])
  have "event_loop S (-1) s' = Some (Inr (0, s'))" if "evhead s' = None"
    using that by (simp add: event_loop.simps event_round_def)
  with s' step show ?thesis by auto
qed

lemma loop_interrupted:
  fixes s :: "('cb, 'v) events"
  assumes "app_running handler a s"
    and "select S 1 [0] (if msgs s = [] then 200 * 1000 else 0) s = ((r, ready, eintr), s1)" "r < 0"
  shows "event_loop S (-1) s = (if eintr then event_loop S (-1) s1 else Some (Inr (r, s1)))"
proof -
  have e: "evhead s = Some a" "heap s a = Some (app_event handler)" using assms(1) by (simp_all add: app_running_def)
  have fl: "e_flags (app_event handler :: ('cb, 'v) event) AND EV_FD \<noteq> 0" by (simp add: app_event_def ev_flags)
  have "event_round S s = Some (Inr (if eintr then None else Some r, s1))"
    using e app_callbacks [OF assms(1)] fl assms(2,3) by (simp add: event_round_def Let_def)
  then show ?thesis by (simp add: event_loop.simps [of S "-1" s])
qed

section \<open>Properties\<close>

text \<open>
  C39: The end of a round.  On the list of events, when nothing is stacked, the walk along the links
  ends; it takes out exactly the events that are done or have failed, and frees them, and only links
  of the others change; except that the event behind a first one that is taken out stays till the
  next round, whatever its flags.
\<close>

theorem round_sweeps_events:
  assumes "chain (heap s) (evhead s) as None" "stackless s"
  shows "\<exists>s'. sweep None (evhead s) s = Some (Inr s') \<and> chain (heap s') (evhead s') (swept (condemned s) as) None \<and>
    relinked s s' (set (swept (condemned s) as)) (set as - set (swept (condemned s) as))"
  by (rule sweep_list [OF assms])

text \<open>Three events, of which the first and the second are done.\<close>

definition numbered :: "nat \<Rightarrow> u32 \<Rightarrow> nat option \<Rightarrow> (unit, unit) event" where
  "numbered i flags n = \<lparr>e_callback = (), e_private = None, e_state = int i, e_fd = -1, e_msg = None, e_delay_until = None,
     e_filter = 0, e_flags = flags, e_stack = None, e_next = n\<rparr>"

definition three_events :: "(unit, unit) events" where
  "three_events = \<lparr>heap = [0 \<mapsto> numbered 0 EV_DONE (Some 1), 1 \<mapsto> numbered 1 EV_DONE (Some 2), 2 \<mapsto> numbered 2 0 None],
     fresh = 3, evhead = Some 0, msgs = [], clock = 0\<rparr>"

theorem round_sweeps_events_witness:
  "\<exists>s'. sweep None (evhead three_events) three_events = Some (Inr s') \<and> chain (heap s') (evhead s') [1, 2] None \<and> heap s' 0 = None"
proof -
  have c: "chain (heap three_events) (evhead three_events) [0, 1, 2] None"
    by (simp add: three_events_def numbered_def)
  have l: "stackless three_events" by (auto simp: stackless_def three_events_def numbered_def split: if_splits)
  have "condemned three_events 0" "condemned three_events 1" "\<not> condemned three_events 2"
    by (simp_all add: condemned_def three_events_def numbered_def ev_flags)
  then have "swept (condemned three_events) [0, 1, 2] = [1, 2]" by (simp add: swept_def)
  with round_sweeps_events [OF c l] show ?thesis by (auto simp: relinked_def)
qed

text \<open>
  C40: The client's loop.  Registered by \<open>main\<close>, it goes on round by round, as long as no message to
  quit is posted; in a round in which one is in the queue when \<open>select\<close> returns, or the key for it
  is read, the event is taken out and \<open>event_loop\<close> returns 0.  A signal interrupts \<open>select\<close>: then the
  round ends there, with what its handler has posted still in the queue and the event in the list,
  and the loop returns 0 in the next round that is not interrupted.  If \<open>select\<close> fails otherwise,
  the loop returns its result, with the event in the list.  Drawing the screen is taken to leave
  events and messages alone, and the keys, like the signals, to do no more than post messages.
\<close>

theorem client_loop_quits:
  assumes "run S handler = event_handler U" "screen_ok U" "app_running handler a s"
    and "select S 1 [0] (if msgs s = [] then 200 * 1000 else 0) s = ((r, ready, eintr), s1)" "posted s s1"
    and "received U a r ready s1 = Some ms"
  shows "if r < 0 then
      app_running handler a s1 \<and> (\<forall>m \<in> set (msgs s). m \<in> set (msgs s1)) \<and>
      event_loop S (-1) s = (if eintr then event_loop S (-1) s1 else Some (Inr (r, s1))) \<and>
      (\<forall>r2 ready2 eintr2 s2 ms2.
         eintr \<and> (\<exists>m \<in> set (msgs s1). quits m) \<and> select S 1 [0] 0 s1 = ((r2, ready2, eintr2), s2) \<and>
         posted s1 s2 \<and> 0 \<le> r2 \<and> received U a r2 ready2 s2 = Some ms2 \<longrightarrow>
         (\<exists>s'. event_loop S (-1) s = Some (Inr (0, s')) \<and> evhead s' = None \<and> heap s' a = None))
    else if \<exists>m \<in> set ms. quits m
    then \<exists>s'. event_loop S (-1) s = Some (Inr (0, s')) \<and> evhead s' = None \<and> heap s' a = None
    else \<exists>s'. event_loop S (-1) s = event_loop S (-1) s' \<and> app_running handler a s' \<and> msgs s' = []"
proof (cases "r < 0")
  case True
  have run1: "app_running handler a s1" and kept: "set (msgs s) \<subseteq> set (msgs s1)"
    using assms(3,5) by (auto simp: app_running_def posted_def)
  note loop = loop_interrupted [OF assms(3,4) True]
  have "\<exists>s'. event_loop S (-1) s = Some (Inr (0, s')) \<and> evhead s' = None \<and> heap s' a = None"
    if q: "eintr" "\<exists>m \<in> set (msgs s1). quits m" and sel: "select S 1 [0] 0 s1 = ((r2, ready2, eintr2), s2)"
      and p: "posted s1 s2" "0 \<le> r2" "received U a r2 ready2 s2 = Some ms2" for r2 ready2 eintr2 s2 ms2
  proof -
    have "set (msgs s1) \<subseteq> set ms2" using received_posted [OF assms(2) p(3)] p(1) by (auto simp: posted_def)
    then have "\<exists>m \<in> set ms2. quits m" using q(2) by blast
    moreover have "select S 1 [0] (if msgs s1 = [] then 200 * 1000 else 0) s1 = ((r2, ready2, eintr2), s2)"
      using q(2) sel by auto
    ultimately show ?thesis using loop_round [OF assms(1,2) run1 _ p] q(1) loop by simp
  qed
  with True run1 kept loop show ?thesis by auto
next
  case False
  then show ?thesis using loop_round [OF assms(1-5) _ assms(6)] by simp
qed

text \<open>A user who interrupts the first wait: the handler of the signal posts the message.\<close>

definition typing :: "(unit, unit) screen" where
  "typing = \<lparr>ui_update = id, ui_balance = id, get_wch = (\<lambda>s. (None, s)), other_key = (\<lambda>_ _ s. s)\<rparr>"

definition terminal :: "(unit, unit) sys" where
  "terminal = \<lparr>run = (\<lambda>_. event_handler typing),
     select = (\<lambda>_ _ usec s. if usec = 0 then ((0, [], False), s)
       else ((-1, [], True), snd (event_msg_post MSG_CLASS_APP MSG_APP_QUIT None s)))\<rparr>"

theorem client_loop_quits_witness:
  "\<exists>s0 s'. main_event () (three_events\<lparr>evhead := None\<rparr>) = Some (Inr s0) \<and>
     event_loop terminal (-1) s0 = Some (Inr (0, s')) \<and> evhead s' = None"
proof -
  obtain s0 where s0: "main_event () (three_events\<lparr>evhead := None\<rparr>) = Some (Inr s0)" "app_running () 3 s0" "msgs s0 = []"
    using main_registers [of "three_events\<lparr>evhead := None\<rparr>" "()"] by (auto simp: three_events_def)
  have r: "run terminal () = event_handler typing" by (simp add: terminal_def)
  have "\<exists>c. s = s\<lparr>clock := c\<rparr>" for s :: "(unit, unit) events" by (intro exI [of _ "clock s"]) (cases s; simp)
  then have u: "screen_ok typing" by (simp add: screen_ok_def typing_def draws_def posted_def)
  let ?q = "\<lparr>m_class = MSG_CLASS_APP, m_msg = MSG_APP_QUIT, m_data = None :: unit option\<rparr>"
  let ?s1 = "s0\<lparr>msgs := [?q]\<rparr>"
  have sel: "select terminal 1 [0] (if msgs s0 = [] then 200 * 1000 else 0) s0 = ((-1, [], True), ?s1)"
    using s0(3) by (simp add: terminal_def event_msg_post_def)
  have p: "posted s0 ?s1" "posted ?s1 ?s1" using s0(3) by (simp_all add: posted_def)
  have m: "received typing 3 (-1) [] ?s1 = Some [?q]" "received typing 3 0 [] ?s1 = Some [?q]" by (simp_all add: received_def)
  have "select terminal 1 [0] 0 ?s1 = ((0, [], False), ?s1)" by (simp add: terminal_def)
  with client_loop_quits [OF r u s0(2) sel p(1) m(1)] p(2) m(2) obtain s' where
    "event_loop terminal (-1) s0 = Some (Inr (0, s'))" "evhead s' = None"
    by (auto simp: quits_def) metis
  with s0(1) show ?thesis by blast
qed

end
