(* ===== verification/Spec2Isabelle.thy ===== *)
theory Spec2Isabelle
  imports Playlists Decode Structs Tracksort Dns Events
begin

text \<open>
  A model of despotify, an open client of the Spotify protocol
  (\<^verbatim>\<open>src/src/lib\<close>), and the theorems that say what its parts do.

  \<^bold>\<open>The program.\<close>  A client connects to an access point (\<^verbatim>\<open>session.c\<close>), exchanges
  one packet each way in the clear and derives keys (\<^verbatim>\<open>keyexchange.c\<close>), solves a
  puzzle and authenticates (\<^verbatim>\<open>puzzle.c\<close>, \<^verbatim>\<open>auth.c\<close>).  From then on everything
  is a packet under the Shannon cipher (\<^verbatim>\<open>packet.c\<close>, \<^verbatim>\<open>shn.c\<close>).  A request
  (\<^verbatim>\<open>commands.c\<close>) registers a channel (\<^verbatim>\<open>channel.c\<close>) whose id its packet carries;
  a network thread (\<^verbatim>\<open>despotify.c\<close>) reads packets and hands them to handlers
  (\<^verbatim>\<open>handlers.c\<close>), which route the channel packets to the callback of their
  channel.  The callbacks collect the answers, which are XML (\<^verbatim>\<open>xml.c\<close>), or
  decrypt and queue the audio, which the client's audio thread takes from the queue through
  a decoder (\<^verbatim>\<open>sndqueue.c\<close>).  Answers and playlists can be kept on disk (\<^verbatim>\<open>cache.c\<close>).  The
  text client (\<^verbatim>\<open>src/src/clients/despotify\<close>) runs an event loop and sorts the tracks it has
  found.

  \<^bold>\<open>The theories.\<close>
  \<^item> \<^theory_text>\<open>Prelude\<close>: machine types, faults and results, big-endian integers, C
    arrays and strings; the lemmas on them that the components share.
  \<^item> \<^theory_text>\<open>Buf\<close>: \<^verbatim>\<open>buf.c\<close>: growing byte buffers, with the
    overflow of their \<open>int\<close> sizes; the locale \<open>byte_sink\<close> with its interpretation.
  \<^item> \<^theory_text>\<open>Util\<close>: \<^verbatim>\<open>util.c\<close>: hexadecimal ids; complete
    reads and writes over the socket script.
  \<^item> \<^theory_text>\<open>Shannon\<close>: \<^verbatim>\<open>shn.c\<close>: the cipher and its MAC;
    the locale of its passes; encryption and decryption cancel whatever the piece sizes.
  \<^item> \<^theory_text>\<open>Sha1\<close>: \<^verbatim>\<open>sha1.c\<close>,
    \<^verbatim>\<open>hmac.c\<close>: the incremental hash next to FIPS 180-1 and RFC 2104, and their
    equality.
  \<^item> \<^theory_text>\<open>Aes\<close>: \<^verbatim>\<open>aes.c\<close>: the block cipher under the
    audio, next to FIPS 197, and their equality.
  \<^item> \<^theory_text>\<open>Session\<close>: \<^verbatim>\<open>session.c\<close>,
    \<^verbatim>\<open>session.h\<close>: the session record, its start, connecting.
  \<^item> \<^theory_text>\<open>Keyexchange\<close>: \<^verbatim>\<open>keyexchange.c\<close>: the first
    packets and the key derivation.
  \<^item> \<^theory_text>\<open>Packet\<close>: \<^verbatim>\<open>packet.c\<close>: encrypted packets; two
    ends in step understand each other.
  \<^item> \<^theory_text>\<open>Auth\<close>: \<^verbatim>\<open>auth.c\<close>,
    \<^verbatim>\<open>puzzle.c\<close>: the login's proof of work and second packets.
  \<^item> \<^theory_text>\<open>Channel\<close>: \<^verbatim>\<open>channel.c\<close>: the table of channels,
    the dispatch, the life of a channel.
  \<^item> \<^theory_text>\<open>Commands\<close>: \<^verbatim>\<open>commands.c\<close>: the requests and the
    protocol they follow.
  \<^item> \<^theory_text>\<open>Xml\<close>: \<^verbatim>\<open>xml.c\<close>: the data types of
    \<^verbatim>\<open>despotify.h\<close> and their parsers over an element tree.
  \<^item> \<^theory_text>\<open>Cache\<close>: \<^verbatim>\<open>cache.c\<close>: answers kept in files, as
    a refinement of a map and a number; the locale \<open>blob_store\<close> with its interpretation.
  \<^item> \<^theory_text>\<open>Client\<close>: the client's own state, \<^verbatim>\<open>struct
    despotify_session\<close>, and the script of the other threads.
  \<^item> \<^theory_text>\<open>Sndqueue\<close>: \<^verbatim>\<open>sndqueue.c\<close>: the queue of audio
    between the network and the decoder.
  \<^item> \<^theory_text>\<open>Decode\<close>: \<^verbatim>\<open>sndqueue.c\<close>: the next piece of
    sound, over the Ogg and MPEG decoders, which are parameters.
  \<^item> \<^theory_text>\<open>Handlers\<close>: \<^verbatim>\<open>handlers.c\<close> and the network
    thread of \<^verbatim>\<open>despotify.c\<close>.
  \<^item> \<^theory_text>\<open>Login\<close>: \<^verbatim>\<open>despotify.c\<close>: creating a client,
    logging in, freeing it; the waits on conditions.
  \<^item> \<^theory_text>\<open>Answers\<close>: \<^verbatim>\<open>despotify.c\<close>: asking, waiting,
    collecting and unpacking an answer; images.
  \<^item> \<^theory_text>\<open>Uri\<close>: \<^verbatim>\<open>despotify.c\<close>: ids, their conversion
    between bases, Spotify URIs.
  \<^item> \<^theory_text>\<open>Browse\<close>: \<^verbatim>\<open>despotify.c\<close>: artists, albums,
    tracks, searches, from the request to the parsed struct.
  \<^item> \<^theory_text>\<open>Caching\<close>: which operations leave the disk alone: the locale
    \<open>channel_invariant\<close> with its interpretation on the client, so that what is cached can be
    followed through later requests.
  \<^item> \<^theory_text>\<open>Playlists\<close>: \<^verbatim>\<open>despotify.c\<close>: playlists and
    their tracks, the list of all, renaming and sharing.
  \<^item> \<^theory_text>\<open>Structs\<close>: \<^verbatim>\<open>xml.c\<close>: every string the parsers
    copy fits the array that holds it.
  \<^item> \<^theory_text>\<open>Tracksort\<close>: \<^verbatim>\<open>clients/despotify/sort.c\<close>: the
    merge sort of tracks and the removal of doubles; \<open>strcmp\<close> a parameter.
  \<^item> \<^theory_text>\<open>Dns\<close>: \<^verbatim>\<open>dns.c\<close>: looking up servers, the order
    by priority; libresolv a parameter.
  \<^item> \<^theory_text>\<open>Events\<close>: \<^verbatim>\<open>clients/despotify/event.c\<close>,
    \<^verbatim>\<open>main.c\<close>: the event loop of the text client, over a heap of linked events.
  \<^item> \<^theory_text>\<open>Player\<close>: \<^verbatim>\<open>despotify.c\<close>: the callbacks of the
    channels, decryption of the audio, playback control.

  \<^bold>\<open>How the state is represented.\<close>  A C struct is a record with the struct's
  fields; an array of bytes is a list of words of 8 bits, a C string the list of
  its characters before the NUL; \<open>unsigned\<close> fields that can wrap are words.  A
  function that changes state returns the new state.  Everything a function can
  end in besides a value is a \<open>fault\<close> (\<^theory_text>\<open>Prelude\<close>): a failed assertion, an access
  outside an array or through a null pointer, a value that was never written, a
  call of \<open>exit\<close>, a call that never returns, an undefined operation.  The result
  type is \<open>fault + 'a\<close>, bound by \<open>rbind\<close>.  Linked lists are lists, in the order of
  their \<open>next\<close> pointers.

  The socket is a script: the chunks \<open>recv\<close> will deliver, the answers \<open>send\<close> will
  give, and the bytes already on the wire (\<open>net\<close>, \<^theory_text>\<open>Util\<close> and \<^theory_text>\<open>Session\<close>).  A theorem
  that speaks of \<open>pending\<close> bytes therefore holds for every way in which the
  network cuts the stream into chunks.  Function pointers are values of a type
  parameter \<open>'cb\<close>, and a runner says what calling one does; what the dispatch needs
  of a runner is the locale \<open>channel_callbacks\<close> (\<^theory_text>\<open>Channel\<close>).

  \<^bold>\<open>Parameters.\<close>  Arguments of the definitions that use them: OpenSSL's random bytes, RSA and
  Diffie-Hellman results; the resolver, libresolv and \<open>connect\<close>; \<open>random ()\<close>; zlib (the record \<open>libs\<close>
  of \<^theory_text>\<open>Answers\<close>, which also holds what the stack contains before a local variable is set); the
  XML parser of the vendored ezxml (whose tree and navigation are modelled); the Ogg and MPEG
  decoders, the first as a tree of calls back into the reader; \<open>strcmp\<close>, where its result is
  calculated with; \<open>select\<close>, the callbacks and the screen in \<^theory_text>\<open>Events\<close>.  Memory allocation always
  succeeds.  Machine integers are those of a 64-bit little-endian machine.  Where the server decides
  how large an \<open>int\<close> gets, leaving its range is \<open>Undefined\<close>: the sizes of the response and of an
  unpacked text (\<^theory_text>\<open>Buf\<close>), which double, are in range up to \<open>2 ^ 30\<close> bytes, the bound in the theorems
  on answers; the results of the comparison in \<^theory_text>\<open>Tracksort\<close> are checked as well.

  \<^bold>\<open>Fuel.\<close>  The padding loop of SHA-1 runs at most 64 turns and has fuel 64; the
  theorems show that it suffices.  The network thread takes one unit of fuel per
  packet, and its theorem is for every amount.  Loops that may not end are
  partial functions: the puzzle search, whose return is characterised; the decompression of an
  answer and the loading of a playlist's tracks, which are shown to end under their conditions, or
  not to; the Vorbis decoder's loop over holes; the loops along the links of events.  Waits end in
  \<open>Blocked\<close> when the script of the other threads has run out.

  \<^bold>\<open>Not modelled.\<close>  Most of the text interface of \<^verbatim>\<open>clients/despotify\<close> (drawing with
  curses, the commands behind the keys), the command line of \<^verbatim>\<open>clients/simple\<close>, the GTK interface of \<^verbatim>\<open>clients/maemify\<close>,
  the audio back ends and \<^verbatim>\<open>network.c\<close> (one call of the platform each): they do input and
  output.  The gateway, which is written against an older interface of the library and
  does not build with this one.  The bindings; \<^verbatim>\<open>spytify.c\<close> is generated.  The debugging
  output.  The parser of the vendored ezxml, which is a parameter.  Functions that only
  release memory.
\<close>

end
